(* ===== verification/Prelude.thy ===== *)
theory Prelude
  imports Main "HOL-Library.Word"
begin

unbundle bit_operations_syntax

text \<open>
  Shared vocabulary of the development: the machine types of the x64 build, the faults a C++
  operation can raise, the byte-level view of memory (little-endian integers, bounded reads and
  copies, C strings and the bounds-checked string functions of the Microsoft C runtime), a locale
  for fixed-width binary layouts, and locales for step relations: their invariants, what they
  refine, and that they come to rest.
\<close>

section \<open>Machine types and faults\<close>

type_synonym byte = "8 word"
type_synonym cint = "32 word"     \<comment> \<open>int, DWORD, ULONG and the unscoped enums\<close>
type_synonym cword = "16 word"    \<comment> \<open>WORD\<close>
type_synonym size_t = "64 word"   \<comment> \<open>size\_t of the x64 configurations\<close>
type_synonym str = "byte list"    \<comment> \<open>std::string, its bytes without the terminator\<close>

text \<open>
  What can stop a C++ function: the standard exceptions the code can catch, a thrown C string,
  and the failures nobody can catch (the invalid parameter handler of the C runtime, a hardware
  division trap, a call to \<open>std::terminate\<close>, an access outside an object or to freed memory).
\<close>

datatype fault =
    RuntimeError        \<comment> \<open>std::runtime\_error\<close>
  | OutOfRange          \<comment> \<open>std::out\_of\_range\<close>
  | BadFunctionCall     \<comment> \<open>std::bad\_function\_call\<close>
  | ThrownCString       \<comment> \<open>throw of a const char*\<close>
  | InvalidParameter    \<comment> \<open>CRT invalid parameter handler, ends the process\<close>
  | DivideByZero        \<comment> \<open>integer division trap, ends the process\<close>
  | Terminate           \<comment> \<open>std::terminate\<close>
  | DebugTrap           \<comment> \<open>DebugBreak()\<close>
  | OutOfBounds         \<comment> \<open>access outside an object\<close>
  | UseAfterFree        \<comment> \<open>access to, or second release of, freed storage\<close>

type_synonym 'a res = "fault + 'a"

definition std_exception :: "fault \<Rightarrow> bool" where
  "std_exception f \<longleftrightarrow> f \<in> {RuntimeError, OutOfRange, BadFunctionCall}"

lemma std_exception_simps [simp]:
  "std_exception RuntimeError" "std_exception OutOfRange" "std_exception BadFunctionCall"
  "\<not> std_exception ThrownCString" "\<not> std_exception InvalidParameter"
  "\<not> std_exception DivideByZero" "\<not> std_exception Terminate" "\<not> std_exception DebugTrap"
  "\<not> std_exception OutOfBounds" "\<not> std_exception UseAfterFree"
  by (simp_all add: std_exception_def)

definition res_bind :: "'a res \<Rightarrow> ('a \<Rightarrow> 'b res) \<Rightarrow> 'b res" where
  "res_bind m k = (case m of Inl f \<Rightarrow> Inl f | Inr x \<Rightarrow> k x)"

lemma res_bind_simps [simp]:
  "res_bind (Inl f) k = Inl f"
  "res_bind (Inr x) k = k x"
  by (simp_all add: res_bind_def)

lemma res_bind_Inr_iff:
  "res_bind m k = Inr y \<longleftrightarrow> (\<exists>x. m = Inr x \<and> k x = Inr y)"
  by (cases m) auto

lemma res_bind_Inl_iff:
  "res_bind m k = Inl f \<longleftrightarrow> m = Inl f \<or> (\<exists>x. m = Inr x \<and> k x = Inl f)"
  by (cases m) auto

lemma res_bind_cong [cong]:
  "m = m' \<Longrightarrow> (\<And>x. m' = Inr x \<Longrightarrow> k x = k' x) \<Longrightarrow> res_bind m k = res_bind m' k'"
  by (cases m') auto

named_theorems wf_intro \<open>well-formedness is preserved\<close>
named_theorems layout \<open>sizes and layouts of the structures\<close>

section \<open>Little-endian integers\<close>

fun le_bytes :: "nat \<Rightarrow> 'a::len word \<Rightarrow> byte list" where
  "le_bytes 0 w = []"
| "le_bytes (Suc n) w = ucast w # le_bytes n (drop_bit 8 w)"

fun of_le :: "byte list \<Rightarrow> 'a::len word" where
  "of_le [] = 0"
| "of_le (b # bs) = ucast b OR push_bit 8 (of_le bs)"

lemma length_le_bytes [simp, layout]: "length (le_bytes n w) = n"
  by (induction n arbitrary: w) auto

lemma bit_of_le:
  "bit (of_le bs :: 'a::len word) i \<longleftrightarrow>
     i < LENGTH('a) \<and> i div 8 < length bs \<and> bit (bs ! (i div 8)) (i mod 8)"
proof (induction bs arbitrary: i)
  case Nil
  then show ?case by simp
next
  case (Cons b bs)
  show ?case
  proof (cases "i < 8")
    case True
    then show ?thesis
      by (auto simp: bit_or_iff bit_push_bit_iff bit_ucast_iff dest: bit_imp_le_length)
  next
    case False
    then have "i div 8 = Suc ((i - 8) div 8)" and "(i - 8) mod 8 = i mod 8"
      by (simp_all add: le_div_geq le_mod_geq)
    moreover have "\<not> bit b i" using False by (auto dest: bit_imp_le_length)
    ultimately show ?thesis using False
      by (auto simp: bit_or_iff bit_push_bit_iff bit_ucast_iff Cons.IH)
  qed
qed

lemma nth_le_bytes:
  "k < n \<Longrightarrow> le_bytes n w ! k = ucast (drop_bit (8 * k) w)"
  by (induction n arbitrary: w k) (auto simp: nth_Cons' algebra_simps)

lemma of_le_le_bytes:
  assumes "LENGTH('a) \<le> 8 * n"
  shows "of_le (le_bytes n w) = (w :: 'a::len word)"
proof (rule bit_word_eqI)
  fix i assume i: "i < LENGTH('a)"
  then have "i div 8 < n" using assms by auto
  then show "bit (of_le (le_bytes n w) :: 'a word) i = bit w i" using i
    by (auto simp: bit_of_le nth_le_bytes bit_ucast_iff bit_drop_bit_eq)
qed

lemma le_bytes4:
  "le_bytes 4 w = [ucast w, ucast (drop_bit 8 w), ucast (drop_bit 16 w), ucast (drop_bit 24 w)]"
proof -
  have four: "4 = Suc (Suc (Suc (Suc 0)))" by simp
  show ?thesis unfolding four by simp
qed

lemma le_bytes2: "le_bytes 2 w = [ucast w, ucast (drop_bit 8 w)]"
proof -
  have two: "2 = Suc (Suc 0)" by simp
  show ?thesis unfolding two by simp
qed

lemma of_le_le_bytes32 [simp]: "of_le (le_bytes 4 w) = (w :: 32 word)"
  by (rule of_le_le_bytes) simp

lemma of_le_le_bytes16 [simp]: "of_le (le_bytes 2 w) = (w :: 16 word)"
  by (rule of_le_le_bytes) simp

lemma le_bytes_of_le:
  assumes "8 * length bs \<le> LENGTH('a)"
  shows "le_bytes (length bs) (of_le bs :: 'a::len word) = bs"
proof (rule nth_equalityI)
  fix k assume "k < length (le_bytes (length bs) (of_le bs :: 'a word))"
  then have k: "k < length bs" by simp
  show "le_bytes (length bs) (of_le bs :: 'a word) ! k = bs ! k"
  proof (rule bit_word_eqI)
    fix i assume "i < LENGTH(8)"
    then have i: "i < 8" by simp
    then have "8 * k + i < LENGTH('a)" using k assms by linarith
    moreover have "(8 * k + i) div 8 = k" "(8 * k + i) mod 8 = i" using i by auto
    ultimately show "bit (le_bytes (length bs) (of_le bs :: 'a word) ! k) i = bit (bs ! k) i"
      using k i by (simp add: nth_le_bytes bit_ucast_iff bit_drop_bit_eq bit_of_le)
  qed
qed simp

section \<open>Signed readings of 32-bit words\<close>

text \<open>
  An \<open>int\<close> that is not negative has the same value read signed, read unsigned and widened to
  \<open>size_t\<close>; the components' length fields are used in all three readings.
\<close>

lemma sint_less_2p31: "sint (t :: 32 word) < 2147483648"
  using sint_lt [of t] by simp

lemma unat32_less: "unat (t :: 32 word) < 4294967296"
proof -
  have "uint t < 4294967296" using uint_lt2p [of t] by simp
  then show ?thesis using uint_nat [of t] by linarith
qed

lemma unat_ucast64: "unat (ucast (t :: 32 word) :: 64 word) = unat t"
proof -
  have "uint (ucast t :: 64 word) = uint (word_of_int (uint t) :: 64 word)" by simp
  also have "\<dots> = uint t mod 18446744073709551616" by (simp only: uint_word_of_int) simp
  also have "\<dots> = uint t" using uint_lt2p [of t] uint_ge_0 [of t] by simp
  finally show ?thesis by (simp only: unat_eq_nat_uint)
qed

lemma uint_eq_sint:
  assumes "0 \<le> sint (t :: 32 word)"
  shows "uint t = sint t"
proof -
  have "uint t = uint (word_of_int (sint t) :: 32 word)" by simp
  also have "\<dots> = sint t mod 4294967296" by (simp only: uint_word_of_int) simp
  also have "\<dots> = sint t" using assms sint_less_2p31 [of t] by simp
  finally show ?thesis .
qed

lemma nat_sint [simp]: "0 \<le> sint (t :: 32 word) \<Longrightarrow> nat (sint t) = unat t"
  by (simp add: uint_eq_sint [symmetric])

lemma sint_le_iff_unat:
  "0 \<le> sint (t :: 32 word) \<Longrightarrow> sint t \<le> int n \<longleftrightarrow> unat t \<le> n"
  by (metis nat_sint nat_le_iff)

lemma unat_scast64:
  assumes "0 \<le> sint (t :: 32 word)"
  shows "unat (scast t :: 64 word) = unat t"
proof -
  have "uint (scast t :: 64 word) = uint (word_of_int (sint t) :: 64 word)" by simp
  also have "\<dots> = sint t mod 18446744073709551616" by (simp only: uint_word_of_int) simp
  also have "\<dots> = sint t" using assms sint_less_2p31 [of t] by simp
  finally show ?thesis using assms by (simp only: unat_eq_nat_uint nat_sint)
qed

lemma sint_of_nat32: "n < 2147483648 \<Longrightarrow> sint (of_nat n :: 32 word) = int n"
  by (simp add: signed_of_nat signed_take_bit_int_eq_self)

section \<open>Memory blocks\<close>

text \<open>
  A block of storage is the list of its bytes. A read or a copy outside the block is a fault,
  so a result \<open>Inr\<close> says that the access stayed in bounds. Storage that was allocated and
  not written holds indeterminate bytes: a model that allocates takes them as an argument, a
  function from offsets to bytes.
\<close>

definition mem_read :: "nat \<Rightarrow> nat \<Rightarrow> byte list \<Rightarrow> byte list res" where
  "mem_read off n m = (if off + n \<le> length m then Inr (take n (drop off m)) else Inl OutOfBounds)"

definition mem_write :: "nat \<Rightarrow> byte list \<Rightarrow> byte list \<Rightarrow> byte list res" where
  "mem_write off bs m =
     (if off + length bs \<le> length m
      then Inr (take off m @ bs @ drop (off + length bs) m) else Inl OutOfBounds)"

definition new_bytes :: "nat \<Rightarrow> (nat \<Rightarrow> byte) \<Rightarrow> byte list" where
  "new_bytes n junk = map junk [0..<n]"

lemma length_new_bytes [simp, layout]: "length (new_bytes n junk) = n"
  by (simp add: new_bytes_def)

lemma nth_new_bytes [simp]: "i < n \<Longrightarrow> new_bytes n junk ! i = junk i"
  by (simp add: new_bytes_def)

lemma mem_read_ok [simp]:
  "off + n \<le> length m \<Longrightarrow> mem_read off n m = Inr (take n (drop off m))"
  by (simp add: mem_read_def)

lemma mem_read_fault [simp]: "length m < off + n \<Longrightarrow> mem_read off n m = Inl OutOfBounds"
  by (simp add: mem_read_def)

lemma mem_write_ok [simp]:
  "off + length bs \<le> length m \<Longrightarrow>
     mem_write off bs m = Inr (take off m @ bs @ drop (off + length bs) m)"
  by (simp add: mem_write_def)

lemma mem_write_fault [simp]:
  "length m < off + length bs \<Longrightarrow> mem_write off bs m = Inl OutOfBounds"
  by (simp add: mem_write_def)

lemma length_mem_write: "mem_write off bs m = Inr m' \<Longrightarrow> length m' = length m"
  by (auto simp: mem_write_def split: if_splits)

lemma mem_read_length: "mem_read off n m = Inr bs \<Longrightarrow> length bs = n"
  by (auto simp: mem_read_def split: if_splits)

section \<open>C strings\<close>

text \<open>
  A C string in a character array ends at the first NUL byte; \<open>c_str\<close> is its text.
  \<open>terminated\<close> says that there is one. The comparisons and copies follow the C library:
  reading past the end of an array is a fault, and \<open>strncpy_s\<close> and \<open>strcpy_s\<close> call the
  invalid parameter handler when the text and its terminator do not fit the size they are
  given. Bytes of the destination behind the terminator keep their old contents.
\<close>

definition c_str :: "byte list \<Rightarrow> byte list" where
  "c_str bs = takeWhile (\<lambda>b. b \<noteq> 0) bs"

definition terminated :: "byte list \<Rightarrow> bool" where
  "terminated bs \<longleftrightarrow> 0 \<in> set bs"

definition str_lit :: "string \<Rightarrow> str" where
  "str_lit s = map of_char s"

fun strcmp_eq :: "byte list \<Rightarrow> byte list \<Rightarrow> bool res" where
  "strcmp_eq (a # as) (b # bs) =
     (if a \<noteq> b then Inr False else if a = 0 then Inr True else strcmp_eq as bs)"
| "strcmp_eq _ _ = Inl OutOfBounds"

fun strncmp_eq :: "byte list \<Rightarrow> byte list \<Rightarrow> nat \<Rightarrow> bool res" where
  "strncmp_eq _ _ 0 = Inr True"
| "strncmp_eq (a # as) (b # bs) (Suc n) =
     (if a \<noteq> b then Inr False else if a = 0 then Inr True else strncmp_eq as bs n)"
| "strncmp_eq _ _ (Suc n) = Inl OutOfBounds"

definition strncpy_s :: "byte list \<Rightarrow> byte list \<Rightarrow> nat \<Rightarrow> byte list res" where
  "strncpy_s dest src count =
     (let s = c_str (take count src) in
      if length src < count \<and> \<not> terminated src then Inl OutOfBounds
      else if length s < length dest then Inr (s @ [0] @ drop (Suc (length s)) dest)
      else Inl InvalidParameter)"

definition strcpy_s :: "byte list \<Rightarrow> nat \<Rightarrow> str \<Rightarrow> byte list res" where
  "strcpy_s dest dest_size src =
     (let s = c_str src in
      if length s < dest_size
      then mem_write 0 (s @ [0]) dest
      else Inl InvalidParameter)"

lemma c_str_no_nul: "0 \<notin> set (c_str bs)"
  by (auto simp: c_str_def dest: set_takeWhileD)

lemma c_str_append_nul [simp]: "0 \<notin> set s \<Longrightarrow> c_str (s @ 0 # rest) = s"
  unfolding c_str_def by (induction s) auto

lemma c_str_id: "0 \<notin> set s \<Longrightarrow> c_str s = s"
  unfolding c_str_def by (induction s) auto

lemma terminated_append_nul [simp]: "terminated (s @ 0 # rest)"
  by (simp add: terminated_def)

lemma length_c_str_le: "length (c_str bs) \<le> length bs"
  by (simp add: c_str_def length_takeWhile_le)

lemma length_c_str_less: "terminated bs \<Longrightarrow> length (c_str bs) < length bs"
  unfolding terminated_def c_str_def by (induction bs) auto

lemma c_str_full: "\<not> terminated bs \<Longrightarrow> c_str bs = bs"
  by (rule c_str_id) (simp add: terminated_def)

lemma strcmp_eq_terminated:
  "terminated a \<Longrightarrow> terminated b \<Longrightarrow> strcmp_eq a b = Inr (c_str a = c_str b)"
  by (induction a b rule: strcmp_eq.induct) (auto simp: terminated_def c_str_def)

lemma strncmp_eq_text:
  "length a = n \<Longrightarrow> length b = n \<Longrightarrow> 0 \<notin> set b \<Longrightarrow> strncmp_eq a b n = Inr (a = b)"
proof (induction n arbitrary: a b)
  case 0
  then show ?case by simp
next
  case (Suc n)
  then obtain x xs y ys where "a = x # xs" "b = y # ys"
    by (meson length_Suc_conv)
  with Suc show ?case by auto
qed

lemma strncpy_s_terminated:
  assumes "terminated src" and "length src \<le> count" and "length src \<le> length dest"
  shows "strncpy_s dest src count = Inr (c_str src @ 0 # drop (Suc (length (c_str src))) dest)"
  using assms length_c_str_less [of src] by (simp add: strncpy_s_def Let_def)

lemma strncpy_s_unterminated:
  assumes "\<not> terminated src" and "length src = count" and "length dest \<le> count"
  shows "strncpy_s dest src count = Inl InvalidParameter"
  using assms by (simp add: strncpy_s_def Let_def c_str_full)

section \<open>Fixed-width layouts\<close>

text \<open>
  The structures the program copies with \<open>memcpy\<close> have fixed-width memory images. A layout is
  an encoder into such images, a decoder and the values it applies to; the laws are those of a
  copy into a structure and back.
\<close>

locale layout_codec =
  fixes enc :: "'a \<Rightarrow> byte list"
    and dec :: "byte list \<Rightarrow> 'a"
    and width :: nat
    and valid :: "'a \<Rightarrow> bool"
  assumes enc_length: "valid x \<Longrightarrow> length (enc x) = width"
    and dec_enc: "valid x \<Longrightarrow> dec (enc x) = x"
    and width_pos: "0 < width"
begin

lemma enc_inj: "valid x \<Longrightarrow> valid y \<Longrightarrow> enc x = enc y \<Longrightarrow> x = y"
  by (metis dec_enc)

lemma dec_prefix: "valid x \<Longrightarrow> dec (take width (enc x @ rest)) = x"
  by (simp add: enc_length dec_enc)

lemma length_concat_enc:
  "list_all valid xs \<Longrightarrow> length (concat (map enc xs)) = width * length xs"
  by (induction xs) (simp_all add: enc_length)

text \<open>An array of encoded values decodes slot by slot.\<close>

lemma dec_slot:
  assumes "list_all valid xs" and "i < length xs"
  shows "dec (take width (drop (i * width) (concat (map enc xs)))) = xs ! i"
  using assms
proof (induction xs arbitrary: i)
  case Nil
  then show ?case by simp
next
  case (Cons x xs)
  then show ?case
    by (cases i) (simp_all add: enc_length dec_enc)
qed

lemma concat_enc_inj:
  assumes "list_all valid xs" and "list_all valid ys"
    and "concat (map enc xs) = concat (map enc ys)"
  shows "xs = ys"
proof (rule nth_equalityI)
  have "width * length xs = width * length ys"
    using assms length_concat_enc by metis
  then show len: "length xs = length ys" using width_pos by simp
  show "xs ! i = ys ! i" if "i < length xs" for i
    using that len assms dec_slot [of xs i] dec_slot [of ys i] by simp
qed

end

interpretation le32: layout_codec "le_bytes 4 :: 32 word \<Rightarrow> byte list" of_le 4 "\<lambda>_. True"
  by unfold_locales simp_all

interpretation le16: layout_codec "le_bytes 2 :: 16 word \<Rightarrow> byte list" of_le 2 "\<lambda>_. True"
  by unfold_locales simp_all

section \<open>Step relations\<close>

inductive reachable :: "('s \<Rightarrow> bool) \<Rightarrow> ('s \<Rightarrow> 's \<Rightarrow> bool) \<Rightarrow> 's \<Rightarrow> bool"
  for init :: "'s \<Rightarrow> bool" and step :: "'s \<Rightarrow> 's \<Rightarrow> bool" where
  start: "init s \<Longrightarrow> reachable init step s"
| advance: "reachable init step s \<Longrightarrow> step s t \<Longrightarrow> reachable init step t"

text \<open>
  The contract between a component's steps and a property of all its reachable states: the
  property holds at the start and every step keeps it.
\<close>

locale invariant_system =
  fixes init :: "'s \<Rightarrow> bool"
    and step :: "'s \<Rightarrow> 's \<Rightarrow> bool"
    and inv :: "'s \<Rightarrow> bool"
  assumes inv_init: "init s \<Longrightarrow> inv s"
    and inv_step: "inv s \<Longrightarrow> step s t \<Longrightarrow> inv t"
begin

lemma reachable_inv: "reachable init step s \<Longrightarrow> inv s"
  by (induction rule: reachable.induct) (auto intro: inv_init inv_step)

lemma steps_inv: "step\<^sup>*\<^sup>* s t \<Longrightarrow> inv s \<Longrightarrow> inv t"
  by (induction rule: rtranclp_induct) (auto intro: inv_step)

end

lemma reachable_steps:
  "step\<^sup>*\<^sup>* s t \<Longrightarrow> reachable init step s \<Longrightarrow> reachable init step t"
  by (induction rule: rtranclp_induct) (auto intro: reachable.advance)

text \<open>
  The contract between a detailed component and its abstract specification: every step of the detailed
  one, from a state in its invariant, is a step of the specification or leaves the abstract state alone.
\<close>

locale simulation = invariant_system init step inv
  for init :: "'s \<Rightarrow> bool" and step :: "'s \<Rightarrow> 's \<Rightarrow> bool" and inv :: "'s \<Rightarrow> bool" +
  fixes view :: "'s \<Rightarrow> 'a"
    and spec_init :: "'a \<Rightarrow> bool"
    and spec_step :: "'a \<Rightarrow> 'a \<Rightarrow> bool"
  assumes view_init: "init s \<Longrightarrow> spec_init (view s)"
    and view_step: "inv s \<Longrightarrow> step s t \<Longrightarrow> view t = view s \<or> spec_step (view s) (view t)"
begin

lemma refines: "reachable init step s \<Longrightarrow> reachable spec_init spec_step (view s)"
proof (induction rule: reachable.induct)
  case (start s)
  then show ?case by (simp add: reachable.start view_init)
next
  case (advance s t)
  then show ?case using view_step [OF reachable_inv [OF advance.hyps(1)] advance.hyps(2)]
    by (auto intro: reachable.advance)
qed

end

text \<open>
  The contract of a component whose own steps cannot go on for ever: every step makes the state smaller in
  a well-founded order.
\<close>

locale settling =
  fixes step :: "'s \<Rightarrow> 's \<Rightarrow> bool"
    and smaller :: "('s \<times> 's) set"
  assumes well_founded: "wf smaller"
    and gets_smaller: "step s t \<Longrightarrow> (t, s) \<in> smaller"
begin

lemma no_endless_run: "\<not> (\<forall>n. step (f n) (f (Suc n)))"
  using well_founded gets_smaller unfolding wf_iff_no_infinite_down_chain by blast

lemma comes_to_rest: "\<exists>t. step\<^sup>*\<^sup>* s t \<and> (\<forall>u. \<not> step t u)"
proof (induction s rule: wf_induct_rule [OF well_founded])
  case (1 s)
  show ?case
  proof (cases "\<exists>t. step s t")
    case True
    then obtain t where t: "step s t" by blast
    then obtain u where "step\<^sup>*\<^sup>* t u" "\<forall>v. \<not> step u v" using 1 [OF gets_smaller [OF t]] by blast
    then show ?thesis using converse_rtranclp_into_rtranclp [of step s t u] t by blast
  qed auto
qed

end

text \<open>One entry of a sum over the threads changes.\<close>

lemma sum_update:
  fixes f :: "'b \<Rightarrow> nat"
  assumes "t < length xs"
  shows "sum_list (map f (xs[t := w])) + f (xs ! t) = sum_list (map f xs) + f w"
  using assms
proof (induction xs arbitrary: t)
  case (Cons x xs)
  then show ?case by (cases t) force+
qed simp

end
