(* ===== verification/Packets.thy ===== *)
theory Packets
  imports Prelude
begin

text \<open>
  Server/Packet.h and Server/PacketExtracter.h: the packet types and their bit flags, the
  \<open>Packet\<close> structure with its constructors and memory image, the deserialisation of a received
  message, the older \<open>extractPacket\<close>, and the bytes \<open>ServerManager::sendTask\<close> copies out of a
  packet before it sends them.
\<close>

section \<open>Packet types\<close>

text \<open>
  The enumeration is unscoped and lives in an \<open>int\<close>; \<open>memcpy\<close> can put any bit pattern into a
  variable of it. So a \<open>Type\<close> is a 32-bit word and the enumerators have their values in it.
\<close>

type_synonym Type = cint

datatype enumerator = INVALID | TRACK | AUDIO | FILELIST | IMAGE | SETTINGS | END

fun type_val :: "enumerator \<Rightarrow> Type" where
  "type_val INVALID = 0"
| "type_val TRACK = push_bit 1 1"
| "type_val AUDIO = push_bit 2 1"
| "type_val FILELIST = push_bit 3 1"
| "type_val IMAGE = push_bit 4 1"
| "type_val SETTINGS = push_bit 5 1"
| "type_val END = push_bit 6 1"

definition First :: enumerator where "First = INVALID"
definition Last :: enumerator where "Last = END"

definition type_not :: "Type \<Rightarrow> Type" where "type_not a = NOT a"
definition type_or :: "Type \<Rightarrow> Type \<Rightarrow> Type" where "type_or a b = a OR b"
definition type_and :: "Type \<Rightarrow> Type \<Rightarrow> Type" where "type_and a b = a AND b"
definition type_xor :: "Type \<Rightarrow> Type \<Rightarrow> Type" where "type_xor a b = a XOR b"

text \<open>The compound operators give the value their first argument has afterwards.\<close>

definition type_or_assign :: "Type \<Rightarrow> Type \<Rightarrow> Type" where "type_or_assign a b = a OR b"
definition type_and_assign :: "Type \<Rightarrow> Type \<Rightarrow> Type" where "type_and_assign a b = a AND b"
definition type_xor_assign :: "Type \<Rightarrow> Type \<Rightarrow> Type" where "type_xor_assign a b = a XOR b"

text \<open>A flag that is set is found, one that is cleared is not, and toggling twice changes nothing.\<close>

lemma type_assigned:
  "type_and (type_or_assign a b) b = b" "type_and (type_and_assign a (type_not b)) b = 0"
  "type_xor_assign (type_xor_assign a b) b = a"
  by (simp_all add: type_or_assign_def type_and_assign_def type_xor_assign_def type_and_def type_not_def bit_eq_iff)
    (auto simp: bit_simps)

text \<open>Enumerators are compared through their values, as the code does with \<open>type <= Type::Last\<close>.\<close>

instantiation enumerator :: linorder
begin

definition less_eq_enumerator :: "enumerator \<Rightarrow> enumerator \<Rightarrow> bool" where
  "less_eq_enumerator a b \<longleftrightarrow> sint (type_val a) \<le> sint (type_val b)"

definition less_enumerator :: "enumerator \<Rightarrow> enumerator \<Rightarrow> bool" where
  "less_enumerator a b \<longleftrightarrow> sint (type_val a) < sint (type_val b)"

instance
proof
  fix x y z :: enumerator
  show "(x < y) = (x \<le> y \<and> \<not> y \<le> x)"
    by (auto simp: less_eq_enumerator_def less_enumerator_def)
  show "x \<le> x" by (simp add: less_eq_enumerator_def)
  show "x \<le> y \<Longrightarrow> y \<le> z \<Longrightarrow> x \<le> z" by (simp add: less_eq_enumerator_def)
  show "x \<le> y \<Longrightarrow> y \<le> x \<Longrightarrow> x = y"
    by (cases x; cases y) (simp_all add: less_eq_enumerator_def)
  show "x \<le> y \<or> y \<le> x" by (auto simp: less_eq_enumerator_def)
qed

end

lemma First_le_Last: "First \<le> t \<and> t \<le> Last"
  by (cases t) (simp_all add: First_def Last_def less_eq_enumerator_def)

text \<open>The test both parsers write: not zero, at most \<open>END\<close>, and a power of two.\<close>

definition flag_check :: "Type \<Rightarrow> bool" where
  "flag_check t \<longleftrightarrow> sint (type_val INVALID) < sint t \<and> sint t \<le> sint (type_val Last)
     \<and> t AND (t - 1) = 0"

lemma flag_check_iff:
  "flag_check t \<longleftrightarrow> t \<in> {1, 2, 4, 8, 16, 32, 64}"
proof
  assume f: "flag_check t"
  then have r: "0 < sint t" "sint t \<le> 64" "t AND (t - 1) = 0"
    by (simp_all add: flag_check_def Last_def)
  then have "uint t = sint t" by (intro uint_eq_sint) simp
  then have "t = word_of_int (sint t)" by simp
  moreover have "sint t \<in> set [1..64]" using r by simp
  moreover have "\<forall>k \<in> set [1..64]. (word_of_int k :: Type) AND (word_of_int k - 1) = 0
      \<longrightarrow> (word_of_int k :: Type) \<in> {1, 2, 4, 8, 16, 32, 64}"
    by (simp add: upto_rec1)
  ultimately show "t \<in> {1, 2, 4, 8, 16, 32, 64}"
    using r by metis
qed (auto simp: flag_check_def Last_def)

section \<open>The packet\<close>

record Packet =
  pkt_size :: cint
  pkt_type :: Type
  pkt_id :: cint
  packetData :: "byte list"

definition maxPacketSize :: nat where
  "maxPacketSize = 1024"

lemma maxPacketSize_val [simp]: "maxPacketSize = 1024"
  by (simp add: maxPacketSize_def)

text \<open>
  The memory image of a packet is its members in declaration order; there is no padding, so
  \<open>sizeof(Packet)\<close> is 1036.
\<close>

definition packet_image :: "Packet \<Rightarrow> byte list" where
  "packet_image p =
     le_bytes 4 (pkt_size p) @ le_bytes 4 (pkt_type p) @ le_bytes 4 (pkt_id p) @ packetData p"

definition packet_of_image :: "byte list \<Rightarrow> Packet" where
  "packet_of_image m =
     \<lparr> pkt_size = of_le (take 4 m), pkt_type = of_le (take 4 (drop 4 m)),
       pkt_id = of_le (take 4 (drop 8 m)), packetData = drop 12 m \<rparr>"

definition sizeof_Packet :: nat where
  "sizeof_Packet = 4 + 4 + 4 + maxPacketSize"

lemma sizeof_Packet_val [simp]: "sizeof_Packet = 1036"
  by (simp add: sizeof_Packet_def)

interpretation packet: layout_codec packet_image packet_of_image sizeof_Packet
    "\<lambda>p. length (packetData p) = maxPacketSize"
  by unfold_locales (simp_all add: packet_image_def packet_of_image_def)

text \<open>The default constructor zeroes every member.\<close>

definition Packet_default :: Packet where
  "Packet_default =
     \<lparr> pkt_size = 0, pkt_type = type_val INVALID, pkt_id = 0,
       packetData = replicate maxPacketSize 0 \<rparr>"

text \<open>
  The other constructor copies \<open>size\<close> bytes of the caller's array, given as the bytes that can
  be read from it (\<open>None\<close> is a null pointer), and leaves the rest of \<open>packetData\<close> as the
  storage was. A negative size is an enormous copy count.
\<close>

definition Packet_ctor ::
    "(nat \<Rightarrow> byte) \<Rightarrow> Type \<Rightarrow> cint \<Rightarrow> cint \<Rightarrow> byte list option \<Rightarrow> Packet res" where
  "Packet_ctor junk ty sz i data =
     (let p = \<lparr> pkt_size = sz, pkt_type = ty, pkt_id = i,
                packetData = new_bytes maxPacketSize junk \<rparr>
      in case data of
           None \<Rightarrow> Inr p
         | Some d \<Rightarrow>
             if sint sz < 0 then Inl OutOfBounds
             else res_bind (mem_read 0 (nat (sint sz)) d) (\<lambda>bs.
                  res_bind (mem_write 0 bs (packetData p)) (\<lambda>pd.
                  Inr (p\<lparr>packetData := pd\<rparr>))))"

definition Packet_ctor3 ::
    "(nat \<Rightarrow> byte) \<Rightarrow> Type \<Rightarrow> cint \<Rightarrow> byte list option \<Rightarrow> Packet res" where
  "Packet_ctor3 junk ty sz data = Packet_ctor junk ty sz 0 data"

text \<open>
  Deserialisation reads size, id and type in that order, and tests the type the object had
  before the call, not the one just read. A message of another length, or a null pointer,
  leaves the object as it was.
\<close>

definition Deserialize :: "Packet \<Rightarrow> byte list option \<Rightarrow> size_t \<Rightarrow> Packet res" where
  "Deserialize p msg packetSize =
     (case msg of
        None \<Rightarrow> Inr p
      | Some m \<Rightarrow>
          if packetSize \<noteq> of_nat sizeof_Packet then Inr p
          else res_bind (mem_read 0 4 m) (\<lambda>b0. let datasize = of_le b0 :: cint in
            if sint datasize \<le> int maxPacketSize \<and> 0 \<le> sint datasize then
              res_bind (mem_read 4 4 m) (\<lambda>b1. let packetId = of_le b1 in
              res_bind (mem_read 8 4 m) (\<lambda>b2. let datatype' = of_le b2 in
              if sint (type_val INVALID) < sint datatype'
                 \<and> sint (pkt_type p) \<le> sint (type_val Last)
                 \<and> pkt_type p AND (pkt_type p - 1) = 0
              then
                (let q = p\<lparr>pkt_id := packetId, pkt_type := datatype', pkt_size := datasize\<rparr> in
                 if 0 < sint datasize then
                   res_bind (mem_read 12 (nat (sint datasize)) m) (\<lambda>bs.
                   res_bind (mem_write 0 bs (packetData q)) (\<lambda>pd.
                   Inr (q\<lparr>packetData := pd\<rparr>)))
                 else Inr q)
              else Inl RuntimeError))
            else Inl RuntimeError))"

text \<open>
  \<open>extractPacket\<close> of the older client manager knows no id: type and data follow the size, and
  a message it does not accept gives the default packet.
\<close>

definition extractPacket :: "byte list option \<Rightarrow> size_t \<Rightarrow> Packet res" where
  "extractPacket msg packetSize =
     (case msg of
        None \<Rightarrow> Inr Packet_default
      | Some m \<Rightarrow>
          if packetSize \<noteq> of_nat sizeof_Packet then Inr Packet_default
          else res_bind (mem_read 0 4 m) (\<lambda>b0. let sz = of_le b0 :: cint in
            if sint sz \<le> int maxPacketSize \<and> 0 \<le> sint sz then
              res_bind (mem_read 4 4 m) (\<lambda>b1. let ty = of_le b1 in
              if flag_check ty then
                (let q = Packet_default\<lparr>pkt_type := ty, pkt_size := sz\<rparr> in
                 if 0 < sint sz then
                   res_bind (mem_read 8 (nat (sint sz)) m) (\<lambda>bs.
                   res_bind (mem_write 0 bs (packetData q)) (\<lambda>pd.
                   Inr (q\<lparr>packetData := pd\<rparr>)))
                 else Inr q)
              else Inr Packet_default)
            else Inr Packet_default))"

text \<open>The bytes \<open>sendTask\<close> copies: the header and \<open>size\<close> bytes, counted in \<open>size_t\<close>.\<close>

definition wire_size :: "Packet \<Rightarrow> size_t" where
  "wire_size item = scast (pkt_size item) + 4 + 4 + 4"

definition wire_bytes :: "Packet \<Rightarrow> byte list res" where
  "wire_bytes item = mem_read 0 (unat (wire_size item)) (packet_image item)"

section \<open>Well-formed packets and what is sent of them\<close>

definition packet_wf :: "Packet \<Rightarrow> bool" where
  "packet_wf p \<longleftrightarrow> length (packetData p) = maxPacketSize
     \<and> 0 \<le> sint (pkt_size p) \<and> sint (pkt_size p) \<le> int maxPacketSize"

definition payload :: "Packet \<Rightarrow> byte list" where
  "payload p = take (unat (pkt_size p)) (packetData p)"

lemma packet_wf_size: "packet_wf p \<Longrightarrow> unat (pkt_size p) \<le> 1024"
  unfolding packet_wf_def using sint_le_iff_unat [of "pkt_size p" 1024] by simp

lemma length_payload: "packet_wf p \<Longrightarrow> length (payload p) = unat (pkt_size p)"
  using packet_wf_size [of p] by (simp add: payload_def packet_wf_def)

lemma size_test:
  assumes "packet_wf pk" and "n \<le> 1024"
  shows "(scast (pkt_size pk) :: size_t) = of_nat n \<longleftrightarrow> pkt_size pk = of_nat n"
proof -
  have u: "unat (scast (pkt_size pk) :: size_t) = unat (pkt_size pk)"
    using assms(1) by (intro unat_scast64) (simp add: packet_wf_def)
  have n: "unat (of_nat n :: size_t) = n" "unat (of_nat n :: cint) = n"
    using assms(2) by (simp_all add: unat_of_nat)
  have "(scast (pkt_size pk) :: size_t) = of_nat n \<longleftrightarrow> unat (pkt_size pk) = n"
    using u n(1) by (simp add: word_unat_eq_iff)
  also have "\<dots> \<longleftrightarrow> pkt_size pk = of_nat n"
    using n(2) by (auto simp: word_unat_eq_iff)
  finally show ?thesis .
qed

lemma Packet_default_wf [wf_intro]: "packet_wf Packet_default"
  by (simp add: packet_wf_def Packet_default_def)

lemma Packet_ctor_ok:
  assumes "0 \<le> sint sz" and "sint sz \<le> int maxPacketSize" and "unat sz \<le> length d"
  shows "Packet_ctor junk ty sz i (Some d) =
    Inr \<lparr> pkt_size = sz, pkt_type = ty, pkt_id = i,
          packetData = take (unat sz) d @ drop (unat sz) (new_bytes maxPacketSize junk) \<rparr>"
  using assms sint_le_iff_unat [of sz 1024] by (simp add: Packet_ctor_def Let_def)

lemma Packet_ctor_wf [wf_intro]:
  assumes "Packet_ctor junk ty sz i (Some d) = Inr p"
  shows "packet_wf p"
  using assms sint_le_iff_unat [of sz 1024]
  by (auto simp: Packet_ctor_def packet_wf_def Let_def mem_read_def mem_write_def res_bind_Inr_iff
      split: if_splits)

lemma Packet_ctor_Inr_iff:
  "(\<exists>p. Packet_ctor junk ty sz i (Some d) = Inr p) \<longleftrightarrow>
     0 \<le> sint sz \<and> sint sz \<le> int maxPacketSize \<and> unat sz \<le> length d"
  using sint_le_iff_unat [of sz 1024]
  by (auto simp: Packet_ctor_def Let_def mem_read_def mem_write_def res_bind_Inr_iff)

text \<open>A received message, read in the order the deserialiser reads it.\<close>

definition recv_size :: "byte list \<Rightarrow> cint" where "recv_size m = of_le (take 4 m)"
definition recv_id :: "byte list \<Rightarrow> cint" where "recv_id m = of_le (take 4 (drop 4 m))"
definition recv_type :: "byte list \<Rightarrow> Type" where "recv_type m = of_le (take 4 (drop 8 m))"

definition recv_ok :: "byte list \<Rightarrow> bool" where
  "recv_ok m \<longleftrightarrow> 0 \<le> sint (recv_size m) \<and> sint (recv_size m) \<le> int maxPacketSize
     \<and> 0 < sint (recv_type m)"

definition recv_packet :: "byte list \<Rightarrow> Packet" where
  "recv_packet m =
     \<lparr> pkt_size = recv_size m, pkt_type = recv_type m, pkt_id = recv_id m,
       packetData = take (unat (recv_size m)) (drop 12 m)
                    @ replicate (maxPacketSize - unat (recv_size m)) 0 \<rparr>"

lemmas recv_defs = recv_size_def recv_id_def recv_type_def

lemma Deserialize_default:
  assumes "sizeof_Packet \<le> length m"
  shows "Deserialize Packet_default (Some m) (of_nat sizeof_Packet) =
    (if recv_ok m then Inr (recv_packet m) else Inl RuntimeError)"
proof (cases "0 \<le> sint (recv_size m) \<and> sint (recv_size m) \<le> 1024")
  case False
  with assms show ?thesis
    by (auto simp: Deserialize_def recv_ok_def recv_size_def Let_def)
next
  case True
  then have n: "unat (recv_size m) \<le> 1024"
    using sint_le_iff_unat [of "recv_size m" 1024] by simp
  let ?q = "\<lparr> pkt_size = recv_size m, pkt_type = recv_type m, pkt_id = recv_id m,
              packetData = replicate 1024 0 \<rparr>"
  have old: "pkt_type Packet_default = 0" "packetData Packet_default = replicate 1024 0"
    by (simp_all add: Packet_default_def)
  have upd: "Packet_default\<lparr>pkt_id := recv_id m, pkt_type := recv_type m, pkt_size := recv_size m\<rparr> = ?q"
    by (simp add: Packet_default_def)
  have "Deserialize Packet_default (Some m) (of_nat sizeof_Packet) =
    (if 0 < sint (recv_type m) then
       (if 0 < sint (recv_size m)
        then Inr (?q\<lparr>packetData := take (unat (recv_size m)) (drop 12 m)
                   @ replicate (1024 - unat (recv_size m)) 0\<rparr>)
        else Inr ?q)
     else Inl RuntimeError)"
    using assms True n
    by (simp add: Deserialize_def recv_size_def [of m, symmetric] recv_id_def [of m, symmetric]
        recv_type_def [of m, symmetric] Let_def upd old Last_def)
  moreover have "recv_packet m = ?q" if "\<not> 0 < sint (recv_size m)"
  proof -
    have "nat (sint (recv_size m)) = 0" using that True by simp
    then have "unat (recv_size m) = 0" using True by simp
    then show ?thesis by (simp add: recv_packet_def)
  qed
  ultimately show ?thesis using True by (simp add: recv_ok_def recv_packet_def)
qed

lemma Deserialize_wrong_length:
  "n \<noteq> of_nat sizeof_Packet \<Longrightarrow> Deserialize p (Some m) n = Inr p"
  by (simp add: Deserialize_def)

lemma recv_packet_wf [wf_intro]:
  assumes "recv_ok m" and "sizeof_Packet \<le> length m"
  shows "packet_wf (recv_packet m)"
  using assms sint_le_iff_unat [of "recv_size m" 1024]
  by (simp add: recv_packet_def packet_wf_def recv_ok_def)

lemma unat_wire_size:
  assumes "packet_wf p"
  shows "unat (wire_size p) = unat (pkt_size p) + 12"
proof -
  have "unat (scast (pkt_size p) :: 64 word) = unat (pkt_size p)"
    using assms by (intro unat_scast64) (simp add: packet_wf_def)
  then show ?thesis using packet_wf_size [OF assms]
    by (simp add: wire_size_def unat_word_ariths)
qed

lemma wire_bytes_eq:
  assumes "packet_wf p"
  shows "wire_bytes p = Inr (le_bytes 4 (pkt_size p) @ le_bytes 4 (pkt_type p)
      @ le_bytes 4 (pkt_id p) @ payload p)"
  using assms packet_wf_size [OF assms]
  by (simp add: wire_bytes_def unat_wire_size packet_image_def payload_def packet_wf_def)

section \<open>The stream a client reads\<close>

text \<open>
  The server sends packets back to back. A receiver that knows the layout size, type, id, data
  splits the stream again: \<open>parse_stream\<close> is such a receiver, the specification of the wire
  format. It returns what it could split off and the bytes left over.
\<close>

record wire_item =
  wi_type :: Type
  wi_id :: cint
  wi_data :: "byte list"

definition wire_view :: "Packet \<Rightarrow> wire_item" where
  "wire_view p = \<lparr> wi_type = pkt_type p, wi_id = pkt_id p, wi_data = payload p \<rparr>"

function parse_stream :: "byte list \<Rightarrow> wire_item list \<times> byte list" where
  "parse_stream bs =
     (let n = unat (of_le (take 4 bs) :: cint) in
      if length bs < 12 + n then ([], bs)
      else let (items, rest) = parse_stream (drop (12 + n) bs) in
        (\<lparr> wi_type = of_le (take 4 (drop 4 bs)), wi_id = of_le (take 4 (drop 8 bs)),
           wi_data = take n (drop 12 bs) \<rparr> # items, rest))"
  by pat_completeness auto
termination
  by (relation "measure length") auto

lemma wire_view_simps:
  "wi_data (wire_view p) = payload p" "wi_type (wire_view p) = pkt_type p" "wi_id (wire_view p) = pkt_id p"
  by (simp_all add: wire_view_def)

declare parse_stream.simps [simp del]

lemma parse_stream_Nil [simp]: "parse_stream [] = ([], [])"
  by (subst parse_stream.simps) simp

lemma parse_stream_wire:
  assumes "packet_wf p" and "wire_bytes p = Inr bs"
  shows "parse_stream (bs @ rest') =
    (wire_view p # fst (parse_stream rest'), snd (parse_stream rest'))"
proof -
  have bs: "bs = le_bytes 4 (pkt_size p) @ le_bytes 4 (pkt_type p) @ le_bytes 4 (pkt_id p) @ payload p"
    using assms by (simp add: wire_bytes_eq)
  show ?thesis
    using length_payload [OF assms(1)]
    by (subst parse_stream.simps) (simp add: bs wire_view_def Let_def case_prod_beta)
qed

lemma parse_stream_wires:
  "list_all2 (\<lambda>p bs. packet_wf p \<and> wire_bytes p = Inr bs) ps bss \<Longrightarrow>
     parse_stream (concat bss @ rest') =
       (map wire_view ps @ fst (parse_stream rest'), snd (parse_stream rest'))"
proof (induction ps bss rule: list_all2_induct)
  case Nil
  then show ?case by simp
next
  case (Cons p ps bs bss)
  then show ?case using parse_stream_wire [of p bs "concat bss @ rest'"] by simp
qed

lemma wire_bytes_list:
  "list_all packet_wf ps \<Longrightarrow>
     \<exists>bss. map wire_bytes ps = map Inr bss
       \<and> list_all2 (\<lambda>p bs. packet_wf p \<and> wire_bytes p = Inr bs) ps bss"
proof (induction ps)
  case Nil
  then show ?case by simp
next
  case (Cons p ps)
  then obtain bss where "map wire_bytes ps = map Inr bss"
      "list_all2 (\<lambda>p bs. packet_wf p \<and> wire_bytes p = Inr bs) ps bss" by auto
  moreover obtain bs where "wire_bytes p = Inr bs"
    using Cons.prems wire_bytes_eq by auto
  ultimately show ?case using Cons.prems
    by (intro exI [of _ "bs # bss"]) simp
qed

section \<open>Properties\<close>

text \<open>The message a client of this server has to send: size, id, type, then a full data array.\<close>

definition request_image :: "cint \<Rightarrow> cint \<Rightarrow> Type \<Rightarrow> byte list \<Rightarrow> byte list" where
  "request_image sz i ty data = le_bytes 4 sz @ le_bytes 4 i @ le_bytes 4 ty @ data"

lemma recv_request_image [simp]:
  "recv_size (request_image sz i ty data) = sz"
  "recv_id (request_image sz i ty data) = i"
  "recv_type (request_image sz i ty data) = ty"
  "drop 12 (request_image sz i ty data) = data"
  "length (request_image sz i ty data) = 12 + length data"
  by (simp_all add: request_image_def recv_defs)

text \<open>
  C26. Deserialisation of a full-length message into a fresh packet has exactly two outcomes: a
  message whose size field lies in 0..1024 and whose type is positive becomes the well-formed
  packet of its fields, its data followed by zeros; every other message raises the runtime error.
  It never reads outside a buffer of \<open>sizeof(Packet)\<close> bytes.
\<close>

theorem deserialize_full_message:
  assumes "sizeof_Packet \<le> length m"
  shows "(recv_ok m \<and> Deserialize Packet_default (Some m) (of_nat sizeof_Packet) = Inr (recv_packet m)
            \<and> packet_wf (recv_packet m))
       \<or> (\<not> recv_ok m \<and> Deserialize Packet_default (Some m) (of_nat sizeof_Packet) = Inl RuntimeError)"
  using assms by (cases "recv_ok m") (simp_all add: Deserialize_default recv_packet_wf del: sizeof_Packet_val)

theorem deserialize_full_message_witness:
  "recv_ok (request_image 0 7 2 (replicate 1024 0))
     \<and> Deserialize Packet_default (Some (request_image 0 7 2 (replicate 1024 0))) (of_nat sizeof_Packet)
       = Inr (recv_packet (request_image 0 7 2 (replicate 1024 0)))"
proof -
  have "sizeof_Packet \<le> length (request_image 0 7 2 (replicate 1024 0))"
    by (simp add: request_image_def)
  moreover have "recv_ok (request_image 0 7 2 (replicate 1024 0))"
    by (simp add: recv_ok_def)
  ultimately show ?thesis
    using deserialize_full_message [of "request_image 0 7 2 (replicate 1024 0)"] by blast
qed

text \<open>
  Round trip of a request: what a client encodes as size, id, type and a 1024-byte array is
  the packet the handlers see, with the same size, id, type and payload.
\<close>

theorem request_roundtrip:
  assumes "0 \<le> sint sz" and "sint sz \<le> int maxPacketSize" and "0 < sint ty"
    and "length data = maxPacketSize"
  shows "\<exists>p. Deserialize Packet_default (Some (request_image sz i ty data)) (of_nat sizeof_Packet) = Inr p
     \<and> packet_wf p \<and> pkt_size p = sz \<and> pkt_id p = i \<and> pkt_type p = ty
     \<and> payload p = take (unat sz) data"
proof -
  let ?m = "request_image sz i ty data"
  have "recv_ok ?m" "sizeof_Packet \<le> length ?m" "unat sz \<le> 1024"
    using assms sint_le_iff_unat [of sz 1024] by (simp_all add: recv_ok_def)
  then show ?thesis using assms recv_packet_wf [of ?m] Deserialize_default [of ?m]
    by (intro exI [of _ "recv_packet ?m"]) (simp add: recv_packet_def payload_def)
qed

theorem request_roundtrip_witness:
  "\<exists>p. Deserialize Packet_default (Some (request_image 3 9 8 ([1, 2, 3] @ replicate 1021 0)))
         (of_nat sizeof_Packet) = Inr p
     \<and> packet_wf p \<and> pkt_size p = 3 \<and> pkt_id p = 9 \<and> pkt_type p = 8 \<and> payload p = [1, 2, 3]"
  using request_roundtrip [of 3 8 "[1, 2, 3] @ replicate 1021 0" 9] by simp

text \<open>
  The two directions of the protocol do not use the same layout: a packet's own memory image,
  which is what the server sends, is read back by \<open>Deserialize\<close> with type and id exchanged, and
  is refused when the id is not positive.
\<close>

theorem deserialize_own_image_swaps:
  assumes "packet_wf p"
  shows "if 0 < sint (pkt_id p)
    then \<exists>q. Deserialize Packet_default (Some (packet_image p)) (of_nat sizeof_Packet) = Inr q
           \<and> pkt_type q = pkt_id p \<and> pkt_id q = pkt_type p \<and> payload q = payload p
    else Deserialize Packet_default (Some (packet_image p)) (of_nat sizeof_Packet) = Inl RuntimeError"
proof -
  have img: "packet_image p = request_image (pkt_size p) (pkt_type p) (pkt_id p) (packetData p)"
    by (simp add: packet_image_def request_image_def)
  have len: "sizeof_Packet \<le> length (packet_image p)"
    using assms by (simp add: packet_image_def packet_wf_def)
  have ok: "recv_ok (packet_image p) \<longleftrightarrow> 0 < sint (pkt_id p)"
    using assms by (simp add: img recv_ok_def packet_wf_def)
  show ?thesis using Deserialize_default [OF len] ok assms packet_wf_size [OF assms]
    by (auto simp: img recv_packet_def payload_def packet_wf_def)
qed

theorem deserialize_own_image_swaps_witness:
  "\<exists>q. Deserialize Packet_default (Some (packet_image (Packet_default\<lparr>pkt_type := 4, pkt_id := 7\<rparr>)))
        (of_nat sizeof_Packet) = Inr q \<and> pkt_type q = 7 \<and> pkt_id q = 4"
  using deserialize_own_image_swaps [of "Packet_default\<lparr>pkt_type := 4, pkt_id := 7\<rparr>"]
  by (auto simp: packet_wf_def Packet_default_def)

text \<open>
  The type test of the two parsers. \<open>extractPacket\<close> keeps the type of a message with a legal
  size exactly when it is one of the seven single bits up to \<open>END\<close>, and otherwise answers with
  the default packet. \<open>Deserialize\<close> tests the type of the object it fills, which is
  \<open>INVALID\<close> in a fresh packet, so every positive type goes through, single bit or not.
\<close>

theorem type_test_of_parsers:
  assumes "length m = sizeof_Packet" and "0 \<le> sint (recv_size m)" and "sint (recv_size m) \<le> int maxPacketSize"
  shows "(\<exists>q. extractPacket (Some m) (of_nat sizeof_Packet) = Inr q \<and> packet_wf q
            \<and> pkt_type q = (if recv_id m \<in> {1, 2, 4, 8, 16, 32, 64} then recv_id m else type_val INVALID))
       \<and> (\<forall>t. 0 < sint t \<longrightarrow> recv_type m = t \<longrightarrow>
            (\<exists>q. Deserialize Packet_default (Some m) (of_nat sizeof_Packet) = Inr q \<and> pkt_type q = t))"
proof
  have n: "unat (recv_size m) \<le> 1024"
    using assms sint_le_iff_unat [of "recv_size m" 1024] by simp
  have data: "packetData Packet_default = replicate 1024 0"
    by (simp add: Packet_default_def)
  show "\<exists>q. extractPacket (Some m) (of_nat sizeof_Packet) = Inr q \<and> packet_wf q
      \<and> pkt_type q = (if recv_id m \<in> {1, 2, 4, 8, 16, 32, 64} then recv_id m else type_val INVALID)"
    using assms n
    by (simp add: extractPacket_def Let_def flag_check_iff recv_size_def [of m, symmetric]
        recv_id_def [of m, symmetric] packet_wf_def data Packet_default_wf)
      (simp add: Packet_default_def)
  show "\<forall>t. 0 < sint t \<longrightarrow> recv_type m = t \<longrightarrow>
      (\<exists>q. Deserialize Packet_default (Some m) (of_nat sizeof_Packet) = Inr q \<and> pkt_type q = t)"
    using assms Deserialize_default [of m] by (auto simp: recv_ok_def recv_packet_def)
qed

theorem type_test_of_parsers_witness:
  "(\<exists>q. extractPacket (Some (request_image 0 3 3 (replicate 1024 0))) (of_nat sizeof_Packet) = Inr q
      \<and> pkt_type q = 0)
   \<and> (\<exists>q. Deserialize Packet_default (Some (request_image 0 3 3 (replicate 1024 0)))
        (of_nat sizeof_Packet) = Inr q \<and> pkt_type q = 3)"
  using type_test_of_parsers [of "request_image 0 3 3 (replicate 1024 0)"] by auto

text \<open>
  What is sent of a packet the four-argument constructor built: when the constructor succeeds
  the copy out of the packet stays inside it, is the 12-byte header and the \<open>size\<close> data bytes
  the caller passed, and does not depend on the indeterminate rest of the data array.
\<close>

theorem sent_bytes_of_constructed_packet:
  assumes "Packet_ctor junk ty sz i (Some d) = Inr p"
  shows "wire_bytes p = Inr (le_bytes 4 sz @ le_bytes 4 ty @ le_bytes 4 i @ take (unat sz) d)
    \<and> unat (wire_size p) = 12 + unat sz \<and> unat (wire_size p) \<le> sizeof_Packet
    \<and> (\<forall>junk' p'. Packet_ctor junk' ty sz i (Some d) = Inr p' \<longrightarrow> wire_bytes p' = wire_bytes p)"
proof -
  have c: "0 \<le> sint sz" "sint sz \<le> int maxPacketSize" "unat sz \<le> length d" "unat sz \<le> 1024"
    using assms Packet_ctor_Inr_iff [of junk ty sz i d] sint_le_iff_unat [of sz 1024] by auto
  have bytes: "wire_bytes q = Inr (le_bytes 4 sz @ le_bytes 4 ty @ le_bytes 4 i @ take (unat sz) d)"
    if q: "Packet_ctor g ty sz i (Some d) = Inr q" for g q
    using q Packet_ctor_ok [OF c(1-3), of g ty i] wire_bytes_eq [OF Packet_ctor_wf [OF q]] c
    by (auto simp: payload_def min_def)
  have "pkt_size p = sz" using assms Packet_ctor_ok [OF c(1-3), of junk ty i] by auto
  then show ?thesis
    using bytes [OF assms] bytes unat_wire_size [OF Packet_ctor_wf [OF assms]] c by simp
qed

theorem sent_bytes_of_constructed_packet_witness:
  "wire_bytes \<lparr>pkt_size = 2, pkt_type = 4, pkt_id = 1,
       packetData = [65, 66] @ drop 2 (new_bytes 1024 (\<lambda>_. 255))\<rparr>
     = Inr ([2, 0, 0, 0] @ [4, 0, 0, 0] @ [1, 0, 0, 0] @ [65, 66])"
proof -
  have "Packet_ctor (\<lambda>_. 255) 4 2 1 (Some [65, 66]) =
      Inr \<lparr>pkt_size = 2, pkt_type = 4, pkt_id = 1,
       packetData = [65, 66] @ drop 2 (new_bytes 1024 (\<lambda>_. 255))\<rparr>"
    by (subst Packet_ctor_ok) simp_all
  from sent_bytes_of_constructed_packet [OF this]
  show ?thesis by (simp add: le_bytes4)
qed

text \<open>
  C21. The wire format can be split again: the concatenation of what is sent for any list of
  well-formed packets is cut by a receiver into exactly the types, ids and payloads of these
  packets, in order, with no byte left over.
\<close>

theorem stream_roundtrip:
  assumes "list_all packet_wf ps"
  shows "\<exists>bss. map wire_bytes ps = map Inr bss \<and> parse_stream (concat bss) = (map wire_view ps, [])"
proof -
  obtain bss where "map wire_bytes ps = map Inr bss"
      "list_all2 (\<lambda>p bs. packet_wf p \<and> wire_bytes p = Inr bs) ps bss"
    using wire_bytes_list [OF assms] by blast
  then show ?thesis using parse_stream_wires [of ps bss "[]"] by auto
qed

theorem stream_roundtrip_witness:
  "\<exists>bss. map wire_bytes [Packet_default, Packet_default\<lparr>pkt_size := 4\<rparr>] = map Inr bss
     \<and> parse_stream (concat bss) = (map wire_view [Packet_default, Packet_default\<lparr>pkt_size := 4\<rparr>], [])"
  using stream_roundtrip [of "[Packet_default, Packet_default\<lparr>pkt_size := 4\<rparr>]"]
  by (simp add: packet_wf_def Packet_default_def)

end
