(* ===== verification/Songs.thy ===== *)
theory Songs
  imports Prelude
begin

text \<open>
  Server/Song.h: the song structure, its constructors, assignments and comparison. The structure
  travels over the network as its raw memory image, so a \<open>Song\<close> can hold any bytes; the text
  fields are read as C strings, which need a terminator.
\<close>

section \<open>The structure\<close>

record Song =
  SongName :: "byte list"
  ArtistName :: "byte list"
  SongLength :: cint

definition song_image :: "Song \<Rightarrow> byte list" where
  "song_image s = SongName s @ ArtistName s @ le_bytes 4 (SongLength s)"

definition song_of_image :: "byte list \<Rightarrow> Song" where
  "song_of_image m =
     \<lparr> SongName = take 64 m, ArtistName = take 64 (drop 64 m), SongLength = of_le (drop 128 m) \<rparr>"

definition sizeof_Song :: nat where
  "sizeof_Song = 64 + 64 + 4"

lemma sizeof_Song_val [simp]: "sizeof_Song = 132"
  by (simp add: sizeof_Song_def)

definition song_shape :: "Song \<Rightarrow> bool" where
  "song_shape s \<longleftrightarrow> length (SongName s) = 64 \<and> length (ArtistName s) = 64"

interpretation song: layout_codec song_image song_of_image sizeof_Song song_shape
  by unfold_locales (simp_all add: song_image_def song_of_image_def song_shape_def)

lemma song_of_image_shape [wf_intro]: "length m = sizeof_Song \<Longrightarrow> song_shape (song_of_image m)"
  by (simp add: song_of_image_def song_shape_def)

lemma song_image_of_image: "length m = sizeof_Song \<Longrightarrow> song_image (song_of_image m) = m"
proof -
  assume len: "length m = sizeof_Song"
  have "le_bytes 4 (of_le (drop 128 m) :: cint) = drop 128 m"
    using le_bytes_of_le [of "drop 128 m", where 'a = 32] len by simp
  moreover have "take 64 (drop 64 m) @ drop 128 m = drop 64 m"
    using append_take_drop_id [of 64 "drop 64 m"] by simp
  ultimately show ?thesis by (simp add: song_image_def song_of_image_def)
qed

section \<open>Operations\<close>

text \<open>The default constructor initialises nothing.\<close>

definition Song_default :: "(nat \<Rightarrow> byte) \<Rightarrow> Song" where
  "Song_default junk = song_of_image (new_bytes sizeof_Song junk)"

text \<open>
  The constructor from strings rejects names longer than 64 bytes by \<open>throw\<close> with nothing to
  rethrow, which ends the program.
\<close>

definition Song_ctor :: "(nat \<Rightarrow> byte) \<Rightarrow> str \<Rightarrow> str \<Rightarrow> cint \<Rightarrow> Song res" where
  "Song_ctor junk song artist len =
     (let s = Song_default junk in
      if length song > 64 \<or> length artist > 64 then Inl Terminate
      else res_bind (strncpy_s (SongName s) song (length song)) (\<lambda>sn.
           res_bind (strncpy_s (ArtistName s) artist (length artist)) (\<lambda>an.
           Inr (s\<lparr>SongName := sn, ArtistName := an, SongLength := len\<rparr>))))"

definition Song_assign :: "Song \<Rightarrow> Song \<Rightarrow> Song res" where
  "Song_assign this obj =
     res_bind (strncpy_s (SongName this) (SongName obj) 64) (\<lambda>sn.
     res_bind (strncpy_s (ArtistName this) (ArtistName obj) 64) (\<lambda>an.
     Inr (this\<lparr>SongName := sn, ArtistName := an, SongLength := SongLength obj\<rparr>)))"

definition Song_copy :: "(nat \<Rightarrow> byte) \<Rightarrow> Song \<Rightarrow> Song res" where
  "Song_copy junk obj =
     res_bind (strncpy_s (SongName (Song_default junk)) (SongName obj) 64) (\<lambda>sn.
     res_bind (strncpy_s (ArtistName (Song_default junk)) (ArtistName obj) 64) (\<lambda>an.
     Inr \<lparr> SongName = sn, ArtistName = an, SongLength = SongLength obj \<rparr>))"

definition Song_move_assign :: "Song \<Rightarrow> Song \<Rightarrow> Song res" where
  "Song_move_assign this other =
     res_bind (mem_read 0 64 (ArtistName other)) (\<lambda>a.
     res_bind (mem_write 0 a (ArtistName this)) (\<lambda>an.
     res_bind (mem_read 0 64 (SongName other)) (\<lambda>n.
     res_bind (mem_write 0 n (SongName this)) (\<lambda>sn.
     Inr (this\<lparr>ArtistName := an, SongName := sn, SongLength := SongLength other\<rparr>)))))"

definition Song_move :: "(nat \<Rightarrow> byte) \<Rightarrow> Song \<Rightarrow> Song res" where
  "Song_move junk other = Song_move_assign (Song_default junk) other"

definition Song_eq :: "Song \<Rightarrow> Song \<Rightarrow> bool res" where
  "Song_eq this b =
     res_bind (strcmp_eq (SongName this) (SongName b)) (\<lambda>same_song.
     if \<not> same_song then Inr False
     else res_bind (strcmp_eq (ArtistName this) (ArtistName b)) (\<lambda>same_artist.
     if \<not> same_artist then Inr False
     else if SongLength this \<noteq> SongLength b then Inr False
     else Inr True))"

section \<open>Songs with terminated names\<close>

definition song_ok :: "Song \<Rightarrow> bool" where
  "song_ok s \<longleftrightarrow> song_shape s \<and> terminated (SongName s) \<and> terminated (ArtistName s)"

text \<open>What a song says: its two texts and its length.\<close>

definition song_key :: "Song \<Rightarrow> str \<times> str \<times> cint" where
  "song_key s = (c_str (SongName s), c_str (ArtistName s), SongLength s)"

lemma song_ok_shape: "song_ok s \<Longrightarrow> song_shape s"
  by (simp add: song_ok_def)

lemma Song_default_shape [wf_intro]: "song_shape (Song_default junk)"
  by (simp add: Song_default_def song_of_image_shape)

lemma field_copy:
  assumes "length d = 64" and "length x = 64" and "terminated x"
  shows "\<exists>y. strncpy_s d x 64 = Inr y \<and> length y = 64 \<and> terminated y \<and> c_str y = c_str x"
  using assms length_c_str_less [of x] c_str_no_nul [of x] by (simp add: strncpy_s_terminated)

lemma Song_copy_ok:
  assumes "song_ok s"
  shows "\<exists>t. Song_copy junk s = Inr t \<and> song_ok t \<and> song_key t = song_key s"
proof -
  have d: "length (SongName (Song_default junk)) = 64" "length (ArtistName (Song_default junk)) = 64"
    using Song_default_shape [of junk] by (simp_all add: song_shape_def)
  have s: "length (SongName s) = 64" "terminated (SongName s)"
      "length (ArtistName s) = 64" "terminated (ArtistName s)"
    using assms by (simp_all add: song_ok_def song_shape_def)
  obtain sn where "strncpy_s (SongName (Song_default junk)) (SongName s) 64 = Inr sn"
      "length sn = 64" "terminated sn" "c_str sn = c_str (SongName s)"
    using field_copy [OF d(1) s(1,2)] by blast
  moreover obtain an where "strncpy_s (ArtistName (Song_default junk)) (ArtistName s) 64 = Inr an"
      "length an = 64" "terminated an" "c_str an = c_str (ArtistName s)"
    using field_copy [OF d(2) s(3,4)] by blast
  ultimately show ?thesis
    by (simp add: Song_copy_def song_ok_def song_shape_def song_key_def)
qed

lemma Song_copy_unterminated:
  assumes "song_shape s" and "\<not> song_ok s"
  shows "Song_copy junk s = Inl InvalidParameter"
proof -
  have d: "length (SongName (Song_default junk)) = 64" "length (ArtistName (Song_default junk)) = 64"
    using Song_default_shape [of junk] by (simp_all add: song_shape_def)
  have s: "length (SongName s) = 64" "length (ArtistName s) = 64"
    using assms by (simp_all add: song_shape_def)
  show ?thesis
  proof (cases "terminated (SongName s)")
    case True
    then have "\<not> terminated (ArtistName s)" using assms by (simp add: song_ok_def)
    then show ?thesis
      using field_copy [OF d(1) s(1) True] strncpy_s_unterminated [of "ArtistName s" 64] s d
      by (auto simp: Song_copy_def)
  next
    case False
    then show ?thesis using s d by (simp add: Song_copy_def strncpy_s_unterminated)
  qed
qed

lemma Song_eq_ok:
  "song_ok a \<Longrightarrow> song_ok b \<Longrightarrow> Song_eq a b = Inr (song_key a = song_key b)"
  by (simp add: Song_eq_def song_ok_def strcmp_eq_terminated song_key_def)

section \<open>Properties\<close>

text \<open>
  Copying a song succeeds exactly when both of its texts are terminated, and then gives a song
  that compares equal to it and is terminated again; copying any other memory image of a song
  ends the process in the invalid parameter handler, whatever the uninitialised storage holds.
\<close>

theorem song_copy_outcome:
  assumes "song_shape s"
  shows "if terminated (SongName s) \<and> terminated (ArtistName s)
    then \<exists>t. Song_copy junk s = Inr t \<and> song_ok t \<and> Song_eq t s = Inr True \<and> Song_eq s t = Inr True
    else Song_copy junk s = Inl InvalidParameter"
proof (cases "song_ok s")
  case True
  then show ?thesis using Song_copy_ok [OF True, of junk] Song_eq_ok
    by (auto simp: song_ok_def)
next
  case False
  then show ?thesis using Song_copy_unterminated [OF assms False] assms
    by (auto simp: song_ok_def)
qed

theorem song_copy_outcome_witness:
  "Song_copy (\<lambda>_. 7) \<lparr> SongName = replicate 64 65, ArtistName = replicate 64 0, SongLength = 3 \<rparr>
     = Inl InvalidParameter"
  using song_copy_outcome [of "\<lparr> SongName = replicate 64 65, ArtistName = replicate 64 0, SongLength = 3 \<rparr>"]
  by (simp add: song_shape_def terminated_def)

text \<open>
  The constructor from strings accepts one byte more than fits: names of at most 63 bytes give
  a terminated song with exactly these texts, a name of 64 bytes passes the length test and ends
  in the invalid parameter handler, a longer one in \<open>std::terminate\<close>.
\<close>

theorem song_ctor_limits:
  assumes "0 \<notin> set song" and "0 \<notin> set artist"
  shows "if length song > 64 \<or> length artist > 64 then Song_ctor junk song artist len = Inl Terminate
    else if length song = 64 \<or> length artist = 64 then Song_ctor junk song artist len = Inl InvalidParameter
    else \<exists>s. Song_ctor junk song artist len = Inr s \<and> song_ok s \<and> song_key s = (song, artist, len)"
proof -
  have d: "length (SongName (Song_default junk)) = 64" "length (ArtistName (Song_default junk)) = 64"
    using Song_default_shape [of junk] by (simp_all add: song_shape_def)
  show ?thesis
  proof (cases "length song > 64 \<or> length artist > 64")
    case True
    then show ?thesis by (auto simp: Song_ctor_def)
  next
    case small: False
    then show ?thesis using assms d
      by (auto simp: Song_ctor_def Let_def strncpy_s_def c_str_id song_ok_def song_shape_def song_key_def)
  qed
qed

theorem song_ctor_limits_witness:
  "Song_ctor (\<lambda>_. 1) (replicate 64 65) [66] 9 = Inl InvalidParameter"
  using song_ctor_limits [of "replicate 64 65" "[66]" "\<lambda>_. 1" 9] by simp

end
