(* ===== verification/WavFiles.thy ===== *)
theory WavFiles
  imports Prelude
begin

text \<open>
  Server/WavFilePackager.h, Server/WavFilePackager.cpp and the interface Server/FilePackager.h:
  the input file stream as far as the packager uses it, the WAV header and its parser, and the
  packager that hands out the header and then the data in chunks. The locale \<open>file_packager\<close> is
  the contract of the interface.
\<close>

section \<open>Input file streams\<close>

text \<open>
  A file system is a map from paths to file contents. A stream that could not be opened, or that
  came to the end of its file inside a read, is not good any more and reads nothing.
\<close>

type_synonym filesystem = "str \<Rightarrow> byte list option"

record ifstream =
  if_content :: "byte list"
  if_pos :: nat
  if_open :: bool
  if_good :: bool

definition ifstream_open :: "filesystem \<Rightarrow> str \<Rightarrow> ifstream" where
  "ifstream_open fs path =
     (case fs path of
        None \<Rightarrow> \<lparr> if_content = [], if_pos = 0, if_open = False, if_good = False \<rparr>
      | Some c \<Rightarrow> \<lparr> if_content = c, if_pos = 0, if_open = True, if_good = True \<rparr>)"

definition ifstream_close :: "ifstream \<Rightarrow> ifstream" where
  "ifstream_close s = s\<lparr>if_content := [], if_pos := 0, if_open := False\<rparr>"

text \<open>
  \<open>read\<close> takes a signed count; a negative one extracts nothing and fails, as does a read that
  meets the end of the file. The result is the bytes extracted, which may be fewer than asked.
\<close>

definition stream_get :: "size_t \<Rightarrow> ifstream \<Rightarrow> byte list \<times> ifstream" where
  "stream_get n s =
     (if \<not> if_good s then ([], s)
      else if sint n < 0 then ([], s\<lparr>if_good := False\<rparr>)
      else let got = take (unat n) (drop (if_pos s) (if_content s)) in
        (got, s\<lparr>if_pos := if_pos s + length got, if_good := (length got = unat n)\<rparr>))"

text \<open>A read into a zeroed field of a structure.\<close>

definition read_field :: "nat \<Rightarrow> ifstream \<Rightarrow> byte list \<times> ifstream" where
  "read_field n s =
     (let (got, s') = stream_get (of_nat n) s in (got @ replicate (n - length got) 0, s'))"

section \<open>The header\<close>

record waveHeader =
  chunk_id :: "byte list"
  chunk_size :: cint
  wh_format :: "byte list"
  subchunk1_id :: "byte list"
  subchunk1_size :: cint
  audio_format :: cword
  num_channels :: cword
  sample_rate :: cint
  byte_rate :: cint
  block_align :: cword
  bits_per_sample :: cword
  subchunk2_id :: "byte list"
  subchunk2_size :: cint

definition sizeof_waveHeader :: nat where
  "sizeof_waveHeader = 4 + 4 + 4 + 4 + 4 + 2 + 2 + 4 + 4 + 2 + 2 + 4 + 4"

lemma sizeof_waveHeader_val [simp]: "sizeof_waveHeader = 44"
  by (simp add: sizeof_waveHeader_def)

definition header_image :: "waveHeader \<Rightarrow> byte list" where
  "header_image h =
     chunk_id h @ le_bytes 4 (chunk_size h) @ wh_format h @ subchunk1_id h
     @ le_bytes 4 (subchunk1_size h) @ le_bytes 2 (audio_format h) @ le_bytes 2 (num_channels h)
     @ le_bytes 4 (sample_rate h) @ le_bytes 4 (byte_rate h) @ le_bytes 2 (block_align h)
     @ le_bytes 2 (bits_per_sample h) @ subchunk2_id h @ le_bytes 4 (subchunk2_size h)"

definition header_of_image :: "byte list \<Rightarrow> waveHeader" where
  "header_of_image m =
     \<lparr> chunk_id = take 4 m, chunk_size = of_le (take 4 (drop 4 m)),
       wh_format = take 4 (drop 8 m), subchunk1_id = take 4 (drop 12 m),
       subchunk1_size = of_le (take 4 (drop 16 m)), audio_format = of_le (take 2 (drop 20 m)),
       num_channels = of_le (take 2 (drop 22 m)), sample_rate = of_le (take 4 (drop 24 m)),
       byte_rate = of_le (take 4 (drop 28 m)), block_align = of_le (take 2 (drop 32 m)),
       bits_per_sample = of_le (take 2 (drop 34 m)), subchunk2_id = take 4 (drop 36 m),
       subchunk2_size = of_le (take 4 (drop 40 m)) \<rparr>"

definition header_shape :: "waveHeader \<Rightarrow> bool" where
  "header_shape h \<longleftrightarrow> length (chunk_id h) = 4 \<and> length (wh_format h) = 4
     \<and> length (subchunk1_id h) = 4 \<and> length (subchunk2_id h) = 4"

interpretation wave_header: layout_codec header_image header_of_image sizeof_waveHeader header_shape
  by unfold_locales (simp_all add: header_image_def header_of_image_def header_shape_def)

definition zero_header :: waveHeader where
  "zero_header = header_of_image (replicate sizeof_waveHeader 0)"

lemma header_of_image_shape [wf_intro]:
  "44 \<le> length m \<Longrightarrow> header_shape (header_of_image m)"
  by (simp add: header_of_image_def header_shape_def)

lemma zero_header_shape [wf_intro]: "header_shape zero_header"
  by (simp add: zero_header_def header_of_image_shape)

definition RIFF :: str where "RIFF = str_lit ''RIFF''"
definition WAVE :: str where "WAVE = str_lit ''WAVE''"

lemma magic [simp]: "length RIFF = 4" "length WAVE = 4" "0 \<notin> set RIFF" "0 \<notin> set WAVE"
  by (simp_all add: RIFF_def WAVE_def str_lit_def)

text \<open>
  The parser reads field after field into a zeroed header. The result is whether the file is a
  WAV file, the header, the size of the data and the stream after the reads.
\<close>

definition processWavFile :: "ifstream \<Rightarrow> (bool \<times> waveHeader \<times> size_t \<times> ifstream) res" where
  "processWavFile file =
     (let (cid, f1) = read_field 4 file in
      res_bind (strncmp_eq cid RIFF 4) (\<lambda>is_riff.
      if is_riff then
        (let (csize, f2) = read_field 4 f1; (fmt, f3) = read_field 4 f2 in
         res_bind (strncmp_eq fmt WAVE 4) (\<lambda>is_wave.
         if is_wave then
           (let (s1id, f4) = read_field 4 f3; (s1size, f5) = read_field 4 f4;
                (afmt, f6) = read_field 2 f5; (chans, f7) = read_field 2 f6;
                (rate, f8) = read_field 4 f7; (brate, f9) = read_field 4 f8;
                (align, f10) = read_field 2 f9; (bits, f11) = read_field 2 f10;
                (s2id, f12) = read_field 4 f11; (s2size, f13) = read_field 4 f12;
                header = \<lparr> chunk_id = cid, chunk_size = of_le csize, wh_format = fmt,
                  subchunk1_id = s1id, subchunk1_size = of_le s1size, audio_format = of_le afmt,
                  num_channels = of_le chans, sample_rate = of_le rate, byte_rate = of_le brate,
                  block_align = of_le align, bits_per_sample = of_le bits,
                  subchunk2_id = s2id, subchunk2_size = of_le s2size \<rparr>
            in Inr (True, header, ucast (subchunk2_size header), f13))
         else Inr (False, zero_header, 0, f3)))
      else Inr (False, zero_header, 0, f1)))"

section \<open>The packager\<close>

record WavFilePackager =
  mHeader :: waveHeader
  mOpenFile :: ifstream
  mTotalSize :: size_t
  mExtracted :: size_t

definition WavFilePackager_new :: WavFilePackager where
  "WavFilePackager_new =
     \<lparr> mHeader = zero_header,
       mOpenFile = \<lparr> if_content = [], if_pos = 0, if_open = False, if_good = True \<rparr>,
       mTotalSize = 0, mExtracted = 0 \<rparr>"

definition isFileOpen :: "WavFilePackager \<Rightarrow> bool" where
  "isFileOpen p = if_open (mOpenFile p)"

definition isFileComplete :: "WavFilePackager \<Rightarrow> bool" where
  "isFileComplete p \<longleftrightarrow> mTotalSize p \<le> mExtracted p"

definition getTotalSize :: "WavFilePackager \<Rightarrow> size_t" where
  "getTotalSize p = mTotalSize p"

definition closeFile :: "WavFilePackager \<Rightarrow> bool \<times> WavFilePackager" where
  "closeFile p =
     (let closed = False in
      (closed, if if_open (mOpenFile p) then p\<lparr>mOpenFile := ifstream_close (mOpenFile p)\<rparr> else p))"

definition openFile_stream :: "ifstream \<Rightarrow> WavFilePackager \<Rightarrow> (bool \<times> WavFilePackager) res" where
  "openFile_stream file p =
     (let p1 = (if if_open (mOpenFile p) then snd (closeFile p) else p);
          p2 = p1\<lparr>mExtracted := 0, mOpenFile := file\<rparr>
      in res_bind (processWavFile (mOpenFile p2)) (\<lambda>(isOpen, h, n, f).
         Inr (isOpen, p2\<lparr>mHeader := h, mTotalSize := n, mOpenFile := f,
                mExtracted := of_nat sizeof_waveHeader\<rparr>)))"

definition openFile :: "filesystem \<Rightarrow> str \<Rightarrow> WavFilePackager \<Rightarrow> (bool \<times> WavFilePackager) res" where
  "openFile fs filePath p = openFile_stream (ifstream_open fs filePath) p"

text \<open>
  The chunk size is computed in \<open>size_t\<close>; the count advances by what was asked for, not by what
  the stream delivered. The caller's buffer is passed as its bytes and returned.
\<close>

definition getNextChunk ::
    "byte list \<Rightarrow> size_t \<Rightarrow> WavFilePackager \<Rightarrow> (size_t \<times> byte list \<times> WavFilePackager) res" where
  "getNextChunk buffer bufferSize p =
     (let calculatedRead =
            (if mTotalSize p < mExtracted p + bufferSize then mTotalSize p - mExtracted p
             else bufferSize);
          (got, f) = stream_get calculatedRead (mOpenFile p)
      in res_bind (mem_write 0 got buffer) (\<lambda>buffer'.
         Inr (calculatedRead, buffer',
              p\<lparr>mOpenFile := f, mExtracted := mExtracted p + calculatedRead\<rparr>)))"

definition getHeader ::
    "byte list \<Rightarrow> size_t \<Rightarrow> WavFilePackager \<Rightarrow> (size_t \<times> byte list \<times> WavFilePackager) res" where
  "getHeader buffer bufferSize p =
     (let n = (if of_nat sizeof_waveHeader \<le> bufferSize then of_nat sizeof_waveHeader else bufferSize);
          (got, f) = stream_get n (mOpenFile p)
      in res_bind (mem_write 0 got buffer) (\<lambda>b1.
         res_bind (mem_read 0 (unat n) (header_image (mHeader p))) (\<lambda>hb.
         res_bind (mem_write 0 hb b1) (\<lambda>b2.
         Inr (n, b2, p\<lparr>mOpenFile := f\<rparr>)))))"

text \<open>
  The interface FilePackager, as the table of its pure virtual functions over the state \<open>'p\<close> of an
  implementation, and the table of the one implementation there is.
\<close>

record 'p FilePackager =
  fp_openFile :: "filesystem \<Rightarrow> str \<Rightarrow> 'p \<Rightarrow> (bool \<times> 'p) res"
  fp_openFile_stream :: "ifstream \<Rightarrow> 'p \<Rightarrow> (bool \<times> 'p) res"
  fp_isFileOpen :: "'p \<Rightarrow> bool"
  fp_isFileComplete :: "'p \<Rightarrow> bool"
  fp_getTotalSize :: "'p \<Rightarrow> size_t"
  fp_closeFile :: "'p \<Rightarrow> bool \<times> 'p"
  fp_getNextChunk :: "byte list \<Rightarrow> size_t \<Rightarrow> 'p \<Rightarrow> (size_t \<times> byte list \<times> 'p) res"
  fp_getHeader :: "byte list \<Rightarrow> size_t \<Rightarrow> 'p \<Rightarrow> (size_t \<times> byte list \<times> 'p) res"

definition WavFilePackager_virtuals :: "WavFilePackager FilePackager" where
  "WavFilePackager_virtuals =
     \<lparr> fp_openFile = openFile,
       fp_openFile_stream = openFile_stream,
       fp_isFileOpen = isFileOpen,
       fp_isFileComplete = isFileComplete,
       fp_getTotalSize = getTotalSize,
       fp_closeFile = closeFile,
       fp_getNextChunk = getNextChunk,
       fp_getHeader = getHeader \<rparr>"

section \<open>Reading in a file that is long enough\<close>

text \<open>An open stream at a position of a file, with nothing failed so far.\<close>

definition stream_at :: "byte list \<Rightarrow> nat \<Rightarrow> ifstream" where
  "stream_at c k = \<lparr> if_content = c, if_pos = k, if_open = True, if_good = True \<rparr>"

lemma stream_at_simps [simp]:
  "if_content (stream_at c k) = c" "if_pos (stream_at c k) = k"
  "if_open (stream_at c k)" "if_good (stream_at c k)"
  by (simp_all add: stream_at_def)

lemma stream_get_not_good: "\<not> if_good s \<Longrightarrow> stream_get n s = ([], s)"
  by (simp add: stream_get_def)

lemma sint64_small: "unat (n :: 64 word) < 4294967296 \<Longrightarrow> 0 \<le> sint n"
proof -
  assume "unat n < 4294967296"
  then have u: "uint n < 4294967296" using uint_nat [of n] by linarith
  have "sint n = signed_take_bit 63 (uint n)" by (simp add: sint_uint)
  also have "\<dots> = uint n" using u uint_ge_0 [of n] by (intro signed_take_bit_int_eq_self) (simp_all add: order_trans [of _ 0])
  finally show ?thesis by simp
qed

lemma stream_get_at:
  assumes "unat n < 4294967296" and "k + unat n \<le> length c"
  shows "stream_get n (stream_at c k) = (take (unat n) (drop k c), stream_at c (k + unat n))"
  using assms sint64_small [OF assms(1)] by (simp add: stream_get_def stream_at_def Let_def)

lemma unat_of_nat64: "n < 18446744073709551616 \<Longrightarrow> unat (of_nat n :: 64 word) = n"
  by (simp add: unat_of_nat)

lemma read_field_at:
  assumes "n < 4294967296" and "k + n \<le> length c"
  shows "read_field n (stream_at c k) = (take n (drop k c), stream_at c (k + n))"
  using assms stream_get_at [of "of_nat n" k c] by (simp add: read_field_def unat_of_nat64)

text \<open>A file is recognised by its first twelve bytes.\<close>

definition wav_magic :: "byte list \<Rightarrow> bool" where
  "wav_magic c \<longleftrightarrow> take 4 c = RIFF \<and> take 4 (drop 8 c) = WAVE"

lemma processWavFile_long:
  assumes "44 \<le> length c"
  shows "processWavFile (stream_at c 0) =
    (if wav_magic c
     then Inr (True, header_of_image (take 44 c), ucast (subchunk2_size (header_of_image (take 44 c))),
            stream_at c 44)
     else Inr (False, zero_header, 0, stream_at c (if take 4 c = RIFF then 12 else 4)))"
  using assms
  by (simp add: processWavFile_def read_field_at strncmp_eq_text wav_magic_def header_of_image_def
      min_def take_drop)

text \<open>Whatever the file, parsing returns; a file that is not a WAV file gives a zero header.\<close>

lemma read_field_length: "length (fst (read_field n s)) \<ge> n"
  by (simp add: read_field_def case_prod_beta Let_def)

lemma stream_get_length: "length (fst (stream_get n s)) \<le> unat n"
  by (simp add: stream_get_def Let_def)

lemma read_field_length4 [simp]: "length (fst (read_field 4 s)) = 4"
  using stream_get_length [of 4 s] by (simp add: read_field_def case_prod_beta Let_def)

lemma read_field_open [simp]: "if_open (snd (read_field n s)) = if_open s"
  by (simp add: read_field_def stream_get_def case_prod_beta Let_def)

lemma processWavFile_stream:
  assumes "processWavFile s = Inr (ok, h, n, f)"
  shows "if_open f = if_open s" and "ok \<Longrightarrow> if_good s"
proof -
  have cmp: "strncmp_eq (fst (read_field 4 t)) RIFF 4 = Inr (fst (read_field 4 t) = RIFF)"
      "strncmp_eq (fst (read_field 4 t)) WAVE 4 = Inr (fst (read_field 4 t) = WAVE)" for t
    by (simp_all add: strncmp_eq_text)
  show "if_open f = if_open s"
    using assms by (auto simp: processWavFile_def case_prod_beta Let_def cmp split: if_splits)
  show "if_good s" if "ok"
  proof (rule ccontr)
    assume "\<not> if_good s"
    then have "fst (read_field 4 s) = replicate 4 0"
      by (simp add: read_field_def stream_get_not_good)
    then have "0 \<in> set (fst (read_field 4 s))" by simp
    then have "fst (read_field 4 s) \<noteq> RIFF" using magic(3) by metis
    then show False using assms that
      by (auto simp: processWavFile_def case_prod_beta Let_def cmp)
  qed
qed

lemma processWavFile_total:
  "\<exists>ok h n f. processWavFile s = Inr (ok, h, n, f) \<and> header_shape h
     \<and> (ok \<longrightarrow> n = ucast (subchunk2_size h)) \<and> (\<not> ok \<longrightarrow> h = zero_header \<and> n = 0)"
proof -
  have cmp: "strncmp_eq (fst (read_field 4 t)) RIFF 4 = Inr (fst (read_field 4 t) = RIFF)"
      "strncmp_eq (fst (read_field 4 t)) WAVE 4 = Inr (fst (read_field 4 t) = WAVE)" for t
    by (simp_all add: strncmp_eq_text)
  have "case processWavFile s of Inl _ \<Rightarrow> False
      | Inr (ok, h, n, f) \<Rightarrow> header_shape h
          \<and> (ok \<longrightarrow> n = ucast (subchunk2_size h)) \<and> (\<not> ok \<longrightarrow> h = zero_header \<and> n = 0)"
    by (simp add: processWavFile_def case_prod_beta Let_def cmp zero_header_shape)
      (simp add: header_shape_def)
  then show ?thesis by (auto split: sum.splits prod.splits)
qed

section \<open>The contract of a packager\<close>

text \<open>
  The interface FilePackager promises to fill the caller's buffer with the next part of the file
  until the file is complete. Abstractly a packager has a number of bytes still to hand out
  (\<open>todo\<close>) and the bytes its stream can still deliver (\<open>avail\<close>); where the file is shorter than
  the count says, the rest of the buffer keeps what it held.
\<close>

locale file_packager =
  fixes complete :: "'p \<Rightarrow> bool"
    and next_chunk :: "byte list \<Rightarrow> size_t \<Rightarrow> 'p \<Rightarrow> (size_t \<times> byte list \<times> 'p) res"
    and todo :: "'p \<Rightarrow> nat"
    and avail :: "'p \<Rightarrow> byte list"
    and ready :: "'p \<Rightarrow> bool"
  assumes complete_iff: "ready p \<Longrightarrow> complete p \<longleftrightarrow> todo p = 0"
    and chunk: "ready p \<Longrightarrow> \<not> complete p \<Longrightarrow> 0 < length buf \<Longrightarrow> length buf < 4294967296 \<Longrightarrow>
      k = min (length buf) (todo p) \<Longrightarrow>
      \<exists>p'. next_chunk buf (of_nat (length buf)) p =
            Inr (of_nat k, take k (avail p) @ drop (length (take k (avail p))) buf, p')
        \<and> ready p' \<and> todo p' = todo p - k \<and> avail p' = drop k (avail p)"
begin

text \<open>Every chunk makes progress, so a loop until completion ends.\<close>

lemma chunk_progress:
  assumes "ready p" and "\<not> complete p" and "0 < length buf" and "length buf < 4294967296"
    and "next_chunk buf (of_nat (length buf)) p = Inr (n, buf', p')"
  shows "ready p'" and "todo p' < todo p"
proof -
  obtain q where q: "next_chunk buf (of_nat (length buf)) p =
        Inr (of_nat (min (length buf) (todo p)), take (min (length buf) (todo p)) (avail p)
          @ drop (length (take (min (length buf) (todo p)) (avail p))) buf, q)"
      "ready q" "todo q = todo p - min (length buf) (todo p)"
    using chunk [OF assms(1-4) refl] by blast
  have "todo p \<noteq> 0" using complete_iff [OF assms(1)] assms(2) by simp
  then show "ready p'" "todo p' < todo p" using q assms(3,5) by auto
qed

text \<open>
  The payload of a chunk, the first \<open>k\<close> bytes of the returned buffer, is file data as long as the
  file lasts and what the buffer held before from then on.
\<close>

lemma chunk_payload:
  assumes "ready p" and "\<not> complete p" and "0 < length buf" and "length buf < 4294967296"
    and "next_chunk buf (of_nat (length buf)) p = Inr (n, buf', p')"
  shows "unat n = min (length buf) (todo p)"
    and "take (unat n) buf' = take (unat n) (avail p) @ drop (length (avail p)) (take (unat n) buf)"
    and "avail p' = drop (unat n) (avail p)" and "todo p' = todo p - unat n"
    and "length buf' = length buf"
proof -
  let ?k = "min (length buf) (todo p)"
  obtain q where q: "next_chunk buf (of_nat (length buf)) p =
        Inr (of_nat ?k, take ?k (avail p) @ drop (length (take ?k (avail p))) buf, q)"
      "todo q = todo p - ?k" "avail q = drop ?k (avail p)"
    using chunk [OF assms(1-4) refl] by blast
  have k: "?k < 18446744073709551616" "?k \<le> length buf" using assms(4) by simp_all
  show n: "unat n = ?k" using q(1) assms(5) k by (simp add: unat_of_nat64)
  have b: "buf' = take ?k (avail p) @ drop (length (take ?k (avail p))) buf" and p': "p' = q"
    using q(1) assms(5) by simp_all
  show "avail p' = drop (unat n) (avail p)" "todo p' = todo p - unat n"
    using n p' q(2,3) by simp_all
  show "length buf' = length buf" using b k by simp
  show "take (unat n) buf' = take (unat n) (avail p) @ drop (length (avail p)) (take (unat n) buf)"
    unfolding n b by (cases "?k \<le> length (avail p)") (simp_all add: take_drop min_def)
qed

end

definition stream_avail :: "ifstream \<Rightarrow> byte list" where
  "stream_avail s = (if if_good s then drop (if_pos s) (if_content s) else [])"

definition packager_todo :: "WavFilePackager \<Rightarrow> nat" where
  "packager_todo p = unat (mTotalSize p) - unat (mExtracted p)"

definition packager_avail :: "WavFilePackager \<Rightarrow> byte list" where
  "packager_avail p = stream_avail (mOpenFile p)"

definition packager_ready :: "WavFilePackager \<Rightarrow> bool" where
  "packager_ready p \<longleftrightarrow> unat (mTotalSize p) < 4294967296 \<and> unat (mExtracted p) < 4294967296"

lemma stream_get_avail:
  assumes "unat n < 4294967296"
  shows "fst (stream_get n s) = take (unat n) (stream_avail s)"
    and "stream_avail (snd (stream_get n s)) = drop (unat n) (stream_avail s)"
  using sint64_small [OF assms]
  by (auto simp: stream_get_def stream_avail_def Let_def add.commute)

interpretation wav: file_packager isFileComplete getNextChunk packager_todo packager_avail
    packager_ready
proof unfold_locales
  fix p assume "packager_ready p"
  show "isFileComplete p \<longleftrightarrow> packager_todo p = 0"
    by (simp add: isFileComplete_def packager_todo_def word_le_nat_alt)
next
  fix p and buf :: "byte list" and k
  assume ready: "packager_ready p" and open': "\<not> isFileComplete p"
    and buf: "0 < length buf" "length buf < 4294967296" and k: "k = min (length buf) (packager_todo p)"
  let ?n = "of_nat (length buf) :: size_t" and ?t = "mTotalSize p" and ?x = "mExtracted p"
  have lt: "unat ?x < unat ?t" using open' by (simp add: isFileComplete_def word_le_nat_alt)
  have r: "unat ?t < 4294967296" "unat ?x < 4294967296"
    using ready by (simp_all add: packager_ready_def)
  have sum: "unat (?x + ?n) = unat ?x + length buf"
    using r buf by (simp add: unat_word_ariths unat_of_nat64)
  have diff: "?t - ?x = of_nat (packager_todo p)"
    using lt by (simp add: packager_todo_def)
  have calc: "(if ?t < ?x + ?n then ?t - ?x else ?n) = of_nat k"
  proof (cases "length buf \<le> packager_todo p")
    case True
    then have "\<not> ?t < ?x + ?n"
      unfolding word_less_nat_alt sum packager_todo_def using lt by linarith
    then show ?thesis using True k by (simp add: min_def)
  next
    case False
    then have "?t < ?x + ?n"
      unfolding word_less_nat_alt sum packager_todo_def using lt by linarith
    then show ?thesis using False k diff by (simp add: min_def)
  qed
  have kb: "k < 4294967296" "k \<le> packager_todo p" "k \<le> length buf" using buf k by simp_all
  then have uk: "unat (of_nat k :: size_t) = k" by (simp add: unat_of_nat64)
  let ?got = "take k (packager_avail p)"
  obtain f where got: "stream_get (of_nat k) (mOpenFile p) = (?got, f)"
    using stream_get_avail(1) [of "of_nat k" "mOpenFile p"] uk kb(1)
    by (cases "stream_get (of_nat k) (mOpenFile p)") (simp add: packager_avail_def)
  have x': "unat (?x + of_nat k) = unat ?x + k"
    using r kb by (simp add: unat_word_ariths uk)
  show "\<exists>p'. getNextChunk buf ?n p = Inr (of_nat k, ?got @ drop (length ?got) buf, p')
      \<and> packager_ready p' \<and> packager_todo p' = packager_todo p - k \<and> packager_avail p' = drop k (packager_avail p)"
  proof (intro exI conjI)
    let ?p = "p\<lparr>mOpenFile := f, mExtracted := ?x + of_nat k\<rparr>"
    show "getNextChunk buf ?n p = Inr (of_nat k, ?got @ drop (length ?got) buf, ?p)"
      unfolding getNextChunk_def Let_def calc got prod.case using kb(3) by simp
    have p': "mTotalSize ?p = ?t" "mExtracted ?p = ?x + of_nat k" by simp_all
    have "k \<le> unat ?t - unat ?x" using kb(2) by (simp only: packager_todo_def)
    then show "packager_ready ?p" unfolding packager_ready_def p' x' using r lt by linarith
    show "packager_todo ?p = packager_todo p - k"
      unfolding packager_todo_def p' x' by (simp only: diff_diff_left)
    show "packager_avail ?p = drop k (packager_avail p)"
      using stream_get_avail(2) [of "of_nat k" "mOpenFile p"] uk kb(1) got
      by (simp add: packager_avail_def)
  qed
qed

text \<open>A caller that only has the interface gets the same contract through its virtual functions.\<close>

interpretation virtual: file_packager "fp_isFileComplete WavFilePackager_virtuals" "fp_getNextChunk WavFilePackager_virtuals"
    packager_todo packager_avail packager_ready
  using wav.file_packager_axioms by (simp add: WavFilePackager_virtuals_def)

section \<open>Opening a file and fetching its header\<close>

lemma openFile_total:
  "\<exists>ok p'. openFile fs path p = Inr (ok, p') \<and> header_shape (mHeader p') \<and> mExtracted p' = 44
     \<and> packager_ready p' \<and> (\<not> ok \<longrightarrow> mHeader p' = zero_header \<and> isFileComplete p')
     \<and> (ok \<longrightarrow> mTotalSize p' = ucast (subchunk2_size (mHeader p')))"
proof -
  obtain ok h n f where "processWavFile (ifstream_open fs path) = Inr (ok, h, n, f)" "header_shape h"
      "ok \<longrightarrow> n = ucast (subchunk2_size h)" "\<not> ok \<longrightarrow> h = zero_header \<and> n = 0"
    using processWavFile_total by blast
  moreover have "unat (ucast (x :: cint) :: size_t) < 4294967296" for x
    using unat32_less [of x] by (simp add: unat_ucast64)
  ultimately show ?thesis
    by (cases ok) (auto simp: openFile_def openFile_stream_def Let_def packager_ready_def isFileComplete_def)
qed

text \<open>A file that is recognised is open, and whether a file is open only depends on its existence.\<close>

lemma openFile_opens:
  assumes "openFile fs path p = Inr (ok, p')"
  shows "isFileOpen p' \<longleftrightarrow> fs path \<noteq> None" and "ok \<Longrightarrow> isFileOpen p'"
proof -
  obtain h n f where w: "processWavFile (ifstream_open fs path) = Inr (ok, h, n, f)"
      and p': "mOpenFile p' = f"
    using assms by (auto simp: openFile_def openFile_stream_def Let_def res_bind_Inr_iff)
  note f = processWavFile_stream [OF w]
  show "isFileOpen p' \<longleftrightarrow> fs path \<noteq> None"
    using f(1) p' by (auto simp: isFileOpen_def ifstream_open_def split: option.splits)
  show "isFileOpen p'" if "ok"
    using f that p' by (auto simp: isFileOpen_def ifstream_open_def split: option.splits)
qed

lemma openFile_long:
  assumes "fs path = Some c" and "44 \<le> length c" and "wav_magic c"
  shows "\<exists>p'. openFile fs path p = Inr (True, p') \<and> mHeader p' = header_of_image (take 44 c)
     \<and> mOpenFile p' = stream_at c 44 \<and> mExtracted p' = 44
     \<and> mTotalSize p' = ucast (subchunk2_size (header_of_image (take 44 c)))"
proof -
  have "ifstream_open fs path = stream_at c 0"
    using assms(1) by (simp add: ifstream_open_def stream_at_def)
  then show ?thesis
    using processWavFile_long [OF assms(2)] assms(3)
    by (simp add: openFile_def openFile_stream_def Let_def)
qed

lemma getHeader_full:
  assumes "header_shape (mHeader p)" and "length buf = 44"
  shows "getHeader buf 44 p =
    Inr (44, header_image (mHeader p), p\<lparr>mOpenFile := snd (stream_get 44 (mOpenFile p))\<rparr>)"
proof -
  have hl: "length (header_image (mHeader p)) = 44"
    using wave_header.enc_length [OF assms(1)] by simp
  have gl: "length (fst (stream_get 44 (mOpenFile p))) \<le> 44"
    using stream_get_length [of 44 "mOpenFile p"] by simp
  show ?thesis
    using hl gl assms(2) by (simp add: getHeader_def case_prod_beta Let_def)
qed

section \<open>Properties\<close>

text \<open>
  C28. Header round trip. For a file that starts with the image of a WAV header, opening succeeds
  and the packager holds that header and its data size; \<open>getHeader\<close> then delivers exactly the 44
  header bytes of the file. It also reads 44 bytes from the stream, so afterwards the stream
  stands behind the first 44 bytes of the sound data, which nobody will see.
\<close>

theorem wav_header_roundtrip:
  assumes "header_shape h" and "chunk_id h = RIFF" and "wh_format h = WAVE"
    and "fs path = Some (header_image h @ data)" and "44 \<le> length data" and "length buf = 44"
  shows "\<exists>p1 p2. openFile fs path p = Inr (True, p1) \<and> mHeader p1 = h
     \<and> getTotalSize p1 = ucast (subchunk2_size h)
     \<and> getHeader buf 44 p1 = Inr (44, header_image h, p2)
     \<and> packager_avail p1 = data \<and> packager_avail p2 = drop 44 data"
proof -
  let ?c = "header_image h @ data"
  have len: "length (header_image h) = 44" using wave_header.enc_length [OF assms(1)] by simp
  have dec: "header_of_image (take 44 ?c) = h"
    using wave_header.dec_prefix [OF assms(1), of data] by simp
  have magic: "wav_magic ?c"
    using assms(1-3) by (simp add: wav_magic_def header_image_def header_shape_def)
  obtain p1 where p1: "openFile fs path p = Inr (True, p1)" "mHeader p1 = h"
      "mOpenFile p1 = stream_at ?c 44" "mTotalSize p1 = ucast (subchunk2_size h)"
    using openFile_long [of fs path ?c p] assms(4) len magic dec by auto
  have "snd (stream_get 44 (stream_at ?c 44)) = stream_at ?c 88"
    using stream_get_at [of 44 44 ?c] len assms(5) by simp
  then show ?thesis
    using p1 getHeader_full [of p1 buf] assms(1,6) len
    by (simp add: packager_avail_def stream_avail_def getTotalSize_def)
qed

definition sample_header :: waveHeader where
  "sample_header = header_of_image (RIFF @ replicate 4 1 @ WAVE @ replicate 28 0 @ le_bytes 4 (100 :: cint))"

lemma sample_header_simps:
  "header_shape sample_header" "chunk_id sample_header = RIFF" "wh_format sample_header = WAVE"
  "subchunk2_size sample_header = 100"
  by (simp_all add: sample_header_def header_of_image_def header_shape_def)

theorem wav_header_roundtrip_witness:
  "\<exists>p1 p2. openFile [[65] \<mapsto> header_image sample_header @ replicate 100 9] [65] WavFilePackager_new
        = Inr (True, p1) \<and> getTotalSize p1 = 100
     \<and> getHeader (replicate 44 0) 44 p1 = Inr (44, header_image sample_header, p2)
     \<and> packager_avail p2 = replicate 56 9"
  using wav_header_roundtrip [of sample_header "[[65] \<mapsto> header_image sample_header @ replicate 100 9]"
      "[65]" "replicate 100 9" "replicate 44 0" WavFilePackager_new]
  by (auto simp: sample_header_simps)

text \<open>
  Chunks. While the file is not complete, asking for a chunk with a non-empty buffer succeeds
  and stays inside the buffer: it reports the smaller of the buffer size and the bytes still
  counted, and that many bytes of the returned buffer are the next bytes of the file, followed,
  where the file ends before its header says, by whatever the buffer held before.
\<close>

theorem next_chunk_behaviour:
  assumes "packager_ready p" and "\<not> isFileComplete p" and "0 < length buf" and "length buf < 4294967296"
  shows "\<exists>n buf' p'. getNextChunk buf (of_nat (length buf)) p = Inr (n, buf', p')
     \<and> unat n = min (length buf) (packager_todo p) \<and> 0 < unat n
     \<and> take (unat n) buf' = take (unat n) (packager_avail p) @ drop (length (packager_avail p)) (take (unat n) buf)
     \<and> packager_todo p' = packager_todo p - unat n \<and> packager_avail p' = drop (unat n) (packager_avail p)"
proof -
  obtain n buf' p' where c: "getNextChunk buf (of_nat (length buf)) p = Inr (n, buf', p')"
    using wav.chunk [OF assms refl] by auto
  note p = wav.chunk_payload [OF assms c]
  have "packager_todo p \<noteq> 0" using assms(2) wav.complete_iff [OF assms(1)] by simp
  then have "0 < unat n" using p(1) assms(3) by simp
  then show ?thesis using c p by blast
qed

theorem next_chunk_behaviour_witness:
  "\<exists>n buf' p'. getNextChunk [1, 2, 3, 4] 4
      \<lparr> mHeader = zero_header, mOpenFile = stream_at [7, 8] 0, mTotalSize = 47, mExtracted = 44 \<rparr>
      = Inr (n, buf', p') \<and> unat n = 3 \<and> take (unat n) buf' = [7, 8, 3]"
  using next_chunk_behaviour [of
      "\<lparr> mHeader = zero_header, mOpenFile = stream_at [7, 8] 0, mTotalSize = 47, mExtracted = 44 \<rparr>"
      "[1, 2, 3, 4]"]
  by (auto simp: packager_ready_def isFileComplete_def packager_todo_def packager_avail_def
      stream_avail_def)

end
