(* ===== verification/Buffers.thy ===== *)
theory Buffers
  imports Prelude
begin

text \<open>
  The free store behind \<open>new[]\<close> and \<open>delete[]\<close> and the \<open>Buffer\<close> class of Server/Buffer.h and
  Server/Buffer.cpp, which owns one block of it. The store maps addresses to blocks; loading
  from, storing to or releasing an address that holds no block is a fault. The locale
  \<open>block_store\<close> is the contract of the store, and what its clients (buffers, the file list
  packets, the send task) need of it is proved there.
\<close>

section \<open>The free store\<close>

type_synonym addr = nat    \<comment> \<open>0 is the null pointer\<close>

record heap =
  hp_next :: addr
  hp_cells :: "addr \<Rightarrow> byte list option"

definition heap_wf :: "heap \<Rightarrow> bool" where
  "heap_wf h \<longleftrightarrow> 0 < hp_next h \<and> (\<forall>a. hp_next h \<le> a \<longrightarrow> hp_cells h a = None) \<and> hp_cells h 0 = None"

definition heap_empty :: heap where
  "heap_empty = \<lparr> hp_next = 1, hp_cells = Map.empty \<rparr>"

definition heap_new :: "nat \<Rightarrow> (nat \<Rightarrow> byte) \<Rightarrow> heap \<Rightarrow> addr \<times> heap" where
  "heap_new n junk h =
     (hp_next h, \<lparr> hp_next = Suc (hp_next h), hp_cells = (hp_cells h)(hp_next h \<mapsto> new_bytes n junk) \<rparr>)"

definition heap_delete :: "addr \<Rightarrow> heap \<Rightarrow> heap res" where
  "heap_delete a h =
     (if a = 0 then Inr h
      else case hp_cells h a of
        None \<Rightarrow> Inl UseAfterFree
      | Some _ \<Rightarrow> Inr (h\<lparr>hp_cells := (hp_cells h)(a := None)\<rparr>))"

definition heap_load :: "addr \<Rightarrow> nat \<Rightarrow> heap \<Rightarrow> byte list res" where
  "heap_load a n h =
     (case hp_cells h a of None \<Rightarrow> Inl UseAfterFree | Some m \<Rightarrow> mem_read 0 n m)"

definition heap_store :: "addr \<Rightarrow> nat \<Rightarrow> byte list \<Rightarrow> heap \<Rightarrow> heap res" where
  "heap_store a off bs h =
     (case hp_cells h a of
        None \<Rightarrow> Inl UseAfterFree
      | Some m \<Rightarrow> res_bind (mem_write off bs m) (\<lambda>m'. Inr (h\<lparr>hp_cells := (hp_cells h)(a \<mapsto> m')\<rparr>)))"

section \<open>The contract of the store\<close>

locale block_store =
  fixes alloc :: "nat \<Rightarrow> (nat \<Rightarrow> byte) \<Rightarrow> 'h \<Rightarrow> addr \<times> 'h"
    and release :: "addr \<Rightarrow> 'h \<Rightarrow> 'h res"
    and put :: "addr \<Rightarrow> nat \<Rightarrow> byte list \<Rightarrow> 'h \<Rightarrow> 'h res"
    and blocks :: "'h \<Rightarrow> addr \<Rightarrow> byte list option"
    and ok :: "'h \<Rightarrow> bool"
  assumes alloc_fresh: "ok h \<Longrightarrow> alloc n junk h = (a, h') \<Longrightarrow> a \<noteq> 0 \<and> blocks h a = None"
    and alloc_blocks: "ok h \<Longrightarrow> alloc n junk h = (a, h') \<Longrightarrow>
          blocks h' = (blocks h)(a \<mapsto> new_bytes n junk) \<and> ok h'"
    and put_ok: "ok h \<Longrightarrow> blocks h a = Some m \<Longrightarrow> off + length bs \<le> length m \<Longrightarrow>
          \<exists>h' m'. put a off bs h = Inr h' \<and> mem_write off bs m = Inr m'
            \<and> blocks h' = (blocks h)(a \<mapsto> m') \<and> ok h'"
    and release_ok: "ok h \<Longrightarrow> blocks h a = Some m \<Longrightarrow> a \<noteq> 0 \<Longrightarrow>
          \<exists>h'. release a h = Inr h' \<and> blocks h' = (blocks h)(a := None) \<and> ok h'"
    and release_gone: "ok h \<Longrightarrow> blocks h a = None \<Longrightarrow> a \<noteq> 0 \<Longrightarrow> release a h = Inl UseAfterFree"
begin

text \<open>A block that is allocated, filled in bounds and released leaves the store as it was.\<close>

lemma scoped_block:
  assumes ok: "ok h" and new: "alloc n junk h = (a, h1)" and len: "off + length bs \<le> n"
  shows "\<exists>h2 h3. put a off bs h1 = Inr h2 \<and> release a h2 = Inr h3 \<and> blocks h3 = blocks h \<and> ok h3"
proof -
  have a: "a \<noteq> 0" "blocks h a = None" using alloc_fresh [OF ok new] by auto
  have h1: "blocks h1 = (blocks h)(a \<mapsto> new_bytes n junk)" "ok h1"
    using alloc_blocks [OF ok new] by auto
  obtain h2 m' where h2: "put a off bs h1 = Inr h2" "blocks h2 = (blocks h1)(a \<mapsto> m')" "ok h2"
    using put_ok [OF h1(2), of a "new_bytes n junk" off bs] h1(1) len by auto
  obtain h3 where "release a h2 = Inr h3" "blocks h3 = (blocks h2)(a := None)" "ok h3"
    using release_ok [OF h2(3), of a m'] h2(2) a(1) by auto
  then show ?thesis using h2(1,2) h1(1) a(2) by (auto simp: fun_upd_idem)
qed

lemma release_twice:
  assumes "ok h" and "blocks h a = Some m" and "a \<noteq> 0" and "release a h = Inr h'"
  shows "release a h' = Inl UseAfterFree"
  using release_ok [OF assms(1-3)] assms(4) release_gone [of h' a] assms(3) by auto

lemma release_other:
  assumes "ok h" and "blocks h a = Some m" and "a \<noteq> 0" and "b \<noteq> a" and "release a h = Inr h'"
  shows "blocks h' b = blocks h b"
  using release_ok [OF assms(1-3)] assms(4,5) by auto

end

lemma heap_wf_update:
  assumes "heap_wf h" and "hp_cells h a = Some m"
  shows "heap_wf (h\<lparr>hp_cells := (hp_cells h)(a \<mapsto> m')\<rparr>)"
proof -
  have "\<not> hp_next h \<le> a" using assms by (auto simp: heap_wf_def)
  moreover have "a \<noteq> 0" using assms by (auto simp: heap_wf_def intro!: gr0I)
  ultimately
  show ?thesis using assms by (auto simp: heap_wf_def)
qed

interpretation hp: block_store heap_new heap_delete heap_store hp_cells heap_wf
proof unfold_locales
  fix h n junk a h'
  assume wf: "heap_wf h" and new: "heap_new n junk h = (a, h')"
  show "a \<noteq> 0 \<and> hp_cells h a = None"
    using wf new by (auto simp: heap_new_def heap_wf_def)
  show "hp_cells h' = (hp_cells h)(a \<mapsto> new_bytes n junk) \<and> heap_wf h'"
    using wf new by (auto simp: heap_new_def heap_wf_def)
next
  fix h a off and m bs :: "byte list"
  assume "heap_wf h" "hp_cells h a = Some m" "off + length bs \<le> length m"
  then show "\<exists>h' m'. heap_store a off bs h = Inr h' \<and> mem_write off bs m = Inr m'
      \<and> hp_cells h' = (hp_cells h)(a \<mapsto> m') \<and> heap_wf h'"
    using heap_wf_update [of h a m] by (simp add: heap_store_def)
next
  fix h a and m :: "byte list"
  assume "heap_wf h" "hp_cells h a = Some m" "a \<noteq> 0"
  then show "\<exists>h'. heap_delete a h = Inr h' \<and> hp_cells h' = (hp_cells h)(a := None) \<and> heap_wf h'"
    by (auto simp: heap_delete_def heap_wf_def)
next
  fix h a
  assume "heap_wf h" "hp_cells h a = None" "a \<noteq> 0"
  then show "heap_delete a h = Inl UseAfterFree"
    by (simp add: heap_delete_def)
qed

lemma heap_empty_wf [wf_intro]: "heap_wf heap_empty"
  by (simp add: heap_wf_def heap_empty_def)

lemma heap_load_ok:
  "hp_cells h a = Some m \<Longrightarrow> n \<le> length m \<Longrightarrow> heap_load a n h = Inr (take n m)"
  by (simp add: heap_load_def)

section \<open>Buffer\<close>

record Buffer =
  mBuffer :: addr
  mBufferSize :: nat

definition Buffer_sized :: "nat \<Rightarrow> (nat \<Rightarrow> byte) \<Rightarrow> heap \<Rightarrow> Buffer \<times> heap" where
  "Buffer_sized n junk h =
     (let (a, h1) = heap_new n junk h in (\<lparr> mBuffer = a, mBufferSize = n \<rparr>, h1))"

definition Buffer_copy :: "Buffer \<Rightarrow> (nat \<Rightarrow> byte) \<Rightarrow> heap \<Rightarrow> (Buffer \<times> heap) res" where
  "Buffer_copy other junk h =
     (let (a, h1) = heap_new (mBufferSize other) junk h in
      res_bind (heap_load (mBuffer other) (mBufferSize other) h1) (\<lambda>bs.
      res_bind (heap_store a 0 bs h1) (\<lambda>h2.
      Inr (\<lparr> mBuffer = a, mBufferSize = mBufferSize other \<rparr>, h2))))"

definition Buffer_from :: "addr \<Rightarrow> nat \<Rightarrow> (nat \<Rightarrow> byte) \<Rightarrow> heap \<Rightarrow> (Buffer \<times> heap) res" where
  "Buffer_from copyBuffer n junk h =
     (let (a, h1) = heap_new n junk h in
      res_bind (heap_load copyBuffer n h1) (\<lambda>bs.
      res_bind (heap_store a 0 bs h1) (\<lambda>h2.
      Inr (\<lparr> mBuffer = a, mBufferSize = n \<rparr>, h2))))"

definition Buffer_destroy :: "Buffer \<Rightarrow> heap \<Rightarrow> heap res" where
  "Buffer_destroy b h = heap_delete (mBuffer b) h"

definition getBuffer :: "Buffer \<Rightarrow> addr" where "getBuffer b = mBuffer b"

definition getSize :: "Buffer \<Rightarrow> nat" where "getSize b = mBufferSize b"

definition clearBuffer :: "Buffer \<Rightarrow> heap \<Rightarrow> heap res" where
  "clearBuffer b h = heap_store (mBuffer b) 0 (replicate (mBufferSize b) 0) h"

text \<open>A live buffer owns a block of exactly its size.\<close>

definition buffer_live :: "heap \<Rightarrow> Buffer \<Rightarrow> bool" where
  "buffer_live h b \<longleftrightarrow> mBuffer b \<noteq> 0
     \<and> (\<exists>m. hp_cells h (mBuffer b) = Some m \<and> length m = mBufferSize b)"

lemma Buffer_sized_spec:
  assumes "heap_wf h" and "Buffer_sized n junk h = (b, h')"
  shows "heap_wf h'" and "hp_cells h (mBuffer b) = None"
    and "hp_cells h' = (hp_cells h)(mBuffer b \<mapsto> new_bytes n junk)"
    and "buffer_live h' b" and "mBufferSize b = n"
proof -
  obtain a where new: "heap_new n junk h = (a, h')" and b: "b = \<lparr> mBuffer = a, mBufferSize = n \<rparr>"
    using assms(2) by (auto simp: Buffer_sized_def Let_def split: prod.splits)
  show "heap_wf h'" "hp_cells h (mBuffer b) = None"
      "hp_cells h' = (hp_cells h)(mBuffer b \<mapsto> new_bytes n junk)" "mBufferSize b = n"
    using hp.alloc_fresh [OF assms(1) new] hp.alloc_blocks [OF assms(1) new] b by auto
  then show "buffer_live h' b"
    using hp.alloc_fresh [OF assms(1) new] b by (auto simp: buffer_live_def)
qed

text \<open>Both copying constructors: the new block holds the bytes the source held.\<close>

lemma Buffer_from_spec:
  assumes wf: "heap_wf h" and src: "hp_cells h a = Some m" and len: "n \<le> length m"
  obtains b h' where "Buffer_from a n junk h = Inr (b, h')" and "heap_wf h'"
    and "hp_cells h (mBuffer b) = None" and "mBuffer b \<noteq> 0" and "mBufferSize b = n"
    and "hp_cells h' = (hp_cells h)(mBuffer b \<mapsto> take n m)"
proof -
  obtain c h1 where new: "heap_new n junk h = (c, h1)" by fastforce
  note c = hp.alloc_fresh [OF wf new] and h1 = hp.alloc_blocks [OF wf new]
  have load: "heap_load a n h1 = Inr (take n m)"
    using c h1 src len by (intro heap_load_ok) auto
  obtain h2 where "heap_store c 0 (take n m) h1 = Inr h2"
      "hp_cells h2 = (hp_cells h1)(c \<mapsto> take n m)" "heap_wf h2"
    using hp.put_ok [of h1 c "new_bytes n junk" 0 "take n m"] h1 len by auto
  then show thesis
    using that [of "\<lparr> mBuffer = c, mBufferSize = n \<rparr>" h2] c h1 load
    by (simp add: Buffer_from_def new)
qed

lemma Buffer_copy_eq_from:
  "Buffer_copy other junk h = Buffer_from (mBuffer other) (mBufferSize other) junk h"
  by (simp add: Buffer_copy_def Buffer_from_def)

section \<open>Ownership: every block belongs to one live buffer\<close>

text \<open>
  Any program that only creates, copies, clears and destroys buffers is a run of these steps; the
  state is the store and the buffers that are in scope. Destroying a buffer takes it out of scope.
\<close>

record buffer_state =
  bs_heap :: heap
  bs_live :: "Buffer list"

inductive buffer_step :: "buffer_state \<Rightarrow> buffer_state \<Rightarrow> bool" where
  make: "Buffer_sized n junk (bs_heap s) = (b, h) \<Longrightarrow>
    buffer_step s (s\<lparr>bs_heap := h, bs_live := b # bs_live s\<rparr>)"
| copy: "b \<in> set (bs_live s) \<Longrightarrow> Buffer_copy b junk (bs_heap s) = Inr (c, h) \<Longrightarrow>
    buffer_step s (s\<lparr>bs_heap := h, bs_live := c # bs_live s\<rparr>)"
| clear: "b \<in> set (bs_live s) \<Longrightarrow> clearBuffer b (bs_heap s) = Inr h \<Longrightarrow>
    buffer_step s (s\<lparr>bs_heap := h\<rparr>)"
| destroy: "b \<in> set (bs_live s) \<Longrightarrow> Buffer_destroy b (bs_heap s) = Inr h \<Longrightarrow>
    buffer_step s (s\<lparr>bs_heap := h, bs_live := remove1 b (bs_live s)\<rparr>)"

definition buffer_init :: "buffer_state \<Rightarrow> bool" where
  "buffer_init s \<longleftrightarrow> s = \<lparr> bs_heap = heap_empty, bs_live = [] \<rparr>"

definition buffer_inv :: "buffer_state \<Rightarrow> bool" where
  "buffer_inv s \<longleftrightarrow> heap_wf (bs_heap s) \<and> distinct (map mBuffer (bs_live s))
     \<and> (\<forall>b \<in> set (bs_live s). buffer_live (bs_heap s) b)
     \<and> dom (hp_cells (bs_heap s)) = mBuffer ` set (bs_live s)"

lemma buffer_inv_add:
  assumes inv: "buffer_inv s" and h: "heap_wf h" "hp_cells h = (hp_cells (bs_heap s))(mBuffer b \<mapsto> m)"
    and b: "hp_cells (bs_heap s) (mBuffer b) = None" "mBuffer b \<noteq> 0" "length m = mBufferSize b"
  shows "buffer_inv (s\<lparr>bs_heap := h, bs_live := b # bs_live s\<rparr>)"
proof -
  have "mBuffer b \<notin> mBuffer ` set (bs_live s)"
    using inv b(1) by (auto simp: buffer_inv_def buffer_live_def)
  then show ?thesis using assms
    by (auto simp: buffer_inv_def buffer_live_def image_iff)
qed

lemma buffer_inv_update:
  assumes inv: "buffer_inv s" and h: "heap_wf h" "hp_cells h = (hp_cells (bs_heap s))(a \<mapsto> m)"
    and a: "hp_cells (bs_heap s) a = Some m0" "length m = length m0"
  shows "buffer_inv (s\<lparr>bs_heap := h\<rparr>)"
  using assms by (auto simp: buffer_inv_def buffer_live_def)

lemma buffer_inv_remove:
  assumes inv: "buffer_inv s" and b: "b \<in> set (bs_live s)"
    and h: "heap_wf h" "hp_cells h = (hp_cells (bs_heap s))(mBuffer b := None)"
  shows "buffer_inv (s\<lparr>bs_heap := h, bs_live := remove1 b (bs_live s)\<rparr>)"
proof -
  have dist: "distinct (map mBuffer (bs_live s))" using inv by (simp add: buffer_inv_def)
  then have d: "distinct (bs_live s)" "inj_on mBuffer (set (bs_live s))"
    by (simp_all add: distinct_map)
  then have set: "set (remove1 b (bs_live s)) = set (bs_live s) - {b}" by simp
  have img: "mBuffer ` (set (bs_live s) - {b}) = mBuffer ` set (bs_live s) - {mBuffer b}"
    using d(2) b by (auto simp: inj_on_def)
  have "distinct (map mBuffer (remove1 b (bs_live s)))"
    using d by (simp add: distinct_map set inj_on_diff)
  then show ?thesis using inv b h d(2)
    by (auto simp: buffer_inv_def set img buffer_live_def inj_on_def)
qed

lemma live_blockD:
  assumes "buffer_inv s" and "b \<in> set (bs_live s)"
  obtains m where "hp_cells (bs_heap s) (mBuffer b) = Some m" and "length m = mBufferSize b"
    and "mBuffer b \<noteq> 0" and "heap_wf (bs_heap s)"
  using assms by (auto simp: buffer_inv_def buffer_live_def)

interpretation buffers: invariant_system buffer_init buffer_step buffer_inv
proof unfold_locales
  fix s assume "buffer_init s"
  then show "buffer_inv s"
    by (simp add: buffer_init_def buffer_inv_def heap_empty_wf) (simp add: heap_empty_def)
next
  fix s t assume inv: "buffer_inv s" and step: "buffer_step s t"
  have wf: "heap_wf (bs_heap s)" using inv by (simp add: buffer_inv_def)
  from step show "buffer_inv t"
  proof cases
    case (make n junk b h)
    note spec = Buffer_sized_spec [OF wf make(2)]
    show ?thesis unfolding make(1)
      using spec by (intro buffer_inv_add [OF inv, where m = "new_bytes n junk"])
        (auto simp: buffer_live_def)
  next
    case (copy b junk c h)
    obtain m where m: "hp_cells (bs_heap s) (mBuffer b) = Some m" "length m = mBufferSize b"
      using live_blockD [OF inv copy(2)] by blast
    obtain c' h' where "Buffer_from (mBuffer b) (mBufferSize b) junk (bs_heap s) = Inr (c', h')"
        "heap_wf h'" "hp_cells (bs_heap s) (mBuffer c') = None" "mBuffer c' \<noteq> 0"
        "mBufferSize c' = mBufferSize b"
        "hp_cells h' = (hp_cells (bs_heap s))(mBuffer c' \<mapsto> take (mBufferSize b) m)"
      using Buffer_from_spec [OF wf m(1), of "mBufferSize b" junk] m(2) by auto
    then show ?thesis using copy m(2) inv
      by (auto simp: Buffer_copy_eq_from intro!: buffer_inv_add)
  next
    case (clear b h)
    obtain m where m: "hp_cells (bs_heap s) (mBuffer b) = Some m" "length m = mBufferSize b"
      using live_blockD [OF inv clear(2)] by blast
    show ?thesis unfolding clear(1)
      using hp.put_ok [OF wf m(1), of 0 "replicate (mBufferSize b) 0"] clear(3) m inv
      by (auto simp: clearBuffer_def intro!: buffer_inv_update)
  next
    case (destroy b h)
    obtain m where m: "hp_cells (bs_heap s) (mBuffer b) = Some m" "mBuffer b \<noteq> 0"
      using live_blockD [OF inv destroy(2)] by blast
    show ?thesis unfolding destroy(1)
      using hp.release_ok [OF wf m] destroy(3)
      by (auto simp: Buffer_destroy_def intro!: buffer_inv_remove [OF inv destroy(2)])
  qed
qed

section \<open>Properties\<close>

text \<open>
  A copied buffer is independent of its source: the copy succeeds, holds the same bytes in a
  block of its own, and clearing or destroying the copy succeeds and leaves the source's block,
  and every other block of the store, unchanged.
\<close>

theorem buffer_copy_is_deep:
  assumes "heap_wf h" and "buffer_live h b" and "hp_cells h (mBuffer b) = Some m"
  shows "\<exists>c h1 h2 h3. Buffer_copy b junk h = Inr (c, h1) \<and> mBuffer c \<noteq> mBuffer b
     \<and> getSize c = getSize b \<and> hp_cells h1 (getBuffer c) = Some m
     \<and> clearBuffer c h1 = Inr h2 \<and> hp_cells h2 (getBuffer c) = Some (replicate (getSize b) 0)
     \<and> hp_cells h2 (mBuffer b) = Some m
     \<and> Buffer_destroy c h2 = Inr h3 \<and> hp_cells h3 = hp_cells h"
proof -
  have len: "length m = mBufferSize b" using assms by (auto simp: buffer_live_def)
  obtain c h1 where c: "Buffer_from (mBuffer b) (mBufferSize b) junk h = Inr (c, h1)" "heap_wf h1"
      "hp_cells h (mBuffer c) = None" "mBuffer c \<noteq> 0" "mBufferSize c = mBufferSize b"
      "hp_cells h1 = (hp_cells h)(mBuffer c \<mapsto> take (mBufferSize b) m)"
    using Buffer_from_spec [OF assms(1,3), of "mBufferSize b" junk] len by auto
  obtain h2 where h2: "heap_store (mBuffer c) 0 (replicate (mBufferSize c) 0) h1 = Inr h2"
      "hp_cells h2 = (hp_cells h1)(mBuffer c \<mapsto> replicate (mBufferSize c) 0)" "heap_wf h2"
    using hp.put_ok [OF c(2), of "mBuffer c" m 0 "replicate (mBufferSize c) 0"] c(5,6) len by auto
  obtain h3 where "heap_delete (mBuffer c) h2 = Inr h3" "hp_cells h3 = (hp_cells h2)(mBuffer c := None)"
    using hp.release_ok [OF h2(3), of "mBuffer c"] h2(2) c(4) by auto
  then show ?thesis using c h2 len assms(3)
    by (auto simp: Buffer_copy_eq_from clearBuffer_def Buffer_destroy_def getBuffer_def getSize_def
        fun_upd_idem)
qed

theorem buffer_copy_is_deep_witness:
  "\<exists>c h1. Buffer_copy \<lparr> mBuffer = 1, mBufferSize = 2 \<rparr> (\<lambda>_. 0)
        \<lparr> hp_next = 2, hp_cells = [1 \<mapsto> [7, 8]] \<rparr> = Inr (c, h1)
      \<and> mBuffer c \<noteq> 1 \<and> hp_cells h1 (getBuffer c) = Some [7, 8]"
proof -
  have "heap_wf \<lparr> hp_next = 2, hp_cells = [1 \<mapsto> [7, 8]] \<rparr>"
    by (simp add: heap_wf_def)
  moreover have "buffer_live \<lparr> hp_next = 2, hp_cells = [1 \<mapsto> [7, 8]] \<rparr> \<lparr> mBuffer = 1, mBufferSize = 2 \<rparr>"
    by (simp add: buffer_live_def)
  ultimately show ?thesis
    using buffer_copy_is_deep [of "\<lparr> hp_next = 2, hp_cells = [1 \<mapsto> [7, 8]] \<rparr>"
        "\<lparr> mBuffer = 1, mBufferSize = 2 \<rparr>" "[7, 8]" "\<lambda>_. 0"] by auto
qed



end
