(* ===== verification/FileLists.thy ===== *)
theory FileLists
  imports Songs WavFiles Buffers
begin

text \<open>
  Server/FileList.h, Server/FileConverter.h and Server/SongFileConverter.h: the list of the songs
  in a directory, the search in it, and the converter that makes a song from a WAV file. The
  template parameter of the list and its converter are arguments of the definitions; the locale
  \<open>list_element\<close> says what the list needs of them.
\<close>

section \<open>The list\<close>

text \<open>
  A directory listing is the sequence of (is a directory, file name) that
  \<open>FindFirstFile\<close> and \<open>FindNextFile\<close> deliver for a search pattern; an invalid handle is the empty
  sequence. Files whose conversion succeeds are kept with the path \<open>mFileLoc + fileName\<close>. The
  converter gets the number of the entry, which selects the indeterminate storage of that call.
\<close>

type_synonym directory = "str \<Rightarrow> (bool \<times> str) list"
type_synonym 'a converter = "nat \<Rightarrow> str \<Rightarrow> str \<Rightarrow> heap \<Rightarrow> (bool \<times> 'a \<times> heap) res"
type_synonym 'a copier = "nat \<Rightarrow> 'a \<Rightarrow> 'a res"

record 'a FileList =
  mFileLoc :: str
  mFileExtn :: str
  mFileMap :: "('a \<times> str) list"

fun populate_loop ::
    "'a converter \<Rightarrow> 'a copier \<Rightarrow> str \<Rightarrow> nat \<Rightarrow> (bool \<times> str) list \<Rightarrow> ('a \<times> str) list \<Rightarrow> heap \<Rightarrow>
      (('a \<times> str) list \<times> heap) res" where
  "populate_loop convert copyT loc k [] files h = Inr (files, h)"
| "populate_loop convert copyT loc k ((is_dir, fileName) # entries) files h =
     (if \<not> is_dir then
        res_bind (convert k loc fileName h) (\<lambda>(file, typeClass, h').
        if file then
          res_bind (copyT k typeClass) (\<lambda>c.
          populate_loop convert copyT loc (Suc k) entries (files @ [(c, loc @ fileName)]) h')
        else populate_loop convert copyT loc (Suc k) entries files h')
      else populate_loop convert copyT loc (Suc k) entries files h)"

definition populate ::
    "directory \<Rightarrow> 'a converter \<Rightarrow> 'a copier \<Rightarrow> 'a FileList \<Rightarrow> heap \<Rightarrow> (int \<times> 'a FileList \<times> heap) res" where
  "populate dir convert copyT fl h =
     (let filePath = mFileLoc fl @ str_lit ''/*'' @ mFileExtn fl in
      res_bind (populate_loop convert copyT (mFileLoc fl) 0 (dir filePath) (mFileMap fl) h) (\<lambda>(files, h').
      Inr (1, fl\<lparr>mFileMap := files\<rparr>, h')))"

definition FileList_new ::
    "directory \<Rightarrow> 'a converter \<Rightarrow> 'a copier \<Rightarrow> str \<Rightarrow> str \<Rightarrow> heap \<Rightarrow> ('a FileList \<times> heap) res" where
  "FileList_new dir convert copyT fileLoc fileExtn h =
     res_bind (populate dir convert copyT
        \<lparr> mFileLoc = fileLoc, mFileExtn = fileExtn, mFileMap = [] \<rparr> h) (\<lambda>(_, fl, h').
     Inr (fl, h'))"

text \<open>The files are returned by value, so the vector and with it every element is copied.\<close>

fun copy_files :: "'a copier \<Rightarrow> nat \<Rightarrow> ('a \<times> str) list \<Rightarrow> ('a \<times> str) list res" where
  "copy_files copyT k [] = Inr []"
| "copy_files copyT k ((x, path) # files) =
     res_bind (copyT k x) (\<lambda>c.
     res_bind (copy_files copyT (Suc k) files) (\<lambda>rest.
     Inr ((c, path) # rest)))"

definition get_files :: "'a copier \<Rightarrow> 'a FileList \<Rightarrow> ('a \<times> str) list res" where
  "get_files copyT fl = copy_files copyT 0 (mFileMap fl)"

definition files_at :: "('a \<times> str) list \<Rightarrow> int \<Rightarrow> ('a \<times> str) res" where
  "files_at files i =
     (if 0 \<le> i \<and> i < int (length files) then Inr (files ! nat i) else Inl OutOfRange)"

text \<open>The subscript operator gives a copy of the entry, or throws as \<open>at\<close> does; a negative index is a huge one.\<close>

definition FileList_at :: "'a copier \<Rightarrow> int \<Rightarrow> 'a FileList \<Rightarrow> ('a \<times> str) res" where
  "FileList_at copyT i fl =
     res_bind (files_at (mFileMap fl) i) (\<lambda>(x, path). res_bind (copyT 0 x) (\<lambda>c. Inr (c, path)))"

definition getDirectory :: "'a FileList \<Rightarrow> str" where "getDirectory fl = mFileLoc fl"
definition getExtension :: "'a FileList \<Rightarrow> str" where "getExtension fl = mFileExtn fl"

definition FileList_clear :: "'a FileList \<Rightarrow> 'a FileList" where
  "FileList_clear fl = fl\<lparr>mFileMap := []\<rparr>"

definition FileList_size :: "'a FileList \<Rightarrow> nat" where
  "FileList_size fl = length (mFileMap fl)"

text \<open>
  The search copies each pair it looks at. \<open>res\<close> has no initial value, so its indeterminate
  contents are an argument; they are the result when nothing matches.
\<close>

fun indexOf_loop ::
    "('a \<Rightarrow> 'a \<Rightarrow> bool res) \<Rightarrow> 'a copier \<Rightarrow> 'a \<Rightarrow> int \<Rightarrow> int \<Rightarrow> ('a \<times> str) list \<Rightarrow> int res" where
  "indexOf_loop eqT copyT obj res i [] = Inr res"
| "indexOf_loop eqT copyT obj res i ((x, path) # files) =
     res_bind (copyT (nat (i + 1)) x) (\<lambda>first.
     res_bind (eqT first obj) (\<lambda>same.
     if same then Inr (i + 1) else indexOf_loop eqT copyT obj res (i + 1) files))"

definition indexOf ::
    "('a \<Rightarrow> 'a \<Rightarrow> bool res) \<Rightarrow> 'a copier \<Rightarrow> int \<Rightarrow> 'a \<Rightarrow> 'a FileList \<Rightarrow> int res" where
  "indexOf eqT copyT junk_res obj fl = indexOf_loop eqT copyT obj junk_res (-1) (mFileMap fl)"

section \<open>What the list needs of its elements\<close>

text \<open>
  Conversion gives good elements and keeps the store well-formed, copying keeps an element good
  and keeps what it says, and comparison of good elements compares what they say.
\<close>

locale list_element =
  fixes convert :: "'a converter"
    and copyT :: "'a copier"
    and eqT :: "'a \<Rightarrow> 'a \<Rightarrow> bool res"
    and good :: "'a \<Rightarrow> bool"
    and says :: "'a \<Rightarrow> 'k"
  assumes convert_good: "convert k d n h = Inr (True, x, h') \<Longrightarrow> good x"
    and copy_good: "good x \<Longrightarrow> \<exists>y. copyT k x = Inr y \<and> good y \<and> says y = says x"
    and eq_good: "good x \<Longrightarrow> good y \<Longrightarrow> eqT x y = Inr (says x = says y)"
begin

lemma populate_loop_good:
  assumes "populate_loop convert copyT loc k entries files h = Inr (files', h')"
    and "\<forall>(x, p) \<in> set files. good x \<and> p \<in> (@) loc ` names"
    and "snd ` set entries \<subseteq> names"
  shows "\<forall>(x, p) \<in> set files'. good x \<and> p \<in> (@) loc ` names"
  using assms
proof (induction entries arbitrary: k files h)
  case Nil
  then show ?case by simp
next
  case (Cons e entries)
  obtain is_dir n where e: "e = (is_dir, n)" by (cases e)
  show ?case
  proof (cases is_dir)
    case True
    then show ?thesis using Cons e by simp
  next
    case False
    then obtain got x h1 where conv: "convert k loc n h = Inr (got, x, h1)"
      using Cons.prems(1) e by (auto simp: res_bind_Inr_iff split: prod.splits)
    show ?thesis
    proof (cases got)
      case True
      then have "good x" using conv convert_good by simp
      then obtain c where c: "copyT k x = Inr c" "good c" using copy_good by blast
      show ?thesis
        by (rule Cons.IH [of "Suc k" "files @ [(c, loc @ n)]" h1])
          (use Cons.prems conv c True False e in auto)
    next
      case no: False
      show ?thesis
        by (rule Cons.IH [of "Suc k" files h1]) (use Cons.prems conv no False e in auto)
    qed
  qed
qed

lemma copy_files_good:
  assumes "\<forall>(x, p) \<in> set files. good x"
  shows "\<exists>files'. copy_files copyT k files = Inr files' \<and> (\<forall>(x, p) \<in> set files'. good x)
    \<and> map (says \<circ> fst) files' = map (says \<circ> fst) files \<and> map snd files' = map snd files"
  using assms
proof (induction files arbitrary: k)
  case Nil
  then show ?case by simp
next
  case (Cons f files)
  obtain x p where f: "f = (x, p)" by (cases f)
  obtain y where "copyT k x = Inr y" "good y" "says y = says x"
    using copy_good [of x k] Cons.prems f by auto
  moreover obtain rest where "copy_files copyT (Suc k) files = Inr rest" "\<forall>(x, p) \<in> set rest. good x"
      "map (says \<circ> fst) rest = map (says \<circ> fst) files" "map snd rest = map snd files"
    using Cons.IH [of "Suc k"] Cons.prems by (metis list.set_intros(2))
  ultimately show ?case using f by (simp add: comp_def)
qed

lemma indexOf_loop_spec:
  assumes "\<forall>(x, p) \<in> set files. good x" and "good obj" and "-1 \<le> i"
  shows "\<exists>r. indexOf_loop eqT copyT obj res i files = Inr r
     \<and> (if says obj \<in> (says \<circ> fst) ` set files
        then i < r \<and> r - i \<le> int (length files) \<and> says (fst (files ! nat (r - i - 1))) = says obj
           \<and> (\<forall>j < nat (r - i - 1). says (fst (files ! j)) \<noteq> says obj)
        else r = res)"
  using assms
proof (induction files arbitrary: i)
  case Nil
  then show ?case by simp
next
  case (Cons f files)
  obtain x p where f: "f = (x, p)" by (cases f)
  have "good x" using Cons.prems(1) f by simp
  then obtain y where y: "copyT (nat (i + 1)) x = Inr y" "good y" "says y = says x"
    using copy_good by blast
  have eq: "eqT y obj = Inr (says x = says obj)"
    using eq_good [OF y(2) Cons.prems(2)] y(3) by simp
  show ?case
  proof (cases "says x = says obj")
    case True
    then show ?thesis using y eq f by simp
  next
    case False
    obtain r where r: "indexOf_loop eqT copyT obj res (i + 1) files = Inr r"
        "if says obj \<in> (says \<circ> fst) ` set files
         then i + 1 < r \<and> r - (i + 1) \<le> int (length files)
           \<and> says (fst (files ! nat (r - (i + 1) - 1))) = says obj
           \<and> (\<forall>j < nat (r - (i + 1) - 1). says (fst (files ! j)) \<noteq> says obj)
         else r = res"
      using Cons.IH [of "i + 1"] Cons.prems by auto
    have step: "nat (r - i - 1) = Suc (nat (r - (i + 1) - 1))" if "i + 1 < r"
      using that by linarith
    show ?thesis
      using r y eq f False step
      by (auto simp: nth_Cons' less_Suc_eq_0_disj image_iff split: if_splits)
  qed
qed

lemma found_at:
  assumes "\<forall>(x, p) \<in> set (mFileMap fl). good x" and "good obj" and "says obj \<in> (says \<circ> fst) ` set (mFileMap fl)"
  shows "\<exists>r y p. indexOf eqT copyT junk_res obj fl = Inr r \<and> FileList_at copyT r fl = Inr (y, p) \<and> good y \<and> says y = says obj"
proof -
  obtain r where r: "indexOf_loop eqT copyT obj junk_res (- 1) (mFileMap fl) = Inr r" "- 1 < r" "r + 1 \<le> int (length (mFileMap fl))"
      "says (fst (mFileMap fl ! nat r)) = says obj"
    using indexOf_loop_spec [OF assms(1,2), of "- 1" junk_res] assms(3) by auto
  obtain x p where x: "mFileMap fl ! nat r = (x, p)" by fastforce
  have "(x, p) \<in> set (mFileMap fl)" using x nth_mem [of "nat r" "mFileMap fl"] r(2,3) by auto
  then have "good x" using assms(1) by auto
  then obtain y where "copyT 0 x = Inr y" "good y" "says y = says x" using copy_good by blast
  then show ?thesis using r x by (auto simp: indexOf_def FileList_at_def files_at_def)
qed

end

section \<open>The song converter\<close>

definition find_char :: "byte \<Rightarrow> str \<Rightarrow> nat option" where
  "find_char c s = (if c \<in> set s then Some (length (takeWhile (\<lambda>x. x \<noteq> c) s)) else None)"

text \<open>
  The names from the file name: up to the first underscore the song, from the underscore on the
  artist. The destination size passed to \<open>strcpy_s\<close> is that of the text, not of the field.
\<close>

definition set_names :: "str \<Rightarrow> Song \<Rightarrow> Song res" where
  "set_names fileName song =
     (case find_char 95 fileName of
        Some found \<Rightarrow>
          (let songName = take found fileName; artistName = drop found fileName in
           res_bind (strcpy_s (SongName song) (length songName + 1) songName) (\<lambda>sn.
           res_bind (strcpy_s (ArtistName song) (length artistName + 1) artistName) (\<lambda>an.
           Inr (song\<lparr>SongName := sn, ArtistName := an\<rparr>))))
      | None \<Rightarrow>
          res_bind (strcpy_s (SongName song) (length fileName + 1) fileName) (\<lambda>sn.
          res_bind (strcpy_s (ArtistName song) 8 (str_lit ''Unknown'')) (\<lambda>an.
          Inr (song\<lparr>SongName := sn, ArtistName := an\<rparr>))))"

text \<open>The bytes per second of the header, in 32-bit unsigned arithmetic.\<close>

definition bytes_per_second :: "waveHeader \<Rightarrow> cint" where
  "bytes_per_second h =
     sample_rate h * ucast (num_channels h) * ucast (bits_per_sample h) div 8"

definition converter_path :: "str \<Rightarrow> str \<Rightarrow> str" where
  "converter_path fileDir fileName = fileDir @ [92] @ fileName"

definition getClassFromFile ::
    "filesystem \<Rightarrow> (nat \<Rightarrow> byte) \<Rightarrow> str \<Rightarrow> str \<Rightarrow> Song \<Rightarrow> heap \<Rightarrow> (bool \<times> Song \<times> heap) res" where
  "getClassFromFile fs junk fileDir fileName song h =
     (let bufferSize = 44; (buffer, h1) = heap_new bufferSize junk h in
      res_bind (openFile fs (converter_path fileDir fileName) WavFilePackager_new) (\<lambda>(ok, packager).
      if ok \<and> isFileOpen packager then
        res_bind (heap_load buffer bufferSize h1) (\<lambda>b0.
        res_bind (getHeader b0 (of_nat bufferSize) packager) (\<lambda>(_, b1, packager1).
        res_bind (heap_store buffer 0 b1 h1) (\<lambda>h2.
        res_bind (heap_load buffer bufferSize h2) (\<lambda>hb.
        res_bind (heap_delete buffer h2) (\<lambda>h3.
        let header = header_of_image hb in
        if 0 < chunk_size header then
          (if bytes_per_second header = 0 then Inl DivideByZero
           else let timeLen = ucast (getTotalSize packager1 div ucast (bytes_per_second header)) in
             res_bind (set_names fileName song) (\<lambda>song'.
             Inr (True, song'\<lparr>SongLength := timeLen\<rparr>, h3)))
        else Inr (False, song, h3))))))
      else Inr (ok, song, h1)))"

text \<open>The converter and the copies as the list of songs uses them.\<close>

definition song_converter :: "filesystem \<Rightarrow> (nat \<Rightarrow> nat \<Rightarrow> byte) \<Rightarrow> Song converter" where
  "song_converter fs junk k fileDir fileName h =
     getClassFromFile fs (junk (2 * k)) fileDir fileName (Song_default (junk (2 * k + 1))) h"

definition song_copier :: "(nat \<Rightarrow> nat \<Rightarrow> byte) \<Rightarrow> Song copier" where
  "song_copier junk k s = Song_copy (junk k) s"

lemma strcpy_s_terminated:
  assumes "strcpy_s d n s = Inr d'"
  shows "terminated d'" and "length d' = length d" and "c_str d' = c_str s"
  using assms c_str_no_nul [of s]
  by (auto simp: strcpy_s_def Let_def mem_write_def terminated_def split: if_splits)

lemma set_names_ok:
  assumes "song_shape s" and "set_names fileName s = Inr s'"
  shows "song_ok s'"
  using assms strcpy_s_terminated
  by (auto simp: set_names_def Let_def song_ok_def song_shape_def res_bind_Inr_iff
      split: option.splits)

lemma getClassFromFile_ok:
  assumes "getClassFromFile fs junk d n s h = Inr (True, s', h')" and "song_shape s"
  shows "song_ok s'"
proof -
  obtain ok p where op: "openFile fs (converter_path d n) WavFilePackager_new = Inr (ok, p)"
    using openFile_total [of fs "converter_path d n" WavFilePackager_new] by blast
  have "ok \<and> isFileOpen p"
    using assms(1) openFile_opens(2) [OF op] by (auto simp: getClassFromFile_def op Let_def
        split: prod.splits if_splits)
  then obtain s1 t where "set_names n s = Inr s1" "s' = s1\<lparr>SongLength := t\<rparr>"
    using assms(1) by (auto simp: getClassFromFile_def op Let_def res_bind_Inr_iff
        split: prod.splits if_splits)
  then show ?thesis
    using set_names_ok [OF assms(2), of n s1] by (simp add: song_ok_def song_shape_def)
qed

text \<open>The converter may leave a block behind, but it keeps every block there was.\<close>

lemma heap_keeps_new:
  assumes "heap_wf h" and "heap_new n junk h = (a, h1)"
  shows "heap_wf h1" and "hp_cells h \<subseteq>\<^sub>m hp_cells h1" and "a \<noteq> 0"
  using hp.alloc_fresh [OF assms] hp.alloc_blocks [OF assms]
  by (auto simp: map_le_def)

lemma heap_store_delete:
  assumes "heap_wf h" and "heap_new n junk h = (a, h1)" and "heap_store a 0 bs h1 = Inr h2"
    and "heap_delete a h2 = Inr h3"
  shows "heap_wf h3" and "hp_cells h3 = hp_cells h"
proof -
  note a = hp.alloc_fresh [OF assms(1,2)] hp.alloc_blocks [OF assms(1,2)]
  obtain m where h2: "h2 = h1\<lparr>hp_cells := (hp_cells h1)(a \<mapsto> m)\<rparr>"
    using assms(3) a by (auto simp: heap_store_def res_bind_Inr_iff)
  have wf2: "heap_wf h2" unfolding h2 using a heap_wf_update [of h1 a "new_bytes n junk"] by simp
  obtain h3' where h3': "heap_delete a h2 = Inr h3'" "hp_cells h3' = (hp_cells h2)(a := None)" "heap_wf h3'"
    using hp.release_ok [OF wf2, of a m] h2 a by auto
  then show "heap_wf h3" "hp_cells h3 = hp_cells h"
    using assms(4) a h2 by (auto simp: fun_upd_idem)
qed

lemma getClassFromFile_heap:
  assumes wf: "heap_wf h" and run: "getClassFromFile fs junk d n s h = Inr (ok, s', h')"
  shows "heap_wf h' \<and> hp_cells h \<subseteq>\<^sub>m hp_cells h'"
proof -
  obtain k p where op: "openFile fs (converter_path d n) WavFilePackager_new = Inr (k, p)"
    using openFile_total [of fs "converter_path d n" WavFilePackager_new] by blast
  obtain a h1 where new: "heap_new 44 junk h = (a, h1)" by fastforce
  show ?thesis
  proof (cases "k \<and> isFileOpen p")
    case False
    then have "h' = h1" using run op new by (auto simp: getClassFromFile_def Let_def)
    then show ?thesis using heap_keeps_new [OF wf new] by simp
  next
    case True
    then obtain b1 h2 h3 where h: "heap_store a 0 b1 h1 = Inr h2" "heap_delete a h2 = Inr h3" "h' = h3"
      using run op new
      by (auto simp: getClassFromFile_def Let_def res_bind_Inr_iff split: if_splits)
    then show ?thesis using heap_store_delete [OF wf new h(1,2)] by simp
  qed
qed

lemma populate_loop_heap:
  assumes "heap_wf h" and "populate_loop (song_converter fs junk) copyT loc k entries files h = Inr (files', h')"
  shows "heap_wf h' \<and> hp_cells h \<subseteq>\<^sub>m hp_cells h'"
  using assms
proof (induction entries arbitrary: k files h)
  case Nil
  then show ?case by simp
next
  case (Cons e entries)
  obtain is_dir n where e: "e = (is_dir, n)" by (cases e)
  show ?case
  proof (cases is_dir)
    case True
    then show ?thesis using Cons e by simp
  next
    case False
    then obtain got x h1 files1 where conv: "song_converter fs junk k loc n h = Inr (got, x, h1)"
        and rest: "populate_loop (song_converter fs junk) copyT loc (Suc k) entries files1 h1 = Inr (files', h')"
      using Cons.prems(2) e by (auto simp: res_bind_Inr_iff split: prod.splits if_splits)
    have "heap_wf h1 \<and> hp_cells h \<subseteq>\<^sub>m hp_cells h1"
      using getClassFromFile_heap [OF Cons.prems(1)] conv by (simp add: song_converter_def)
    then show ?thesis using Cons.IH [OF _ rest] map_le_trans by blast
  qed
qed

interpretation songs: list_element "song_converter fs junk" "song_copier junk'" Song_eq song_ok song_key
proof unfold_locales
  fix k d n h x h'
  assume "song_converter fs junk k d n h = Inr (True, x, h')"
  then show "song_ok x"
    unfolding song_converter_def using getClassFromFile_ok Song_default_shape by blast
next
  fix k x assume "song_ok x"
  then show "\<exists>y. song_copier junk' k x = Inr y \<and> song_ok y \<and> song_key y = song_key x"
    unfolding song_copier_def by (rule Song_copy_ok)
next
  fix x y assume "song_ok x" "song_ok y"
  then show "Song_eq x y = Inr (song_key x = song_key y)" by (rule Song_eq_ok)
qed

text \<open>The list of songs the handler builds: all its entries are good.\<close>

definition song_list_ok :: "Song FileList \<Rightarrow> bool" where
  "song_list_ok fl \<longleftrightarrow> (\<forall>(s, p) \<in> set (mFileMap fl). song_ok s)"

lemma FileList_new_songs:
  assumes "FileList_new dir (song_converter fs junk) (song_copier junk') loc extn h = Inr (fl, h')"
  shows "song_list_ok fl" and "mFileLoc fl = loc"
    and "snd ` set (mFileMap fl) \<subseteq> (@) loc ` snd ` set (dir (loc @ str_lit ''/*'' @ extn))"
proof -
  let ?entries = "dir (loc @ str_lit ''/*'' @ extn)"
  obtain files where f: "populate_loop (song_converter fs junk) (song_copier junk') loc 0
        ?entries [] h = Inr (files, h')"
      and fl: "fl = \<lparr> mFileLoc = loc, mFileExtn = extn, mFileMap = files \<rparr>"
    using assms by (auto simp: FileList_new_def populate_def Let_def res_bind_Inr_iff)
  have "\<forall>(s, p) \<in> set files. song_ok s \<and> p \<in> (@) loc ` snd ` set ?entries"
    by (rule songs.populate_loop_good [OF f]) simp_all
  then show "song_list_ok fl" "mFileLoc fl = loc"
      "snd ` set (mFileMap fl) \<subseteq> (@) loc ` snd ` set ?entries"
    by (auto simp: song_list_ok_def fl)
qed

lemma FileList_new_heap:
  assumes "heap_wf h" and "FileList_new dir (song_converter fs junk) copyT loc extn h = Inr (fl, h')"
  shows "heap_wf h'" and "hp_cells h \<subseteq>\<^sub>m hp_cells h'"
  using assms populate_loop_heap
  by (auto simp: FileList_new_def populate_def Let_def res_bind_Inr_iff)

section \<open>What the converter computes\<close>

definition title_of :: "str \<Rightarrow> str" where
  "title_of n = takeWhile (\<lambda>x. x \<noteq> 95) n"

definition artist_of :: "str \<Rightarrow> str" where
  "artist_of n = (if 95 \<in> set n then dropWhile (\<lambda>x. x \<noteq> 95) n else str_lit ''Unknown'')"

lemma takeWhile_absent: "c \<notin> set n \<Longrightarrow> takeWhile (\<lambda>x. x \<noteq> c) n = n"
  by (induction n) auto

lemma unknown_text: "length (str_lit ''Unknown'') = 7" "0 \<notin> set (str_lit ''Unknown'')"
  by (simp_all add: str_lit_def)

lemma strcpy_s_fits:
  "0 \<notin> set s \<Longrightarrow> length s < length d \<Longrightarrow>
     strcpy_s d (Suc (length s)) s = Inr (s @ 0 # drop (Suc (length s)) d)"
  by (simp add: strcpy_s_def c_str_id)

lemma strcpy_s_overflow:
  "0 \<notin> set s \<Longrightarrow> length d \<le> length s \<Longrightarrow> strcpy_s d (Suc (length s)) s = Inl OutOfBounds"
  by (simp add: strcpy_s_def c_str_id)

lemma set_names_eq:
  assumes "0 \<notin> set n"
  shows "set_names n s =
    res_bind (strcpy_s (SongName s) (length (title_of n) + 1) (title_of n)) (\<lambda>sn.
    res_bind (strcpy_s (ArtistName s) (length (artist_of n) + 1) (artist_of n)) (\<lambda>an.
    Inr (s\<lparr>SongName := sn, ArtistName := an\<rparr>)))"
  using unknown_text(1)
  by (auto simp: set_names_def find_char_def title_of_def artist_of_def Let_def
      takeWhile_eq_take [symmetric] dropWhile_eq_drop [symmetric] takeWhile_absent)

lemma names_no_nul: "0 \<notin> set n \<Longrightarrow> 0 \<notin> set (title_of n)" "0 \<notin> set n \<Longrightarrow> 0 \<notin> set (artist_of n)"
  using unknown_text(2)
  by (auto simp: title_of_def artist_of_def dest: set_takeWhileD set_dropWhileD)

lemma set_names_fits:
  assumes "0 \<notin> set n" and "song_shape s" and "length (title_of n) < 64" and "length (artist_of n) < 64"
  shows "\<exists>s'. set_names n s = Inr s' \<and> song_ok s' \<and> c_str (SongName s') = title_of n
    \<and> c_str (ArtistName s') = artist_of n"
  using assms names_no_nul [OF assms(1)]
  by (simp add: set_names_eq strcpy_s_fits song_shape_def song_ok_def)

lemma set_names_overflow:
  assumes "0 \<notin> set n" and "song_shape s" and "64 \<le> length (title_of n) \<or> 64 \<le> length (artist_of n)"
  shows "set_names n s = Inl OutOfBounds"
proof (cases "64 \<le> length (title_of n)")
  case True
  then show ?thesis using assms names_no_nul [OF assms(1)]
    by (simp add: set_names_eq strcpy_s_overflow song_shape_def)
next
  case False
  then show ?thesis using assms names_no_nul [OF assms(1)]
    by (simp add: set_names_eq strcpy_s_overflow strcpy_s_fits song_shape_def)
qed

text \<open>Up to the names: the header is fetched through a block that is allocated and released again.\<close>

lemma getClassFromFile_file:
  assumes wf: "heap_wf h" and fs: "fs (converter_path d n) = Some (header_image wh @ data)"
    and wh: "header_shape wh" "chunk_id wh = RIFF" "wh_format wh = WAVE"
  shows "\<exists>h3. hp_cells h3 = hp_cells h \<and> heap_wf h3 \<and> getClassFromFile fs junk d n song h =
    (if chunk_size wh = 0 then Inr (False, song, h3)
     else if bytes_per_second wh = 0 then Inl DivideByZero
     else res_bind (set_names n song) (\<lambda>song'. Inr (True,
       song'\<lparr>SongLength := ucast (ucast (subchunk2_size wh) div ucast (bytes_per_second wh) :: size_t)\<rparr>, h3)))"
proof -
  let ?c = "header_image wh @ data"
  have len: "length (header_image wh) = 44" using wave_header.enc_length [OF wh(1)] by simp
  have dec: "header_of_image (take 44 ?c) = wh" "header_of_image (header_image wh) = wh"
    using wave_header.dec_prefix [OF wh(1), of data] wave_header.dec_enc [OF wh(1)] by simp_all
  have "wav_magic ?c" using wh by (simp add: wav_magic_def header_image_def header_shape_def)
  then obtain p where p: "openFile fs (converter_path d n) WavFilePackager_new = Inr (True, p)"
      "mHeader p = wh" "mTotalSize p = ucast (subchunk2_size wh)"
    using openFile_long [of fs _ ?c, OF fs] len dec by auto
  obtain a h1 where new: "heap_new 44 junk h = (a, h1)" by fastforce
  have a: "a \<noteq> 0" "hp_cells h a = None" "hp_cells h1 = (hp_cells h)(a \<mapsto> new_bytes 44 junk)" "heap_wf h1"
    using hp.alloc_fresh [OF wf new] hp.alloc_blocks [OF wf new] by auto
  obtain h2 where h2: "heap_store a 0 (header_image wh) h1 = Inr h2" "heap_wf h2"
      "hp_cells h2 = (hp_cells h1)(a \<mapsto> header_image wh)"
    using hp.put_ok [OF a(4), of a "new_bytes 44 junk" 0 "header_image wh"] a(3) len by auto
  obtain h3 where h3: "heap_delete a h2 = Inr h3" "hp_cells h3 = (hp_cells h2)(a := None)" "heap_wf h3"
    using hp.release_ok [OF h2(2), of a "header_image wh"] h2(3) a(1) by auto
  have cells: "hp_cells h3 = hp_cells h" using h3(2) h2(3) a(2,3) by (auto simp: fun_upd_idem)
  have loads: "heap_load a 44 h1 = Inr (new_bytes 44 junk)" "heap_load a 44 h2 = Inr (header_image wh)"
    using a(3) h2(3) len by (simp_all add: heap_load_ok)
  have hdr: "getHeader (new_bytes 44 junk) 44 p =
      Inr (44, header_image wh, p\<lparr>mOpenFile := snd (stream_get 44 (mOpenFile p))\<rparr>)"
    using getHeader_full [of p "new_bytes 44 junk"] p(2) wh(1) by simp
  show ?thesis
    using cells h3 p openFile_opens(2) [OF p(1)] loads h2(1) new hdr dec
    by (intro exI [of _ h3]) (simp add: getClassFromFile_def Let_def getTotalSize_def word_neq_0_conv)
qed

section \<open>Properties\<close>

text \<open>
  C30. Searching the song list. For a list of good songs and a good song the search always
  returns; when some entry says the same it returns the index of the first such entry, which is
  inside the list, and otherwise it returns the indeterminate initial contents of its result.
\<close>

theorem indexOf_song:
  assumes "song_list_ok fl" and "song_ok obj"
  shows "\<exists>r. indexOf Song_eq (song_copier junk) junk_res obj fl = Inr r
     \<and> (if song_key obj \<in> (song_key \<circ> fst) ` set (mFileMap fl)
        then 0 \<le> r \<and> r < int (length (mFileMap fl)) \<and> song_key (fst (mFileMap fl ! nat r)) = song_key obj
           \<and> (\<forall>j < nat r. song_key (fst (mFileMap fl ! j)) \<noteq> song_key obj)
        else r = junk_res)"
proof -
  have "\<forall>(s, p) \<in> set (mFileMap fl). song_ok s" using assms(1) by (simp add: song_list_ok_def)
  from songs.indexOf_loop_spec [OF this assms(2), of "-1" junk junk_res]
  obtain r where r: "indexOf_loop Song_eq (song_copier junk) obj junk_res (-1) (mFileMap fl) = Inr r"
      "if song_key obj \<in> (song_key \<circ> fst) ` set (mFileMap fl)
       then -1 < r \<and> r - -1 \<le> int (length (mFileMap fl))
         \<and> song_key (fst (mFileMap fl ! nat (r - -1 - 1))) = song_key obj
         \<and> (\<forall>j < nat (r - -1 - 1). song_key (fst (mFileMap fl ! j)) \<noteq> song_key obj)
       else r = junk_res"
    by auto
  then show ?thesis by (intro exI [of _ r]) (auto simp: indexOf_def split: if_splits)
qed

definition song_a :: Song where
  "song_a = \<lparr> SongName = 65 # replicate 63 0, ArtistName = replicate 64 0, SongLength = 3 \<rparr>"

definition song_b :: Song where
  "song_b = \<lparr> SongName = 66 # replicate 63 0, ArtistName = replicate 64 0, SongLength = 3 \<rparr>"

lemma sample_songs: "song_ok song_a" "song_ok song_b" "song_key song_a \<noteq> song_key song_b"
  by (simp_all add: song_a_def song_b_def song_ok_def song_shape_def terminated_def song_key_def
      c_str_def)

theorem indexOf_song_witness:
  "indexOf Song_eq (song_copier (\<lambda>_ _. 1)) 12345 song_b
     \<lparr> mFileLoc = [], mFileExtn = [], mFileMap = [(song_a, [1])] \<rparr> = Inr 12345"
  using indexOf_song [of "\<lparr> mFileLoc = [], mFileExtn = [], mFileMap = [(song_a, [1])] \<rparr>" song_b
      "\<lambda>_ _. 1" 12345] sample_songs
  by (simp add: song_list_ok_def)

text \<open>
  The paths in the list are not the paths that were converted. The list stores the directory
  and the file name with nothing between them, while the converter opens them with a backslash
  between them. So where all files live in that directory, under names that do not begin with a
  backslash, no entry of the list names a file that exists, and opening any of them for streaming
  leaves the packager closed.
\<close>

theorem stored_paths_do_not_exist:
  assumes "FileList_new dir (song_converter fs junk) (song_copier junk') loc extn h = Inr (fl, h')"
    and "\<forall>q. fs q \<noteq> None \<longrightarrow> (\<exists>n. q = converter_path loc n)"
    and "\<forall>n \<in> snd ` set (dir (loc @ str_lit ''/*'' @ extn)). n \<noteq> [] \<and> hd n \<noteq> 92"
  shows "\<forall>(s, path) \<in> set (mFileMap fl). fs path = None
    \<and> (\<exists>p'. openFile fs path WavFilePackager_new = Inr (False, p') \<and> \<not> isFileOpen p')"
proof -
  have closed: "fs path = None" if mem: "(s, path) \<in> set (mFileMap fl)" for s path
  proof (rule ccontr)
    assume "fs path \<noteq> None"
    then obtain n where "path = converter_path loc n" using assms(2) by blast
    moreover obtain m where "path = loc @ m" "m \<in> snd ` set (dir (loc @ str_lit ''/*'' @ extn))"
      using subsetD [OF FileList_new_songs(3) [OF assms(1)] imageI [OF mem, of snd]] by auto
    ultimately have "m = 92 # n" "hd m \<noteq> 92" using bspec [OF assms(3), of m]
      by (simp_all add: converter_path_def)
    then show False by simp
  qed
  have "\<exists>p'. openFile fs path WavFilePackager_new = Inr (False, p') \<and> \<not> isFileOpen p'"
    if none: "fs path = None" for path
  proof -
    obtain ok p' where p': "openFile fs path WavFilePackager_new = Inr (ok, p')"
      using openFile_total [of fs path WavFilePackager_new] by blast
    then show ?thesis using openFile_opens [OF p'] none by auto
  qed
  then show ?thesis using closed by auto
qed

text \<open>A directory with one WAV file of 100 data bytes at 8 bytes per second.\<close>

definition demo_header :: waveHeader where
  "demo_header = \<lparr> chunk_id = RIFF, chunk_size = 136, wh_format = WAVE, subchunk1_id = replicate 4 32,
     subchunk1_size = 16, audio_format = 1, num_channels = 1, sample_rate = 8, byte_rate = 8,
     block_align = 1, bits_per_sample = 8, subchunk2_id = replicate 4 32, subchunk2_size = 100 \<rparr>"

definition demo_file :: "byte list" where
  "demo_file = header_image demo_header @ replicate 100 9"

definition demo_loc :: str where "demo_loc = str_lit ''M''"
definition demo_name :: str where "demo_name = str_lit ''a_b''"

definition demo_fs :: filesystem where
  "demo_fs = [converter_path demo_loc demo_name \<mapsto> demo_file]"

text \<open>
  C31. Conversion of a WAV file. For a file with a WAV header whose riff size and bytes per second
  are not zero, and a file name whose parts fit the fields, the converter delivers a terminated
  song: the title is the name up to the first underscore, the artist the rest from the underscore
  on or "Unknown", the length the data size divided by the bytes per second. The temporary
  block is released: the store holds what it held before.
\<close>

theorem converter_delivers_song:
  assumes "heap_wf h" and "fs (converter_path d n) = Some (header_image wh @ data)"
    and "header_shape wh" and "chunk_id wh = RIFF" and "wh_format wh = WAVE"
    and "chunk_size wh \<noteq> 0" and "bytes_per_second wh \<noteq> 0" and "song_shape song"
    and "0 \<notin> set n" and "length (title_of n) < 64" and "length (artist_of n) < 64"
  shows "\<exists>s' h'. getClassFromFile fs junk d n song h = Inr (True, s', h') \<and> song_ok s'
    \<and> song_key s' = (title_of n, artist_of n,
         ucast (ucast (subchunk2_size wh) div ucast (bytes_per_second wh) :: size_t))
    \<and> hp_cells h' = hp_cells h"
  using getClassFromFile_file [of h fs d n wh data junk song, OF assms(1-5)] set_names_fits [OF assms(9,8,10,11)] assms(6,7)
  by (auto simp: song_key_def song_ok_def song_shape_def)

lemma demo_header_simps:
  "header_shape demo_header" "chunk_id demo_header = RIFF" "wh_format demo_header = WAVE"
  "chunk_size demo_header = 136" "bytes_per_second demo_header = 8"
  "subchunk2_size demo_header = 100"
  by (simp_all add: demo_header_def header_shape_def bytes_per_second_def)

theorem converter_delivers_song_witness:
  "\<exists>s' h'. getClassFromFile demo_fs (\<lambda>_. 0) demo_loc demo_name song_a heap_empty = Inr (True, s', h')
    \<and> song_key s' = ([97], [95, 98], 12)"
proof -
  have "demo_fs (converter_path demo_loc demo_name) = Some (header_image demo_header @ replicate 100 9)"
    by (simp add: demo_fs_def demo_file_def)
  moreover have "title_of demo_name = [97]" "artist_of demo_name = [95, 98]" "0 \<notin> set demo_name"
    by (simp_all add: demo_name_def str_lit_def title_of_def artist_of_def)
  ultimately show ?thesis
    using converter_delivers_song [OF heap_empty_wf, of demo_fs demo_loc demo_name demo_header
        "replicate 100 9" song_a "\<lambda>_. 0"] sample_songs(1)
    by (auto simp: demo_header_simps song_ok_def)
qed

text \<open>
  C32. Where the converter goes wrong. If the file cannot be opened it answers no and leaks its
  44-byte block. For a file with a WAV header and a riff size that is not zero, a header with no
  bytes per second is an integer division by zero, and a file name part of 64 or more bytes is
  written past its field, because \<open>strcpy_s\<close> is told the size of the text instead of the field.
\<close>

theorem converter_failures:
  assumes "heap_wf h" and "song_shape song" and "0 \<notin> set n"
  shows "(fs (converter_path d n) = None \<longrightarrow>
      (\<exists>a h'. getClassFromFile fs junk d n song h = Inr (False, song, h')
         \<and> hp_cells h a = None \<and> hp_cells h' = (hp_cells h)(a \<mapsto> new_bytes 44 junk)))
   \<and> (\<forall>wh data. fs (converter_path d n) = Some (header_image wh @ data) \<and> header_shape wh
        \<and> chunk_id wh = RIFF \<and> wh_format wh = WAVE \<and> chunk_size wh \<noteq> 0 \<longrightarrow>
      (bytes_per_second wh = 0 \<longrightarrow> getClassFromFile fs junk d n song h = Inl DivideByZero)
      \<and> (bytes_per_second wh \<noteq> 0 \<and> (64 \<le> length (title_of n) \<or> 64 \<le> length (artist_of n)) \<longrightarrow>
           getClassFromFile fs junk d n song h = Inl OutOfBounds))"
proof (intro conjI impI allI)
  assume none: "fs (converter_path d n) = None"
  obtain ok p where p: "openFile fs (converter_path d n) WavFilePackager_new = Inr (ok, p)"
    using openFile_total [of fs _ WavFilePackager_new] by blast
  have "\<not> isFileOpen p" "\<not> ok" using openFile_opens [OF p] none by auto
  moreover obtain a h1 where new: "heap_new 44 junk h = (a, h1)" by fastforce
  ultimately show "\<exists>a h'. getClassFromFile fs junk d n song h = Inr (False, song, h')
      \<and> hp_cells h a = None \<and> hp_cells h' = (hp_cells h)(a \<mapsto> new_bytes 44 junk)"
    using hp.alloc_fresh [OF assms(1) new] hp.alloc_blocks [OF assms(1) new] p
    by (auto simp: getClassFromFile_def Let_def)
next
  fix wh data
  assume f: "fs (converter_path d n) = Some (header_image wh @ data) \<and> header_shape wh
      \<and> chunk_id wh = RIFF \<and> wh_format wh = WAVE \<and> chunk_size wh \<noteq> 0"
  then obtain h3 where g: "getClassFromFile fs junk d n song h =
      (if bytes_per_second wh = 0 then Inl DivideByZero
       else res_bind (set_names n song) (\<lambda>song'. Inr (True,
         song'\<lparr>SongLength := ucast (ucast (subchunk2_size wh) div ucast (bytes_per_second wh) :: size_t)\<rparr>, h3)))"
    using getClassFromFile_file [OF assms(1), of fs d n wh data junk song] by auto
  show "getClassFromFile fs junk d n song h = Inl DivideByZero" if "bytes_per_second wh = 0"
    using g that by simp
  show "getClassFromFile fs junk d n song h = Inl OutOfBounds"
    if "bytes_per_second wh \<noteq> 0 \<and> (64 \<le> length (title_of n) \<or> 64 \<le> length (artist_of n))"
    using g that set_names_overflow [OF assms(3,2)] by simp
qed

theorem converter_failures_witness:
  "getClassFromFile [converter_path [77] (replicate 70 65) \<mapsto> demo_file] (\<lambda>_. 0) [77] (replicate 70 65)
     song_a heap_empty = Inl OutOfBounds"
proof -
  have "title_of (replicate 70 65) = replicate 70 65"
    by (simp add: title_of_def takeWhile_absent)
  then show ?thesis
    using converter_failures [OF heap_empty_wf, of song_a "replicate 70 65"
        "[converter_path [77] (replicate 70 65) \<mapsto> demo_file]" "[77]" "\<lambda>_. 0"] sample_songs(1)
    by (auto simp: demo_header_simps demo_file_def song_ok_def)
qed

theorem stored_paths_do_not_exist_witness:
  "\<exists>fl h'. FileList_new (\<lambda>_. [(False, demo_name)]) (song_converter demo_fs (\<lambda>_ _. 0))
        (song_copier (\<lambda>_ _. 0)) demo_loc [] heap_empty = Inr (fl, h')
     \<and> length (mFileMap fl) = 1 \<and> (\<forall>(s, path) \<in> set (mFileMap fl). demo_fs path = None)"
proof -
  have "demo_fs (converter_path demo_loc demo_name) = Some (header_image demo_header @ replicate 100 9)"
    by (simp add: demo_fs_def demo_file_def)
  moreover have n: "title_of demo_name = [97]" "artist_of demo_name = [95, 98]" "0 \<notin> set demo_name"
      "hd demo_name \<noteq> 92" "demo_name \<noteq> []"
    by (simp_all add: demo_name_def str_lit_def title_of_def artist_of_def)
  moreover note conv = getClassFromFile_file [OF heap_empty_wf, of demo_fs demo_loc demo_name demo_header
      "replicate 100 9" "\<lambda>_. 0" "Song_default (\<lambda>_. 0)"]
  moreover obtain s' where s': "set_names demo_name (Song_default (\<lambda>_. 0)) = Inr s'" "song_ok s'"
    using set_names_fits [of demo_name "Song_default (\<lambda>_. 0)"] n Song_default_shape by auto
  ultimately obtain s h3 where c: "song_converter demo_fs (\<lambda>_ _. 0) 0 demo_loc demo_name heap_empty
      = Inr (True, s, h3)" "song_ok s"
    by (auto simp: demo_header_simps song_converter_def song_ok_def song_shape_def)
  obtain t where "song_copier (\<lambda>_ _. 0) 0 s = Inr t"
    using Song_copy_ok [OF c(2)] by (auto simp: song_copier_def)
  then have fl: "FileList_new (\<lambda>_. [(False, demo_name)]) (song_converter demo_fs (\<lambda>_ _. 0))
        (song_copier (\<lambda>_ _. 0)) demo_loc [] heap_empty
      = Inr (\<lparr> mFileLoc = demo_loc, mFileExtn = [], mFileMap = [(t, demo_loc @ demo_name)] \<rparr>, h3)"
    using c by (simp add: FileList_new_def populate_def Let_def)
  have "\<forall>q. demo_fs q \<noteq> None \<longrightarrow> (\<exists>n. q = converter_path demo_loc n)"
    by (auto simp: demo_fs_def)
  from stored_paths_do_not_exist [OF fl this] show ?thesis using fl n(4,5) by simp
qed

end
