(* ===== verification/ConcQueue.thy ===== *)
theory ConcQueue
  imports Prelude
begin

text \<open>
  Server/ConcurrentQueue.h. First the queue as its callers see it, where each operation is one
  step because it runs under the mutex, with the first-in first-out contract as the locale
  \<open>fifo_queue\<close>; then the class as a monitor: any number of threads inside \<open>push\<close> and \<open>pop\<close>,
  the mutex, the condition variable with its waiting threads, notification and spurious wake-ups.
\<close>

section \<open>The queue under its mutex\<close>

record 'a ConcurrentQueue =
  mQueue :: "'a list"

definition queue_push :: "'a \<Rightarrow> 'a ConcurrentQueue \<Rightarrow> 'a ConcurrentQueue" where
  "queue_push item q = q\<lparr>mQueue := mQueue q @ [item]\<rparr>"

text \<open>\<open>None\<close> is a caller that blocks on the condition variable.\<close>

definition queue_pop :: "'a ConcurrentQueue \<Rightarrow> ('a \<times> 'a ConcurrentQueue) option" where
  "queue_pop q =
     (case mQueue q of [] \<Rightarrow> None | res # rest \<Rightarrow> Some (res, q\<lparr>mQueue := rest\<rparr>))"

definition queue_size :: "'a ConcurrentQueue \<Rightarrow> nat" where
  "queue_size q = length (mQueue q)"

datatype 'a queue_op = Push 'a | Pop

fun pushed_of :: "'a queue_op list \<Rightarrow> 'a list" where
  "pushed_of [] = []"
| "pushed_of (Push x # ops) = x # pushed_of ops"
| "pushed_of (Pop # ops) = pushed_of ops"

text \<open>A sequence of completed operations and the values its pops returned.\<close>

fun run_ops ::
    "('a \<Rightarrow> 'q \<Rightarrow> 'q) \<Rightarrow> ('q \<Rightarrow> ('a \<times> 'q) option) \<Rightarrow> 'a queue_op list \<Rightarrow> 'q \<Rightarrow> ('a list \<times> 'q) option"
  where
  "run_ops psh pp [] q = Some ([], q)"
| "run_ops psh pp (Push x # ops) q = run_ops psh pp ops (psh x q)"
| "run_ops psh pp (Pop # ops) q =
     (case pp q of
        None \<Rightarrow> None
      | Some (x, q') \<Rightarrow> map_option (\<lambda>(out, q''). (x # out, q'')) (run_ops psh pp ops q'))"

locale fifo_queue =
  fixes push :: "'a \<Rightarrow> 'q \<Rightarrow> 'q"
    and pop :: "'q \<Rightarrow> ('a \<times> 'q) option"
    and contents :: "'q \<Rightarrow> 'a list"
  assumes push_contents: "contents (push x q) = contents q @ [x]"
    and pop_empty: "pop q = None \<longleftrightarrow> contents q = []"
    and pop_contents: "pop q = Some (x, q') \<Longrightarrow> contents q = x # contents q'"
begin

lemma fold_push_contents: "contents (fold push xs q) = contents q @ xs"
  by (induction xs arbitrary: q) (simp_all add: push_contents)

text \<open>First in, first out: what was there and what is pushed comes out in this order.\<close>

lemma run_fifo:
  "run_ops push pop ops q = Some (out, q') \<Longrightarrow> contents q @ pushed_of ops = out @ contents q'"
proof (induction ops arbitrary: q out)
  case Nil
  then show ?case by simp
next
  case (Cons op' ops)
  show ?case
  proof (cases op')
    case (Push x)
    then show ?thesis using Cons.IH [of "push x q" out] Cons.prems by (simp add: push_contents)
  next
    case Pop
    then show ?thesis using Cons by (auto simp: pop_contents split: option.splits)
  qed
qed

text \<open>A run of pushes followed by at most as many pops never blocks.\<close>

lemma pops_return:
  "n \<le> length (contents q) \<Longrightarrow>
     \<exists>q'. run_ops push pop (replicate n Pop) q = Some (take n (contents q), q')"
proof (induction n arbitrary: q)
  case 0
  then show ?case by simp
next
  case (Suc n)
  then obtain x q1 where p: "pop q = Some (x, q1)"
    using pop_empty [of q] by (cases "pop q") auto
  then have "contents q = x # contents q1" by (rule pop_contents)
  then show ?case using Suc.IH [of q1] Suc.prems p by auto
qed

end

interpretation cq: fifo_queue queue_push queue_pop mQueue
  by unfold_locales (auto simp: queue_push_def queue_pop_def split: list.splits)

section \<open>The monitor\<close>

text \<open>
  A thread is outside (\<open>Idle\<close>), or at one of the points of the source where another thread can
  run: before locking the mutex, with the mutex held at the test of the loop, waiting on the
  condition variable, woken and about to lock again, with the item taken, before and after the
  insertion, and after the unlock of \<open>push\<close>, before \<open>notify_all\<close>. \<open>Got\<close> is a pop that returned.
\<close>

datatype 'a point =
    Idle
  | PopLock | PopTest | PopWaiting | PopWoken | PopTaken 'a | Got 'a
  | PushLock 'a | PushInsert 'a | PushUnlock | PushNotify

type_synonym tid = nat

record 'a monitor =
  m_items :: "'a list"
  m_owner :: "tid option"
  m_at :: "tid \<Rightarrow> 'a point"
  m_pushed :: "'a list"    \<comment> \<open>history: every item ever inserted\<close>
  m_popped :: "'a list"    \<comment> \<open>history: every item ever taken\<close>

definition wake_all :: "(tid \<Rightarrow> 'a point) \<Rightarrow> tid \<Rightarrow> 'a point" where
  "wake_all at t = (if at t = PopWaiting then PopWoken else at t)"

inductive monitor_run :: "'a monitor \<Rightarrow> 'a monitor \<Rightarrow> bool" where
  pop_lock: "m_at s t = PopLock \<or> m_at s t = PopWoken \<Longrightarrow> m_owner s = None \<Longrightarrow>
    monitor_run s (s\<lparr>m_owner := Some t, m_at := (m_at s)(t := PopTest)\<rparr>)"
| pop_wait: "m_at s t = PopTest \<Longrightarrow> m_items s = [] \<Longrightarrow>
    monitor_run s (s\<lparr>m_owner := None, m_at := (m_at s)(t := PopWaiting)\<rparr>)"
| pop_take: "m_at s t = PopTest \<Longrightarrow> m_items s = x # xs \<Longrightarrow>
    monitor_run s (s\<lparr>m_items := xs, m_popped := m_popped s @ [x], m_at := (m_at s)(t := PopTaken x)\<rparr>)"
| pop_return: "m_at s t = PopTaken x \<Longrightarrow>
    monitor_run s (s\<lparr>m_owner := None, m_at := (m_at s)(t := Got x)\<rparr>)"
| push_lock: "m_at s t = PushLock x \<Longrightarrow> m_owner s = None \<Longrightarrow>
    monitor_run s (s\<lparr>m_owner := Some t, m_at := (m_at s)(t := PushInsert x)\<rparr>)"
| push_insert: "m_at s t = PushInsert x \<Longrightarrow>
    monitor_run s (s\<lparr>m_items := m_items s @ [x], m_pushed := m_pushed s @ [x],
                     m_at := (m_at s)(t := PushUnlock)\<rparr>)"
| push_unlock: "m_at s t = PushUnlock \<Longrightarrow>
    monitor_run s (s\<lparr>m_owner := None, m_at := (m_at s)(t := PushNotify)\<rparr>)"
| push_notify: "m_at s t = PushNotify \<Longrightarrow>
    monitor_run s (s\<lparr>m_at := (wake_all (m_at s))(t := Idle)\<rparr>)"

text \<open>The environment: calls by idle threads, and spurious wake-ups.\<close>

inductive monitor_step :: "'a monitor \<Rightarrow> 'a monitor \<Rightarrow> bool" where
  run: "monitor_run s t \<Longrightarrow> monitor_step s t"
| call_pop: "m_at s t = Idle \<or> m_at s t = Got y \<Longrightarrow> monitor_step s (s\<lparr>m_at := (m_at s)(t := PopLock)\<rparr>)"
| call_push: "m_at s t = Idle \<or> m_at s t = Got y \<Longrightarrow>
    monitor_step s (s\<lparr>m_at := (m_at s)(t := PushLock x)\<rparr>)"
| spurious: "m_at s t = PopWaiting \<Longrightarrow> monitor_step s (s\<lparr>m_at := (m_at s)(t := PopWoken)\<rparr>)"

inductive_cases monitor_runE: "monitor_run s t"
inductive_cases monitor_stepE: "monitor_step s t"

definition monitor_init :: "'a monitor \<Rightarrow> bool" where
  "monitor_init s \<longleftrightarrow> m_items s = [] \<and> m_owner s = None \<and> m_at s = (\<lambda>_. Idle)
     \<and> m_pushed s = [] \<and> m_popped s = []"

definition in_section :: "'a point \<Rightarrow> bool" where
  "in_section p = (case p of PopTest \<Rightarrow> True | PopTaken _ \<Rightarrow> True | PushInsert _ \<Rightarrow> True
     | PushUnlock \<Rightarrow> True | _ \<Rightarrow> False)"

lemma in_section_simps [simp]:
  "in_section PopTest" "in_section (PopTaken x)" "in_section (PushInsert x)" "in_section PushUnlock"
  "\<not> in_section Idle" "\<not> in_section PopLock" "\<not> in_section PopWaiting" "\<not> in_section PopWoken"
  "\<not> in_section (Got x)" "\<not> in_section (PushLock x)" "\<not> in_section PushNotify"
  by (simp_all add: in_section_def)

lemma in_section_wake [simp]: "in_section (wake_all at t) = in_section (at t)"
  by (simp add: wake_all_def)

lemma wake_all_neq [simp]:
  "wake_all at t \<noteq> PopWaiting"
  "wake_all at t = PushUnlock \<longleftrightarrow> at t = PushUnlock" "wake_all at t = PushNotify \<longleftrightarrow> at t = PushNotify"
  by (simp_all add: wake_all_def)

text \<open>
  Three facts hold together: exactly the owner of the mutex is inside its section, the history is
  what was taken followed by what is there, and where an item lies in the queue while a thread
  waits, some push has not notified yet.
\<close>

definition lock_inv :: "'a monitor \<Rightarrow> bool" where
  "lock_inv s \<longleftrightarrow> (\<forall>t. in_section (m_at s t) \<longleftrightarrow> m_owner s = Some t)"

definition history_inv :: "'a monitor \<Rightarrow> bool" where
  "history_inv s \<longleftrightarrow> m_pushed s = m_popped s @ m_items s"

definition wakeup_inv :: "'a monitor \<Rightarrow> bool" where
  "wakeup_inv s \<longleftrightarrow> (m_items s \<noteq> [] \<and> (\<exists>t. m_at s t = PopWaiting) \<longrightarrow>
     (\<exists>p. m_at s p = PushUnlock \<or> m_at s p = PushNotify))"

definition monitor_inv :: "'a monitor \<Rightarrow> bool" where
  "monitor_inv s \<longleftrightarrow> lock_inv s \<and> history_inv s \<and> wakeup_inv s"

text \<open>How the ownership changes: a thread enters its section, leaves it, or moves within.\<close>

lemma lock_enter:
  "lock_inv s \<Longrightarrow> m_owner s = None \<Longrightarrow> in_section p \<Longrightarrow>
     lock_inv (s\<lparr>m_owner := Some t, m_at := (m_at s)(t := p)\<rparr>)"
  by (auto simp: lock_inv_def)

lemma lock_leave:
  "lock_inv s \<Longrightarrow> in_section (m_at s t) \<Longrightarrow> \<not> in_section p \<Longrightarrow>
     lock_inv (s\<lparr>m_owner := None, m_at := (m_at s)(t := p)\<rparr>)"
  by (auto simp: lock_inv_def)

lemma lock_stay:
  "lock_inv s \<Longrightarrow> in_section p = in_section (m_at s t) \<Longrightarrow>
     lock_inv (s\<lparr>m_at := (m_at s)(t := p)\<rparr>)"
  by (auto simp: lock_inv_def)

lemma lock_items [simp]:
  "lock_inv (s\<lparr>m_items := xs\<rparr>) = lock_inv s" "lock_inv (s\<lparr>m_pushed := xs\<rparr>) = lock_inv s"
  "lock_inv (s\<lparr>m_popped := xs\<rparr>) = lock_inv s"
  by (simp_all add: lock_inv_def)

lemma lock_inv_run: "monitor_run s s' \<Longrightarrow> lock_inv s \<Longrightarrow> lock_inv s'"
proof (induction rule: monitor_run.induct)
  case (pop_take s t x xs)
  then show ?case using lock_stay [of s "PopTaken x" t] by (simp add: lock_inv_def)
next
  case (push_insert s t x)
  then show ?case using lock_stay [of s PushUnlock t] by (simp add: lock_inv_def)
next
  case (push_notify s t)
  then have "\<not> in_section (m_at s t)" by simp
  then have "m_owner s \<noteq> Some t" using push_notify(2) unfolding lock_inv_def by blast
  then show ?case using push_notify(2) by (auto simp: lock_inv_def)
qed (auto intro: lock_enter lock_leave)

lemma lock_inv_step: "monitor_step s s' \<Longrightarrow> lock_inv s \<Longrightarrow> lock_inv s'"
  by (induction rule: monitor_step.induct) (auto intro: lock_inv_run lock_stay)

lemma history_inv_run: "monitor_run s s' \<Longrightarrow> history_inv s \<Longrightarrow> history_inv s'"
  by (induction rule: monitor_run.induct) (simp_all add: history_inv_def)

lemma history_inv_step: "monitor_step s s' \<Longrightarrow> history_inv s \<Longrightarrow> history_inv s'"
  by (induction rule: monitor_step.induct) (simp_all add: history_inv_run, simp_all add: history_inv_def)

text \<open>A thread that moves keeps the wake-up fact if it neither starts to wait nor was the notifier.\<close>

lemma wakeup_move:
  assumes "wakeup_inv s" and "p \<noteq> PopWaiting" and "m_at s t \<noteq> PushUnlock" and "m_at s t \<noteq> PushNotify"
    and "m_items s' = [] \<or> m_items s \<noteq> []" and "m_at s' = (m_at s)(t := p)"
  shows "wakeup_inv s'"
proof -
  have "\<exists>u. m_at s u = PopWaiting" if w: "m_at s' u = PopWaiting" for u
  proof -
    have "u \<noteq> t" using w assms(2,6) by (metis fun_upd_same)
    then have "m_at s u = PopWaiting" using w assms(6) by (metis fun_upd_other)
    then show ?thesis by blast
  qed
  moreover have "m_at s' u = m_at s u" if "m_at s u = PushUnlock \<or> m_at s u = PushNotify" for u
    using that assms(3,4,6) by auto
  ultimately show ?thesis using assms(1,5) unfolding wakeup_inv_def by metis
qed

lemma wakeup_notifier:
  "m_at s' t = PushUnlock \<or> m_at s' t = PushNotify \<Longrightarrow> wakeup_inv s'"
  unfolding wakeup_inv_def by blast

lemma wakeup_inv_run: "monitor_run s s' \<Longrightarrow> wakeup_inv s \<Longrightarrow> wakeup_inv s'"
proof (induction rule: monitor_run.induct)
  case (pop_lock s t)
  then show ?case using wakeup_move [of s PopTest t] by auto
next
  case (pop_wait s t)
  then show ?case by (simp add: wakeup_inv_def)
next
  case (pop_take s t x xs)
  then show ?case using wakeup_move [of s "PopTaken x" t] by simp
next
  case (pop_return s t x)
  then show ?case using wakeup_move [of s "Got x" t] by simp
next
  case (push_lock s t x)
  then show ?case using wakeup_move [of s "PushInsert x" t] by simp
next
  case (push_insert s t x)
  show ?case by (rule wakeup_notifier [of _ t]) simp
next
  case (push_unlock s t)
  show ?case by (rule wakeup_notifier [of _ t]) simp
next
  case (push_notify s t)
  show ?case by (simp add: wakeup_inv_def)
qed

lemma wakeup_inv_step: "monitor_step s s' \<Longrightarrow> wakeup_inv s \<Longrightarrow> wakeup_inv s'"
proof (induction rule: monitor_step.induct)
  case (run s s')
  then show ?case by (rule wakeup_inv_run)
next
  case (call_pop s t y)
  then show ?case using wakeup_move [of s PopLock t] by auto
next
  case (call_push s t y x)
  then show ?case using wakeup_move [of s "PushLock x" t] by auto
next
  case (spurious s t)
  then show ?case using wakeup_move [of s PopWoken t] by simp
qed

interpretation mon: invariant_system monitor_init monitor_step monitor_inv
proof unfold_locales
  fix s :: "'a monitor" assume "monitor_init s"
  then show "monitor_inv s"
    by (simp add: monitor_init_def monitor_inv_def lock_inv_def history_inv_def wakeup_inv_def)
next
  fix s s' :: "'a monitor" assume "monitor_inv s" "monitor_step s s'"
  then show "monitor_inv s'"
    unfolding monitor_inv_def using lock_inv_step history_inv_step wakeup_inv_step by blast
qed

text \<open>The owner of the mutex can always take its next step.\<close>

lemma owner_runs:
  assumes "in_section (m_at s t)"
  shows "\<exists>s'. monitor_run s s'"
proof (cases "m_at s t")
  case PopTest
  then show ?thesis
    by (cases "m_items s") (blast intro: monitor_run.pop_wait monitor_run.pop_take)+
next
  case (PopTaken x)
  then show ?thesis by (blast intro: monitor_run.pop_return)
next
  case (PushInsert x)
  then show ?thesis by (blast intro: monitor_run.push_insert)
next
  case PushUnlock
  then show ?thesis by (blast intro: monitor_run.push_unlock)
qed (use assms in auto)

section \<open>Properties\<close>

text \<open>
  The queue is first in, first out: whenever a sequence of operations completes, starting from
  any contents, the values popped followed by what is left are the old contents followed by the
  values pushed, in order.
\<close>

theorem queue_is_fifo:
  assumes "run_ops queue_push queue_pop ops q = Some (out, q')"
  shows "mQueue q @ pushed_of ops = out @ mQueue q'"
  using assms by (rule cq.run_fifo)

theorem queue_is_fifo_witness:
  "\<exists>q'. run_ops queue_push queue_pop [Push 1, Push 2, Pop, Push 3] \<lparr> mQueue = [0 :: nat] \<rparr> = Some ([0], q')
     \<and> mQueue q' = [1, 2, 3]"
proof -
  obtain q' where q': "run_ops queue_push queue_pop [Push 1, Push 2, Pop, Push 3] \<lparr> mQueue = [0 :: nat] \<rparr>
      = Some ([0], q')"
    by (simp add: queue_push_def queue_pop_def)
  show ?thesis using queue_is_fifo [OF q'] q' by simp
qed

text \<open>
  C17. With any number of threads pushing and popping concurrently, and any spurious wake-ups, at
  every moment at most one thread is inside a critical section, and the items taken so far
  followed by the items present are exactly the items inserted so far: no item is lost,
  duplicated or overtaken.
\<close>

theorem monitor_safe:
  assumes "reachable monitor_init monitor_step s"
  shows "(in_section (m_at s t) \<and> in_section (m_at s u) \<longrightarrow> t = u)
    \<and> m_pushed s = m_popped s @ m_items s"
proof -
  have "monitor_inv s" using assms by (rule mon.reachable_inv)
  then show ?thesis by (auto simp: monitor_inv_def lock_inv_def history_inv_def)
qed

text \<open>
  C16. No wake-up is lost. In every reachable state where an item is in the queue and some thread
  is inside \<open>pop\<close> without having taken one, a thread can take a step of the queue's own code; if
  that thread waits on the condition variable, another one is on its way to notify it.
\<close>

theorem monitor_no_lost_wakeup:
  assumes "reachable monitor_init monitor_step s" and "m_items s \<noteq> []"
    and "m_at s t \<in> {PopLock, PopTest, PopWaiting, PopWoken}"
  shows "(\<exists>s'. monitor_run s s')
    \<and> (m_at s t = PopWaiting \<longrightarrow> (\<exists>p. m_at s p = PushUnlock \<or> m_at s p = PushNotify))"
proof -
  have inv: "monitor_inv s" using assms(1) by (rule mon.reachable_inv)
  then have notifier: "\<exists>p. m_at s p = PushUnlock \<or> m_at s p = PushNotify" if "m_at s t = PopWaiting"
    using that assms(2) by (auto simp: monitor_inv_def wakeup_inv_def)
  moreover have "\<exists>s'. monitor_run s s'"
  proof (cases "m_owner s")
    case (Some u)
    then have "in_section (m_at s u)" using inv by (simp add: monitor_inv_def lock_inv_def)
    then show ?thesis by (rule owner_runs)
  next
    case None
    then have "\<not> in_section (m_at s u)" for u using inv by (simp add: monitor_inv_def lock_inv_def)
    then have not: "m_at s u \<noteq> PushUnlock" "m_at s u \<noteq> PopTest" for u by (metis in_section_simps)+
    show ?thesis
    proof (cases "m_at s t = PopWaiting")
      case True
      then show ?thesis using notifier not by (blast intro: monitor_run.push_notify)
    next
      case False
      then have "m_at s t = PopLock \<or> m_at s t = PopWoken" using assms(3) not by auto
      then show ?thesis using None by (blast intro: monitor_run.pop_lock)
    qed
  qed
  ultimately show ?thesis by blast
qed

text \<open>A run: thread 0 waits in \<open>pop\<close>, thread 1 inserts an item and has not notified yet.\<close>

definition mon0 :: "nat monitor" where
  "mon0 = \<lparr> m_items = [], m_owner = None, m_at = (\<lambda>_. Idle), m_pushed = [], m_popped = [] \<rparr>"

definition mon1 :: "nat monitor" where "mon1 = mon0\<lparr>m_at := (\<lambda>_. Idle)(0 := PopLock)\<rparr>"
definition mon2 :: "nat monitor" where
  "mon2 = mon0\<lparr>m_owner := Some 0, m_at := (\<lambda>_. Idle)(0 := PopTest)\<rparr>"
definition mon3 :: "nat monitor" where "mon3 = mon0\<lparr>m_at := (\<lambda>_. Idle)(0 := PopWaiting)\<rparr>"
definition mon4 :: "nat monitor" where
  "mon4 = mon0\<lparr>m_at := (\<lambda>_. Idle)(0 := PopWaiting, 1 := PushLock 7)\<rparr>"
definition mon5 :: "nat monitor" where
  "mon5 = mon0\<lparr>m_owner := Some 1, m_at := (\<lambda>_. Idle)(0 := PopWaiting, 1 := PushInsert 7)\<rparr>"
definition mon_inserted :: "nat monitor" where
  "mon_inserted = \<lparr> m_items = [7], m_owner = Some 1,
     m_at = (\<lambda>_. Idle)(0 := PopWaiting, 1 := PushUnlock), m_pushed = [7], m_popped = [] \<rparr>"

lemmas mon_defs = mon0_def mon1_def mon2_def mon3_def mon4_def mon5_def mon_inserted_def

lemma mon_run_steps:
  "monitor_step mon0 mon1" "monitor_step mon1 mon2" "monitor_step mon2 mon3"
  "monitor_step mon3 mon4" "monitor_step mon4 mon5" "monitor_step mon5 mon_inserted"
  using monitor_step.call_pop [of mon0 0 0]
    monitor_step.run [OF monitor_run.pop_lock, of mon1 0]
    monitor_step.run [OF monitor_run.pop_wait, of mon2 0]
    monitor_step.call_push [of mon3 1 0 7]
    monitor_step.run [OF monitor_run.push_lock, of mon4 1 7]
    monitor_step.run [OF monitor_run.push_insert, of mon5 1 7]
  by (simp_all add: mon_defs)

lemma mon_inserted_reachable: "reachable monitor_init monitor_step mon_inserted"
proof -
  have "monitor_init mon0" by (simp add: monitor_init_def mon0_def)
  then show ?thesis
    using mon_run_steps by (meson reachable.start reachable.advance)
qed

theorem monitor_safe_witness:
  "m_pushed mon_inserted = m_popped mon_inserted @ m_items mon_inserted \<and> m_pushed mon_inserted = [7]"
  using monitor_safe [OF mon_inserted_reachable] by (simp add: mon_inserted_def)

theorem monitor_no_lost_wakeup_witness:
  "m_at mon_inserted 0 = PopWaiting \<and> (\<exists>s'. monitor_run mon_inserted s')
     \<and> (\<exists>p. m_at mon_inserted p = PushUnlock \<or> m_at mon_inserted p = PushNotify)"
  using monitor_no_lost_wakeup [OF mon_inserted_reachable, of 0] by (simp add: mon_inserted_def)

end
