(* ===== verification/AudioHandler.thy ===== *)
theory AudioHandler
  imports Packets FileLists ConcQueue
begin

text \<open>
  Server/AudioServerHandler.h, Server/AudioServerHandler.cpp and the base class
  Server/InputHandler.h: the handler that answers a request for the list of songs with packets
  full of songs, and a request for a song with the header and the data of its file.
  The send queue is reached through a weak pointer; whether the \<open>k\<close>-th attempt to lock it succeeds
  is the argument \<open>alive\<close>. \<open>junk k\<close> is the indeterminate contents of the \<open>k\<close>-th uninitialised
  object of a request.
\<close>

section \<open>Input handlers\<close>

definition listensFor :: "Type \<Rightarrow> Type \<Rightarrow> bool" where
  "listensFor mListenFor ty \<longleftrightarrow> type_and ty mListenFor \<noteq> 0"

type_synonym ClientPacket = "addr \<times> Packet"
type_synonym send_queue = "ClientPacket ConcurrentQueue"

definition lock_push :: "bool \<Rightarrow> ClientPacket \<Rightarrow> send_queue \<Rightarrow> send_queue" where
  "lock_push locked cp q = (if locked then queue_push cp q else q)"

lemma lock_push_contents: "mQueue (lock_push True cp q) = mQueue q @ [cp]"
  by (simp add: lock_push_def cq.push_contents)

section \<open>The list of songs\<close>

text \<open>
  The state of the loop: the store with the array that is being filled, the write position in it,
  the bytes used, the queue, and how many packets were started.
\<close>

record list_state =
  ls_heap :: heap
  ls_queue :: send_queue
  ls_array :: addr
  ls_pointer :: nat
  ls_used :: cint
  ls_count :: nat

definition flush_list ::
    "(nat \<Rightarrow> nat \<Rightarrow> byte) \<Rightarrow> addr \<Rightarrow> cint \<Rightarrow> list_state \<Rightarrow> list_state res" where
  "flush_list junk client i s =
     res_bind (heap_load (ls_array s) maxPacketSize (ls_heap s)) (\<lambda>bytes.
     res_bind (Packet_ctor (junk (2 * ls_count s)) (type_val FILELIST) (ls_used s) i (Some bytes)) (\<lambda>pk.
     res_bind (heap_delete (ls_array s) (ls_heap s)) (\<lambda>h1.
     let q = queue_push (client, pk) (ls_queue s);
         (a, h2) = heap_new maxPacketSize (junk (2 * ls_count s + 1)) h1
     in Inr \<lparr> ls_heap = h2, ls_queue = q, ls_array = a, ls_pointer = 0, ls_used = 0,
              ls_count = Suc (ls_count s) \<rparr>)))"

text \<open>The loop variable \<open>file\<close> copies the pair, and \<open>type\<close> copies the song in it.\<close>

definition append_song ::
    "(nat \<Rightarrow> byte) \<Rightarrow> (nat \<Rightarrow> byte) \<Rightarrow> Song \<Rightarrow> list_state \<Rightarrow> list_state res" where
  "append_song junk1 junk2 song s =
     res_bind (Song_copy junk1 song) (\<lambda>file_first.
     res_bind (Song_copy junk2 file_first) (\<lambda>type.
     res_bind (heap_store (ls_array s) (ls_pointer s) (song_image type) (ls_heap s)) (\<lambda>h.
     Inr (s\<lparr>ls_heap := h, ls_pointer := ls_pointer s + sizeof_Song,
            ls_used := ls_used s + of_nat sizeof_Song\<rparr>))))"

text \<open>
  The test for room is made in \<open>size_t\<close>. If the queue is gone when a full packet has to be
  pushed, the loop is left.
\<close>

fun list_loop ::
    "(nat \<Rightarrow> nat \<Rightarrow> byte) \<Rightarrow> (nat \<Rightarrow> nat \<Rightarrow> nat \<Rightarrow> byte) \<Rightarrow> (nat \<Rightarrow> bool) \<Rightarrow> addr \<Rightarrow> cint \<Rightarrow> nat \<Rightarrow>
      (Song \<times> str) list \<Rightarrow> list_state \<Rightarrow> list_state res" where
  "list_loop junk sjunk alive client i k [] s = Inr s"
| "list_loop junk sjunk alive client i k ((song, path) # files) s =
     (if of_nat maxPacketSize < (scast (ls_used s) :: size_t) + of_nat sizeof_Song then
        (if alive (ls_count s) then
           res_bind (flush_list junk client i s) (\<lambda>s1.
           res_bind (append_song (sjunk 1 k) (sjunk 2 k) song s1) (\<lambda>s2.
           list_loop junk sjunk alive client i (Suc k) files s2))
         else Inr s)
      else
        res_bind (append_song (sjunk 1 k) (sjunk 2 k) song s) (\<lambda>s2.
        list_loop junk sjunk alive client i (Suc k) files s2))"

definition requestFileList ::
    "(nat \<Rightarrow> nat \<Rightarrow> byte) \<Rightarrow> (nat \<Rightarrow> nat \<Rightarrow> nat \<Rightarrow> byte) \<Rightarrow> (nat \<Rightarrow> bool) \<Rightarrow> addr \<Rightarrow> cint \<Rightarrow> Song FileList \<Rightarrow>
      heap \<Rightarrow> send_queue \<Rightarrow> (heap \<times> send_queue) res" where
  "requestFileList junk sjunk alive client i files h q =
     (let (a, h1) = heap_new maxPacketSize (junk 0) h in
      res_bind (get_files (song_copier (sjunk 0)) files) (\<lambda>all_files.
      res_bind (list_loop (\<lambda>n. junk (Suc n)) sjunk alive client i 0 all_files
        \<lparr> ls_heap = h1, ls_queue = q, ls_array = a, ls_pointer = 0, ls_used = 0, ls_count = 0 \<rparr>) (\<lambda>s.
      res_bind (if alive (ls_count s) then
          res_bind (heap_load (ls_array s) maxPacketSize (ls_heap s)) (\<lambda>bytes.
          res_bind (Packet_ctor (junk (Suc (2 * ls_count s))) (type_val FILELIST) (ls_used s) i (Some bytes)) (\<lambda>pk.
          Inr (queue_push (client, pk) (ls_queue s))))
        else Inr (ls_queue s)) (\<lambda>q'.
      res_bind (heap_delete (ls_array s) (ls_heap s)) (\<lambda>h'.
      Inr (h', q'))))))"

subsection \<open>What the loop keeps\<close>

text \<open>
  While the loop runs the array is the only block beyond those of the caller (\<open>base\<close>), and its
  used part is the images of the songs written since the last packet, at most seven.
\<close>

definition list_shape :: "(addr \<Rightarrow> byte list option) \<Rightarrow> list_state \<Rightarrow> Song list \<Rightarrow> bool" where
  "list_shape base s cur \<longleftrightarrow> heap_wf (ls_heap s) \<and> ls_array s \<noteq> 0 \<and> base (ls_array s) = None
     \<and> (\<exists>blk. hp_cells (ls_heap s) = base(ls_array s \<mapsto> blk) \<and> length blk = 1024
          \<and> take (132 * length cur) blk = concat (map song_image cur))
     \<and> length cur \<le> 7 \<and> ls_pointer s = 132 * length cur \<and> ls_used s = of_nat (132 * length cur)
     \<and> list_all song_ok cur"

definition songs_packet :: "cint \<Rightarrow> Song list \<Rightarrow> Packet \<Rightarrow> bool" where
  "songs_packet i g pk \<longleftrightarrow> packet_wf pk \<and> pkt_type pk = type_val FILELIST \<and> pkt_id pk = i
     \<and> payload pk = concat (map song_image g) \<and> unat (pkt_size pk) = 132 * length g"

lemma used_small:
  assumes "m \<le> 7"
  shows "sint (of_nat (132 * m) :: cint) = 132 * int m" and "unat (of_nat (132 * m) :: cint) = 132 * m"
proof -
  have "132 * m < 2147483648" using assms by simp
  from sint_of_nat32 [OF this] show "sint (of_nat (132 * m) :: cint) = 132 * int m" by simp
  then have "0 \<le> sint (of_nat (132 * m) :: cint)" by simp
  from nat_sint [OF this] \<open>sint (of_nat (132 * m) :: cint) = 132 * int m\<close>
  show "unat (of_nat (132 * m) :: cint) = 132 * m" by simp
qed

lemma room_test:
  assumes "m \<le> 7"
  shows "of_nat maxPacketSize < (scast (of_nat (132 * m) :: cint) :: size_t) + of_nat sizeof_Song
    \<longleftrightarrow> m = 7"
proof -
  have u: "unat (scast (of_nat (132 * m) :: cint) :: size_t) = 132 * m"
    using used_small [OF assms] by (subst unat_scast64) simp_all
  have "unat ((scast (of_nat (132 * m) :: cint) :: size_t) + 132) = 132 * m + 132"
    using u assms by (simp add: unat_word_ariths)
  then show ?thesis using assms by (simp add: word_less_nat_alt) linarith
qed

lemma append_song_spec:
  assumes shape: "list_shape base s cur" and m: "length cur < 7" and song: "song_ok song"
  shows "\<exists>t s'. append_song junk1 junk2 song s = Inr s' \<and> song_ok t \<and> song_key t = song_key song
    \<and> list_shape base s' (cur @ [t]) \<and> ls_queue s' = ls_queue s \<and> ls_count s' = ls_count s"
proof -
  obtain t1 where t1: "Song_copy junk1 song = Inr t1" "song_ok t1" "song_key t1 = song_key song"
    using Song_copy_ok [OF song] by blast
  obtain t where t: "Song_copy junk2 t1 = Inr t" "song_ok t" "song_key t = song_key song"
    using Song_copy_ok [OF t1(2)] t1(3) by metis
  obtain blk where blk: "hp_cells (ls_heap s) = base(ls_array s \<mapsto> blk)" "length blk = 1024"
      "take (132 * length cur) blk = concat (map song_image cur)"
    using shape by (auto simp: list_shape_def)
  have cl: "length (concat (map song_image cur)) = 132 * length cur"
    using arg_cong [OF blk(3), of length] blk(2) m by simp
  have s: "heap_wf (ls_heap s)" "ls_pointer s = 132 * length cur" "ls_array s \<noteq> 0"
      "base (ls_array s) = None" "ls_used s = of_nat (132 * length cur)" "list_all song_ok cur"
    using shape by (auto simp: list_shape_def)
  have img: "length (song_image t) = 132" using song.enc_length [OF song_ok_shape [OF t(2)]] by simp
  let ?blk = "take (132 * length cur) blk @ song_image t @ drop (132 * length cur + 132) blk"
  obtain h where h: "heap_store (ls_array s) (132 * length cur) (song_image t) (ls_heap s) = Inr h"
      "hp_cells h = (hp_cells (ls_heap s))(ls_array s \<mapsto> ?blk)" "heap_wf h"
    using hp.put_ok [OF s(1), of "ls_array s" blk "132 * length cur" "song_image t"] blk(1,2) img m
    by auto
  let ?s = "s\<lparr>ls_heap := h, ls_pointer := ls_pointer s + sizeof_Song,
            ls_used := ls_used s + of_nat sizeof_Song\<rparr>"
  have "take (132 * length (cur @ [t])) ?blk = concat (map song_image (cur @ [t]))"
    using blk m img cl by simp
  moreover have "length ?blk = 1024" using blk(2) img m by simp
  ultimately have "list_shape base ?s (cur @ [t])"
    using s h(2,3) blk(1) t(2) m by (auto simp: list_shape_def algebra_simps)
  then show ?thesis using t1 t h(1) s(2) by (auto simp: append_song_def)
qed

lemma songs_packet_ctor:
  assumes "length cur \<le> 7" and "length blk = 1024"
    and "take (132 * length cur) blk = concat (map song_image cur)"
  shows "\<exists>pk. Packet_ctor junk (type_val FILELIST) (of_nat (132 * length cur)) i (Some blk) = Inr pk
    \<and> songs_packet i cur pk"
proof -
  note u = used_small [OF assms(1)]
  have cl: "length (concat (map song_image cur)) = 132 * length cur"
    using arg_cong [OF assms(3), of length] assms(1,2) by simp
  have "Packet_ctor junk (type_val FILELIST) (of_nat (132 * length cur)) i (Some blk) =
    Inr \<lparr> pkt_size = of_nat (132 * length cur), pkt_type = type_val FILELIST, pkt_id = i,
      packetData = take (132 * length cur) blk @ drop (132 * length cur) (new_bytes maxPacketSize junk) \<rparr>"
    using assms u by (subst Packet_ctor_ok) (simp_all del: of_nat_mult)
  then show ?thesis using assms u cl Packet_ctor_wf
    by (auto simp: songs_packet_def payload_def simp del: of_nat_mult)
qed

lemma flush_list_spec:
  assumes shape: "list_shape base s cur"
  shows "\<exists>pk s'. flush_list junk client i s = Inr s' \<and> songs_packet i cur pk
    \<and> list_shape base s' [] \<and> mQueue (ls_queue s') = mQueue (ls_queue s) @ [(client, pk)]
    \<and> ls_count s' = Suc (ls_count s)"
proof -
  obtain blk where blk: "hp_cells (ls_heap s) = base(ls_array s \<mapsto> blk)" "length blk = 1024"
      "take (132 * length cur) blk = concat (map song_image cur)"
    using shape by (auto simp: list_shape_def)
  have s: "heap_wf (ls_heap s)" "ls_array s \<noteq> 0" "base (ls_array s) = None"
      "ls_used s = of_nat (132 * length cur)" "length cur \<le> 7"
    using shape by (auto simp: list_shape_def)
  have load: "heap_load (ls_array s) maxPacketSize (ls_heap s) = Inr blk"
    using blk by (simp add: heap_load_ok)
  obtain pk where pk: "Packet_ctor (junk (2 * ls_count s)) (type_val FILELIST) (ls_used s) i (Some blk) = Inr pk"
      "songs_packet i cur pk"
    using songs_packet_ctor [OF s(5) blk(2,3)] s(4) by metis
  obtain h1 where h1: "heap_delete (ls_array s) (ls_heap s) = Inr h1" "heap_wf h1"
      "hp_cells h1 = (hp_cells (ls_heap s))(ls_array s := None)"
    using hp.release_ok [OF s(1), of "ls_array s"] blk(1) s(2) by auto
  have base: "hp_cells h1 = base" using h1(3) blk(1) s(3) by (auto simp: fun_upd_idem)
  obtain a h2 where new: "heap_new maxPacketSize (junk (2 * ls_count s + 1)) h1 = (a, h2)" by fastforce
  note n = hp.alloc_fresh [OF h1(2) new] hp.alloc_blocks [OF h1(2) new]
  have "list_shape base \<lparr> ls_heap = h2, ls_queue = queue_push (client, pk) (ls_queue s), ls_array = a,
      ls_pointer = 0, ls_used = 0, ls_count = Suc (ls_count s) \<rparr> []"
    using n base by (simp add: list_shape_def exI [of _ "new_bytes 1024 (junk (2 * ls_count s + 1))"])
  then show ?thesis using load pk h1(1) new
    by (auto simp: flush_list_def cq.push_contents)
qed

text \<open>
  The loop: it never fails, keeps the shape, and when the queue can be locked it has pushed full
  packets of seven songs, which with the songs still in the array are copies of all songs.
\<close>

definition pushed_groups ::
    "addr \<Rightarrow> cint \<Rightarrow> send_queue \<Rightarrow> send_queue \<Rightarrow> Song list list \<Rightarrow> bool" where
  "pushed_groups client i q q' groups \<longleftrightarrow> (\<exists>pks. mQueue q' = mQueue q @ map (Pair client) pks
     \<and> list_all2 (songs_packet i) groups pks)"

lemma pushed_groups_Nil: "pushed_groups client i q q []"
  by (simp add: pushed_groups_def)

lemma pushed_groups_Cons:
  assumes "mQueue q1 = mQueue q @ [(client, pk)]" and "songs_packet i g pk"
    and "pushed_groups client i q1 q' groups"
  shows "pushed_groups client i q q' (g # groups)"
proof -
  obtain pks where "mQueue q' = mQueue q1 @ map (Pair client) pks" "list_all2 (songs_packet i) groups pks"
    using assms(3) by (auto simp: pushed_groups_def)
  then show ?thesis using assms(1,2)
    by (auto simp: pushed_groups_def intro!: exI [of _ "pk # pks"])
qed

lemma pushed_groups_snoc:
  assumes "pushed_groups client i q q1 groups" and "songs_packet i g pk"
  shows "pushed_groups client i q (queue_push (client, pk) q1) (groups @ [g])"
proof -
  obtain pks where "mQueue q1 = mQueue q @ map (Pair client) pks" "list_all2 (songs_packet i) groups pks"
    using assms(1) by (auto simp: pushed_groups_def)
  then show ?thesis using assms(2)
    by (auto simp: pushed_groups_def cq.push_contents list_all2_appendI intro!: exI [of _ "pks @ [pk]"])
qed

text \<open>
  What the loop has done if the client was there all the time: the songs in \<open>cur\<close> and those of \<open>files\<close>, in
  order, are now in full groups of seven and in \<open>cur'\<close>.
\<close>

definition grouped :: "(nat \<Rightarrow> bool) \<Rightarrow> Song list \<Rightarrow> (Song \<times> str) list \<Rightarrow> Song list list \<Rightarrow> Song list \<Rightarrow> bool" where
  "grouped alive cur files groups cur' \<longleftrightarrow> ((\<forall>n. alive n) \<longrightarrow> (\<exists>types.
     concat groups @ cur' = cur @ types \<and> map song_key types = map (song_key \<circ> fst) files
     \<and> list_all song_ok types \<and> (\<forall>g \<in> set groups. length g = 7)
     \<and> (cur' = [] \<longrightarrow> cur = [] \<and> files = [])))"

lemma grouped_dead: "\<not> alive n \<Longrightarrow> grouped alive cur files groups cur'"
  by (auto simp: grouped_def)

lemma grouped_next:
  "song_ok t \<Longrightarrow> song_key t = song_key x \<Longrightarrow> grouped alive (cur @ [t]) files groups cur' \<Longrightarrow> grouped alive cur ((x, p) # files) groups cur'"
  unfolding grouped_def by (fastforce intro: exI [of _ "t # ts" for ts])

lemma grouped_full:
  assumes "length cur = 7" and "song_ok t" and "song_key t = song_key x" and "grouped alive [t] files groups cur'"
  shows "grouped alive cur ((x, p) # files) (cur # groups) cur'"
proof -
  have "\<exists>types. concat (cur # groups) @ cur' = cur @ types \<and> map song_key types = map (song_key \<circ> fst) ((x, p) # files)
      \<and> list_all song_ok types \<and> (\<forall>g \<in> set (cur # groups). length g = 7) \<and> (cur' = [] \<longrightarrow> cur = [] \<and> (x, p) # files = [])"
    if "\<forall>n. alive n"
  proof -
    obtain types where "concat groups @ cur' = [t] @ types" "map song_key types = map (song_key \<circ> fst) files"
        "list_all song_ok types" "\<forall>g \<in> set groups. length g = 7" "cur' \<noteq> []"
      using assms(4) \<open>\<forall>n. alive n\<close> by (auto simp: grouped_def)
    then show ?thesis using assms(1-3) by (intro exI [of _ "t # types"]) simp
  qed
  then show ?thesis by (simp add: grouped_def)
qed

lemma list_loop_spec:
  assumes "list_shape base s cur" and "\<forall>(x, p) \<in> set files. song_ok x"
  shows "\<exists>s' cur'. list_loop junk sjunk alive client i k files s = Inr s' \<and> list_shape base s' cur'
    \<and> (\<exists>groups. pushed_groups client i (ls_queue s) (ls_queue s') groups
      \<and> grouped alive cur files groups cur')"
  using assms
proof (induction files arbitrary: k s cur)
  case Nil
  then show ?case
    by (intro exI [of _ s] exI [of _ cur]) (auto intro!: pushed_groups_Nil simp: grouped_def)
next
  case (Cons f files)
  obtain x p where f: "f = (x, p)" by (cases f)
  have x: "song_ok x" and files: "\<forall>(x, p) \<in> set files. song_ok x" using Cons.prems(2) f by auto
  have m: "length cur \<le> 7" "ls_used s = of_nat (132 * length cur)"
    using Cons.prems(1) by (auto simp: list_shape_def)
  note room = room_test [OF m(1), folded m(2)]
  show ?case
  proof (cases "length cur = 7")
    case False
    then have "length cur < 7" using m(1) by simp
    from append_song_spec [OF Cons.prems(1) this x, of "sjunk 1 k" "sjunk 2 k"] obtain t s1 where
      a: "append_song (sjunk 1 k) (sjunk 2 k) x s = Inr s1" "song_ok t" "song_key t = song_key x"
        "list_shape base s1 (cur @ [t])" "ls_queue s1 = ls_queue s"
      by blast
    have "list_loop junk sjunk alive client i k (f # files) s =
        list_loop junk sjunk alive client i (Suc k) files s1"
      using False room a(1) f by (simp del: maxPacketSize_val sizeof_Song_val)
    then show ?thesis
      using Cons.IH [OF a(4) files, of "Suc k"] a(2,3,5) f grouped_next by metis
  next
    case full: True
    show ?thesis
    proof (cases "alive (ls_count s)")
      case True
      from flush_list_spec [OF Cons.prems(1), of junk client i] obtain pk s1 where
        fl: "flush_list junk client i s = Inr s1" "songs_packet i cur pk" "list_shape base s1 []"
          "mQueue (ls_queue s1) = mQueue (ls_queue s) @ [(client, pk)]"
        by blast
      from append_song_spec [OF fl(3) _ x, of "sjunk 1 k" "sjunk 2 k"] obtain t s2 where
        a: "append_song (sjunk 1 k) (sjunk 2 k) x s1 = Inr s2" "song_ok t" "song_key t = song_key x"
          "list_shape base s2 [t]" "ls_queue s2 = ls_queue s1"
        by auto
      have step: "list_loop junk sjunk alive client i k (f # files) s =
          list_loop junk sjunk alive client i (Suc k) files s2"
        using full room fl(1) a(1) f True by (simp del: maxPacketSize_val sizeof_Song_val)
      obtain s' cur' groups where r: "list_loop junk sjunk alive client i (Suc k) files s2 = Inr s'"
          "list_shape base s' cur'"
        and c: "pushed_groups client i (ls_queue s2) (ls_queue s') groups"
          "grouped alive [t] files groups cur'"
        using Cons.IH [OF a(4) files, of "Suc k"] by blast
      have "pushed_groups client i (ls_queue s) (ls_queue s') (cur # groups)"
        using pushed_groups_Cons [OF fl(4,2)] c(1) a(5) by simp
      moreover have "grouped alive cur (f # files) (cur # groups) cur'"
        unfolding f by (rule grouped_full [OF full a(2,3) c(2)])
      ultimately show ?thesis unfolding step using r by blast
    next
      case False
      then have "list_loop junk sjunk alive client i k (f # files) s = Inr s"
        using full room f by (simp del: maxPacketSize_val sizeof_Song_val)
      then show ?thesis using Cons.prems(1) False pushed_groups_Nil grouped_dead [of alive "ls_count s"] by blast
    qed
  qed
qed

subsection \<open>The whole answer\<close>

text \<open>
  The reading of a packet on the other side: its payload as an array of song structures.
\<close>

definition songs_in :: "Packet \<Rightarrow> Song list" where
  "songs_in pk = map (\<lambda>j. song_of_image (take sizeof_Song (drop (j * sizeof_Song) (payload pk))))
     [0..<unat (pkt_size pk) div sizeof_Song]"

lemma songs_in_packet:
  assumes "songs_packet i g pk" and "list_all song_ok g"
  shows "songs_in pk = g"
proof (rule nth_equalityI)
  have shapes: "list_all song_shape g" using assms(2) song_ok_shape by (auto simp: list_all_iff)
  have n: "unat (pkt_size pk) div sizeof_Song = length g" using assms(1) by (simp add: songs_packet_def)
  then show "length (songs_in pk) = length g" by (simp add: songs_in_def)
  fix j assume "j < length (songs_in pk)"
  then have "j < length g" using n by (simp add: songs_in_def)
  then show "songs_in pk ! j = g ! j"
    using n song.dec_slot [OF shapes, of j] assms(1) by (simp add: songs_in_def songs_packet_def)
qed

lemma songs_in_packets:
  "list_all2 (songs_packet i) groups pks \<Longrightarrow> list_all song_ok (concat groups) \<Longrightarrow>
     map songs_in pks = groups"
  by (induction groups pks rule: list_all2_induct) (simp_all add: songs_in_packet)

lemma length_concat_const: "\<forall>g \<in> set gs. length g = n \<Longrightarrow> length (concat gs) = n * length gs"
  by (induction gs) simp_all

lemma group_count: "m \<le> 7 \<Longrightarrow> (m = 0 \<longrightarrow> k = 0) \<Longrightarrow> Suc k = max 1 ((7 * k + m + 6) div (7::nat))"
  by (cases m) (auto simp: max_def)

lemma requestFileList_run:
  assumes wf: "heap_wf h" and ok: "song_list_ok files"
  shows "\<exists>h' q'. requestFileList junk sjunk alive client i files h q = Inr (h', q')
    \<and> heap_wf h' \<and> hp_cells h' = hp_cells h \<and> (\<exists>gs. pushed_groups client i q q' gs)
    \<and> ((\<forall>n. alive n) \<longrightarrow> (\<exists>groups cur types.
         pushed_groups client i q q' (groups @ [cur])
         \<and> concat groups @ cur = types \<and> map song_key types = map (song_key \<circ> fst) (mFileMap files)
         \<and> list_all song_ok types \<and> (\<forall>g \<in> set groups. length g = 7) \<and> length cur \<le> 7
         \<and> (cur = [] \<longrightarrow> groups = [])))"
proof -
  obtain a h1 where new: "heap_new maxPacketSize (junk 0) h = (a, h1)" by fastforce
  note a = hp.alloc_fresh [OF wf new] hp.alloc_blocks [OF wf new]
  obtain fs where fs: "get_files (song_copier (sjunk 0)) files = Inr fs" "\<forall>(x, p) \<in> set fs. song_ok x"
      "map (song_key \<circ> fst) fs = map (song_key \<circ> fst) (mFileMap files)"
    using songs.copy_files_good [of "mFileMap files" "sjunk 0" 0] ok
    by (auto simp: get_files_def song_list_ok_def)
  let ?s0 = "\<lparr> ls_heap = h1, ls_queue = q, ls_array = a, ls_pointer = 0, ls_used = 0, ls_count = 0 \<rparr>"
  let ?loop = "list_loop (\<lambda>n. junk (Suc n)) sjunk alive client i 0 fs ?s0"
  have "list_shape (hp_cells h) ?s0 []"
    using a by (simp add: list_shape_def exI [of _ "new_bytes 1024 (junk 0)"])
  from list_loop_spec [OF this fs(2), of "\<lambda>n. junk (Suc n)" sjunk alive client i 0]
  obtain s' cur groups where l: "?loop = Inr s'" "list_shape (hp_cells h) s' cur"
      and pg: "pushed_groups client i q (ls_queue s') groups"
      and g: "(\<forall>n. alive n) \<longrightarrow> (\<exists>types. concat groups @ cur = types \<and> map song_key types = map (song_key \<circ> fst) fs
         \<and> list_all song_ok types \<and> (\<forall>g \<in> set groups. length g = 7) \<and> (cur = [] \<longrightarrow> fs = []))"
    by (auto simp: grouped_def)
  obtain blk where blk: "hp_cells (ls_heap s') = (hp_cells h)(ls_array s' \<mapsto> blk)" "length blk = 1024"
      "take (132 * length cur) blk = concat (map song_image cur)"
    using l(2) by (auto simp: list_shape_def)
  have s': "heap_wf (ls_heap s')" "ls_array s' \<noteq> 0" "hp_cells h (ls_array s') = None"
      "ls_used s' = of_nat (132 * length cur)" "length cur \<le> 7"
    using l(2) by (auto simp: list_shape_def)
  obtain pk where pk: "Packet_ctor (junk (Suc (2 * ls_count s'))) (type_val FILELIST) (ls_used s') i (Some blk)
        = Inr pk" "songs_packet i cur pk"
    using songs_packet_ctor [OF s'(5) blk(2,3)] s'(4) by metis
  have load: "heap_load (ls_array s') maxPacketSize (ls_heap s') = Inr blk"
    using blk by (simp add: heap_load_ok)
  obtain h' where del: "heap_delete (ls_array s') (ls_heap s') = Inr h'" "heap_wf h'"
      "hp_cells h' = (hp_cells (ls_heap s'))(ls_array s' := None)"
    using hp.release_ok [OF s'(1), of "ls_array s'"] blk(1) s'(2) by auto
  have cells: "hp_cells h' = hp_cells h" using del(3) blk(1) s'(3) by (auto simp: fun_upd_idem)
  let ?q = "if alive (ls_count s') then queue_push (client, pk) (ls_queue s') else ls_queue s'"
  have run: "requestFileList junk sjunk alive client i files h q = Inr (h', ?q)"
    using new fs(1) l(1) load pk(1) del(1) by (simp add: requestFileList_def del: maxPacketSize_val)
  have "\<exists>groups cur types. pushed_groups client i q ?q (groups @ [cur])
         \<and> concat groups @ cur = types \<and> map song_key types = map (song_key \<circ> fst) (mFileMap files)
         \<and> list_all song_ok types \<and> (\<forall>g \<in> set groups. length g = 7) \<and> length cur \<le> 7
         \<and> (cur = [] \<longrightarrow> groups = [])" if al: "\<forall>n. alive n"
  proof -
    have gr: "pushed_groups client i q (ls_queue s') groups"
        "map song_key (concat groups @ cur) = map (song_key \<circ> fst) fs"
        "list_all song_ok (concat groups @ cur)" "\<forall>g \<in> set groups. length g = 7" "cur = [] \<longrightarrow> fs = []"
      using pg mp [OF g al] by auto
    have "cur = [] \<longrightarrow> groups = []"
      using gr(2,4,5) by (cases groups) auto
    moreover have "pushed_groups client i q ?q (groups @ [cur])"
      using pushed_groups_snoc [OF gr(1) pk(2)] al by simp
    moreover have "map song_key (concat groups @ cur) = map (song_key \<circ> fst) (mFileMap files)"
      using gr(2) fs(3) by simp
    ultimately show ?thesis using gr(3,4) s'(5) by blast
  qed
  moreover have "\<exists>gs. pushed_groups client i q ?q gs"
    using pg pushed_groups_snoc [OF pg pk(2)] by auto
  ultimately show ?thesis using run del(2) cells by auto
qed

lemma file_list_packets:
  assumes "heap_wf h" and "song_list_ok files" and "\<forall>n. alive n"
  shows "\<exists>h' q' pks. requestFileList junk sjunk alive client i files h q = Inr (h', q')
    \<and> hp_cells h' = hp_cells h
    \<and> mQueue q' = mQueue q @ map (Pair client) pks
    \<and> length pks = max 1 ((length (mFileMap files) + 6) div 7)
    \<and> (\<forall>pk \<in> set pks. packet_wf pk \<and> pkt_type pk = type_val FILELIST \<and> pkt_id pk = i
         \<and> unat (pkt_size pk) = sizeof_Song * length (songs_in pk))
    \<and> map song_key (concat (map songs_in pks)) = map (song_key \<circ> fst) (mFileMap files)
    \<and> list_all song_ok (concat (map songs_in pks))"
proof -
  obtain h' q' groups cur where r: "requestFileList junk sjunk alive client i files h q = Inr (h', q')"
      "hp_cells h' = hp_cells h" "pushed_groups client i q q' (groups @ [cur])"
      "map song_key (concat groups @ cur) = map (song_key \<circ> fst) (mFileMap files)"
      "list_all song_ok (concat groups @ cur)" "\<forall>g \<in> set groups. length g = 7" "length cur \<le> 7"
      "cur = [] \<longrightarrow> groups = []"
    using requestFileList_run [OF assms(1,2), of junk sjunk alive client i q] assms(3) by blast
  obtain pks where pks: "mQueue q' = mQueue q @ map (Pair client) pks"
      "list_all2 (songs_packet i) (groups @ [cur]) pks"
    using r(3) by (auto simp: pushed_groups_def)
  have dec: "map songs_in pks = groups @ [cur]"
    using songs_in_packets [OF pks(2)] r(5) by simp
  have "length (mFileMap files) = 7 * length groups + length cur"
    using arg_cong [OF r(4), of length] length_concat_const [OF r(6)] by simp
  then have "length pks = max 1 ((length (mFileMap files) + 6) div 7)"
    using group_count [of "length cur" "length groups"] r(7,8) list_all2_lengthD [OF pks(2)] by simp
  moreover have "\<forall>pk \<in> set pks. packet_wf pk \<and> pkt_type pk = type_val FILELIST \<and> pkt_id pk = i
         \<and> unat (pkt_size pk) = sizeof_Song * length (songs_in pk)"
    using pks(2) by (auto simp: in_set_conv_nth list_all2_conv_all_nth songs_packet_def songs_in_def)
  ultimately show ?thesis using r(1,2,4,5) pks(1) dec by auto
qed

section \<open>Properties of the list of songs\<close>

text \<open>
  C23. The answer to a request for the list. When the queue can be locked, answering pushes one
  packet for every seven songs (one empty packet for an empty list) behind what the queue held,
  all of type FILELIST and with the id of the request, each well-formed and with its size a whole
  number of songs. Reading the payloads as arrays of songs gives back all songs of the list in
  order, all with terminated names. The temporary arrays are released: the store holds what it held.
\<close>

theorem file_list_answer:
  assumes "heap_wf h" and "song_list_ok files" and "\<forall>n. alive n"
  shows "\<exists>h' q' pks. requestFileList junk sjunk alive client i files h q = Inr (h', q')
    \<and> hp_cells h' = hp_cells h
    \<and> mQueue q' = mQueue q @ map (Pair client) pks
    \<and> length pks = max 1 ((length (mFileMap files) + 6) div 7)
    \<and> (\<forall>pk \<in> set pks. packet_wf pk \<and> pkt_type pk = type_val FILELIST \<and> pkt_id pk = i
         \<and> unat (pkt_size pk) = sizeof_Song * length (songs_in pk))
    \<and> map song_key (concat (map songs_in pks)) = map (song_key \<circ> fst) (mFileMap files)
    \<and> list_all song_ok (concat (map songs_in pks))"
  by (rule file_list_packets [OF assms])

theorem file_list_answer_witness:
  "\<exists>h' q' pk. requestFileList (\<lambda>_ _. 0) (\<lambda>_ _ _. 0) (\<lambda>_. True) 9 5
        \<lparr> mFileLoc = [], mFileExtn = [], mFileMap = [(song_a, [1]), (song_b, [2])] \<rparr>
        heap_empty \<lparr> mQueue = [] \<rparr> = Inr (h', q')
      \<and> mQueue q' = [(9, pk)] \<and> map song_key (songs_in pk) = [song_key song_a, song_key song_b]"
  using file_list_answer [OF heap_empty_wf, of "\<lparr> mFileLoc = [], mFileExtn = [],
      mFileMap = [(song_a, [1]), (song_b, [2])] \<rparr>" "\<lambda>_. True" "\<lambda>_ _. 0" "\<lambda>_ _ _. 0" 9 5 "\<lparr> mQueue = [] \<rparr>"]
    sample_songs
  by (auto simp: song_list_ok_def length_Suc_conv)

text \<open>
  Whatever becomes of the send queue meanwhile, answering a request for the list never faults
  and releases every array it allocated: the store holds the blocks it held before.
\<close>

theorem file_list_never_leaks:
  assumes "heap_wf h" and "song_list_ok files"
  shows "\<exists>h' q'. requestFileList junk sjunk alive client i files h q = Inr (h', q')
    \<and> heap_wf h' \<and> hp_cells h' = hp_cells h"
  using requestFileList_run [OF assms, of junk sjunk alive client i q] by blast

theorem file_list_never_leaks_witness:
  "\<exists>h' q'. requestFileList (\<lambda>_ _. 0) (\<lambda>_ _ _. 0) (\<lambda>n. n = 1) 9 5
        \<lparr> mFileLoc = [], mFileExtn = [], mFileMap = replicate 20 (song_a, [1]) \<rparr>
        heap_empty \<lparr> mQueue = [] \<rparr> = Inr (h', q') \<and> hp_cells h' = Map.empty"
  using file_list_never_leaks [OF heap_empty_wf, of "\<lparr> mFileLoc = [], mFileExtn = [],
      mFileMap = replicate 20 (song_a, [1]) \<rparr>" "\<lambda>_ _. 0" "\<lambda>_ _ _. 0" "\<lambda>n. n = 1" 9 5 "\<lparr> mQueue = [] \<rparr>"]
    sample_songs
  by (auto simp: song_list_ok_def heap_empty_def)

end
