(* ===== verification/AudioStream.thy ===== *)
theory AudioStream
  imports AudioHandler
begin

text \<open>
  The rest of Server/AudioServerHandler.cpp: \<open>requestFile\<close>, which streams the header and the data
  of a song's file into the send queue, the handler's constructor and its \<open>handlePacket\<close>.
  The vector \<open>requestFile\<close> collects all bytes in and never reads is not modelled. The loop over
  the chunks is a partial function, so that \<open>None\<close> means it does not return; for every packager
  that \<open>openFile\<close> can leave, it does return.
\<close>

section \<open>Streaming a file\<close>

text \<open>
  \<open>junk k\<close> is the indeterminate contents of the \<open>k\<close>-th array of the request (the header's is the
  0th), \<open>pjunk k\<close> that of the packet made from it, and \<open>alive k\<close> whether the queue could be locked
  to push that packet.
\<close>

record stream_state =
  st_heap :: heap
  st_queue :: send_queue
  st_packager :: WavFilePackager

definition send_header ::
    "(nat \<Rightarrow> byte) \<Rightarrow> (nat \<Rightarrow> byte) \<Rightarrow> bool \<Rightarrow> addr \<Rightarrow> cint \<Rightarrow> stream_state \<Rightarrow> stream_state res" where
  "send_header junk pjunk locked client i s =
     (let headerSize = 44; (headerBuffer, h1) = heap_new headerSize junk (st_heap s) in
      res_bind (heap_load headerBuffer headerSize h1) (\<lambda>b0.
      res_bind (getHeader b0 (of_nat headerSize) (st_packager s)) (\<lambda>(_, b1, packager).
      res_bind (heap_store headerBuffer 0 b1 h1) (\<lambda>h2.
      res_bind (heap_load headerBuffer headerSize h2) (\<lambda>hb.
      res_bind (Packet_ctor pjunk (type_val AUDIO) (of_nat headerSize) i (Some hb)) (\<lambda>packet.
      res_bind (heap_delete headerBuffer h2) (\<lambda>h3.
      Inr \<lparr> st_heap = h3, st_queue = lock_push locked (client, packet) (st_queue s),
            st_packager = packager \<rparr>)))))))"

definition send_chunk ::
    "(nat \<Rightarrow> byte) \<Rightarrow> (nat \<Rightarrow> byte) \<Rightarrow> bool \<Rightarrow> addr \<Rightarrow> cint \<Rightarrow> stream_state \<Rightarrow> stream_state res" where
  "send_chunk junk pjunk locked client i s =
     (let bufferSize = maxPacketSize; (dataBuffer, h1) = heap_new bufferSize junk (st_heap s) in
      res_bind (heap_load dataBuffer bufferSize h1) (\<lambda>b0.
      res_bind (getNextChunk b0 (of_nat bufferSize) (st_packager s)) (\<lambda>(actualSize, b1, packager).
      res_bind (heap_store dataBuffer 0 b1 h1) (\<lambda>h2.
      res_bind (heap_load dataBuffer bufferSize h2) (\<lambda>db.
      res_bind (Packet_ctor pjunk (type_val AUDIO) (ucast actualSize) i (Some db)) (\<lambda>dataPacket.
      let q = lock_push locked (client, dataPacket) (st_queue s) in
      res_bind (heap_delete dataBuffer h2) (\<lambda>h3.
      Inr \<lparr> st_heap = h3, st_queue = q, st_packager = packager \<rparr>)))))))"

partial_function (option) stream_loop ::
    "(nat \<Rightarrow> nat \<Rightarrow> byte) \<Rightarrow> (nat \<Rightarrow> nat \<Rightarrow> byte) \<Rightarrow> (nat \<Rightarrow> bool) \<Rightarrow> addr \<Rightarrow> cint \<Rightarrow> nat \<Rightarrow>
      stream_state \<Rightarrow> stream_state res option" where
  "stream_loop junk pjunk alive client i k s =
     (if isFileComplete (st_packager s) then Some (Inr s)
      else case send_chunk (junk k) (pjunk k) (alive k) client i s of
          Inl f \<Rightarrow> Some (Inl f)
        | Inr s' \<Rightarrow> stream_loop junk pjunk alive client i (Suc k) s')"

definition stream_file ::
    "filesystem \<Rightarrow> (nat \<Rightarrow> nat \<Rightarrow> byte) \<Rightarrow> (nat \<Rightarrow> nat \<Rightarrow> byte) \<Rightarrow> (nat \<Rightarrow> bool) \<Rightarrow> addr \<Rightarrow> cint \<Rightarrow>
      str \<Rightarrow> heap \<Rightarrow> send_queue \<Rightarrow> (heap \<times> send_queue) res option" where
  "stream_file fs junk pjunk alive client i fileName h q =
     (case openFile fs fileName WavFilePackager_new of
        Inl f \<Rightarrow> Some (Inl f)
      | Inr (_, packager) \<Rightarrow>
          if isFileOpen packager then
            (case send_header (junk 0) (pjunk 0) (alive 0) client i
                 \<lparr> st_heap = h, st_queue = q, st_packager = packager \<rparr> of
               Inl f \<Rightarrow> Some (Inl f)
             | Inr s \<Rightarrow> map_option (\<lambda>r. res_bind r (\<lambda>s'. Inr (st_heap s', st_queue s')))
                   (stream_loop junk pjunk alive client i 1 s))
          else Some (Inr (h, q)))"

definition requestFile ::
    "filesystem \<Rightarrow> (nat \<Rightarrow> nat \<Rightarrow> byte) \<Rightarrow> (nat \<Rightarrow> nat \<Rightarrow> byte) \<Rightarrow> (nat \<Rightarrow> nat \<Rightarrow> nat \<Rightarrow> byte) \<Rightarrow> int \<Rightarrow>
      (nat \<Rightarrow> bool) \<Rightarrow> addr \<Rightarrow> cint \<Rightarrow> Song FileList \<Rightarrow> Song \<Rightarrow> heap \<Rightarrow> send_queue \<Rightarrow>
      (heap \<times> send_queue) res option" where
  "requestFile fs junk pjunk sjunk junk_res alive client i fileList song h q =
     (case indexOf Song_eq (song_copier (sjunk 0)) junk_res song fileList of
        Inl f \<Rightarrow> Some (Inl f)
      | Inr index \<Rightarrow>
          if -1 < index then
            (case res_bind (get_files (song_copier (sjunk 1)) fileList) (\<lambda>fl. files_at fl index) of
               Inl f \<Rightarrow> Some (Inl f)
             | Inr (_, fileName) \<Rightarrow> stream_file fs junk pjunk alive client i fileName h q)
          else Some (Inr (h, q)))"

section \<open>One chunk\<close>

text \<open>The packet made for a chunk, given its payload.\<close>

definition audio_packet :: "cint \<Rightarrow> byte list \<Rightarrow> Packet \<Rightarrow> bool" where
  "audio_packet i bs pk \<longleftrightarrow> packet_wf pk \<and> pkt_type pk = type_val AUDIO \<and> pkt_id pk = i
     \<and> payload pk = bs"

text \<open>
  What the chunk number \<open>k\<close> contains when \<open>avail\<close> is left of the file and \<open>n\<close> bytes are asked for:
  once the file has ended, the rest is what the new array held.
\<close>

definition chunk_bytes :: "(nat \<Rightarrow> byte) \<Rightarrow> byte list \<Rightarrow> nat \<Rightarrow> byte list" where
  "chunk_bytes junk avail n = take n avail @ map junk [length avail..<n]"

lemma audio_packet_ctor:
  assumes "n \<le> 1024" and "n \<le> length d"
  shows "\<exists>pk. Packet_ctor pjunk (type_val AUDIO) (of_nat n) i (Some d) = Inr pk
    \<and> audio_packet i (take n d) pk"
proof -
  have s: "sint (of_nat n :: cint) = int n" using sint_of_nat32 [of n] assms(1) by simp
  then have u: "unat (of_nat n :: cint) = n" using nat_sint [of "of_nat n"] by simp
  have "Packet_ctor pjunk (type_val AUDIO) (of_nat n) i (Some d) =
    Inr \<lparr> pkt_size = of_nat n, pkt_type = type_val AUDIO, pkt_id = i,
      packetData = take n d @ drop n (new_bytes maxPacketSize pjunk) \<rparr>"
    using assms s u by (subst Packet_ctor_ok) simp_all
  then show ?thesis using assms u Packet_ctor_wf
    by (auto simp: audio_packet_def payload_def)
qed

lemma scoped_array:
  assumes wf: "heap_wf h" and new: "heap_new n junk h = (a, h1)" and len: "length b = n"
  obtains h2 h3 where "heap_load a n h1 = Inr (new_bytes n junk)" and "heap_store a 0 b h1 = Inr h2"
    and "heap_load a n h2 = Inr b" and "heap_delete a h2 = Inr h3"
    and "hp_cells h3 = hp_cells h" and "heap_wf h3"
proof -
  note a = hp.alloc_fresh [OF wf new] hp.alloc_blocks [OF wf new]
  obtain h2 where h2: "heap_store a 0 b h1 = Inr h2" "hp_cells h2 = (hp_cells h1)(a \<mapsto> b)" "heap_wf h2"
    using hp.put_ok [of h1 a "new_bytes n junk" 0 b] a len by auto
  obtain h3 where h3: "heap_delete a h2 = Inr h3" "hp_cells h3 = hp_cells h" "heap_wf h3"
    using hp.scoped_block [OF wf new, of 0 b] len h2(1) by auto
  show thesis
    using that h2 h3 a len by (simp add: heap_load_ok)
qed

lemma take_new_bytes: "n \<le> m \<Longrightarrow> drop l (take n (new_bytes m junk)) = map junk [l..<n]"
  by (simp add: new_bytes_def take_map drop_map)

lemma send_chunk_spec:
  assumes wf: "heap_wf (st_heap s)" and ready: "packager_ready (st_packager s)"
    and more: "\<not> isFileComplete (st_packager s)"
    and n: "n = min 1024 (packager_todo (st_packager s))"
  shows "\<exists>pk s'. send_chunk junk pjunk locked client i s = Inr s'
    \<and> audio_packet i (chunk_bytes junk (packager_avail (st_packager s)) n) pk
    \<and> st_queue s' = lock_push locked (client, pk) (st_queue s)
    \<and> heap_wf (st_heap s') \<and> hp_cells (st_heap s') = hp_cells (st_heap s)
    \<and> packager_ready (st_packager s')
    \<and> packager_todo (st_packager s') = packager_todo (st_packager s) - n
    \<and> packager_avail (st_packager s') = drop n (packager_avail (st_packager s))"
proof -
  let ?p = "st_packager s" and ?b0 = "new_bytes 1024 junk"
  have len: "0 < length ?b0" "length ?b0 < 4294967296" by simp_all
  obtain b1 p' where c: "getNextChunk ?b0 (of_nat (length ?b0)) ?p = Inr (of_nat n, b1, p')"
    using wav.chunk [OF ready more len refl] n by auto
  note pl = wav.chunk_payload [OF ready more len c]
  have n1024: "n \<le> 1024" using n by simp
  then have un: "unat (of_nat n :: size_t) = n" by (simp add: unat_of_nat64)
  obtain a h1 where new: "heap_new 1024 junk (st_heap s) = (a, h1)" by fastforce
  obtain h2 h3 where h: "heap_load a 1024 h1 = Inr ?b0" "heap_store a 0 b1 h1 = Inr h2"
      "heap_load a 1024 h2 = Inr b1" "heap_delete a h2 = Inr h3"
      "hp_cells h3 = hp_cells (st_heap s)" "heap_wf h3"
    using scoped_array [OF wf new, of b1] pl(5) by auto
  have bytes: "take n b1 = chunk_bytes junk (packager_avail ?p) n"
    using pl(2) [unfolded un] take_new_bytes [of n 1024 "length (packager_avail ?p)" junk] n1024
    by (simp add: chunk_bytes_def)
  obtain pk where pk: "Packet_ctor pjunk (type_val AUDIO) (of_nat n) i (Some b1) = Inr pk"
      "audio_packet i (chunk_bytes junk (packager_avail ?p) n) pk"
    using audio_packet_ctor [of n b1 pjunk i] pl(5) n1024 bytes by auto
  have cast: "ucast (of_nat n :: size_t) = (of_nat n :: cint)"
    using n1024 by (simp add: unsigned_of_nat take_bit_nat_eq_self)
  have "send_chunk junk pjunk locked client i s = Inr \<lparr> st_heap = h3,
      st_queue = lock_push locked (client, pk) (st_queue s), st_packager = p' \<rparr>"
    using new h c pk(1) cast by (simp add: send_chunk_def Let_def)
  then show ?thesis
    using pk(2) h(5,6) pl(3,4) un wav.chunk_progress(1) [OF ready more len c] by auto
qed

section \<open>The loop\<close>

text \<open>The payloads the loop sends, from chunk \<open>k\<close> on, with \<open>todo\<close> bytes to send.\<close>

function chunk_list :: "(nat \<Rightarrow> nat \<Rightarrow> byte) \<Rightarrow> nat \<Rightarrow> byte list \<Rightarrow> nat \<Rightarrow> byte list list" where
  "chunk_list junk k avail todo =
     (if todo = 0 then []
      else let n = min 1024 todo in
        chunk_bytes (junk k) avail n # chunk_list junk (Suc k) (drop n avail) (todo - n))"
  by pat_completeness auto
termination
  by (relation "measure (\<lambda>(junk, k, avail, todo). todo)") auto

declare chunk_list.simps [simp del]

lemma chunk_list_0 [simp]: "chunk_list junk k avail 0 = []"
  by (simp add: chunk_list.simps)

text \<open>
  The packets with a number are pushed when the queue can be locked for that number.
\<close>

definition pushed :: "(nat \<Rightarrow> bool) \<Rightarrow> nat \<Rightarrow> Packet list \<Rightarrow> Packet list" where
  "pushed alive k pks = map snd (filter (alive \<circ> fst) (enumerate k pks))"

lemma pushed_simps:
  "pushed alive k [] = []"
  "pushed alive k (pk # pks) = (if alive k then [pk] else []) @ pushed alive (Suc k) pks"
  by (simp_all add: pushed_def)

lemma pushed_all: "\<forall>n. alive n \<Longrightarrow> pushed alive k pks = pks"
  by (induction pks arbitrary: k) (simp_all add: pushed_simps)

lemma pushed_subset: "set (pushed alive k pks) \<subseteq> set pks"
  by (induction pks arbitrary: k) (auto simp: pushed_simps)

lemma lock_push_pushed:
  "mQueue (lock_push locked (client, pk) q) = mQueue q @ (if locked then [(client, pk)] else [])"
  by (simp add: lock_push_def cq.push_contents)

lemma stream_loop_spec:
  assumes "heap_wf (st_heap s)" and "packager_ready (st_packager s)"
  shows "\<exists>s' pks. stream_loop junk pjunk alive client i k s = Some (Inr s')
    \<and> heap_wf (st_heap s') \<and> hp_cells (st_heap s') = hp_cells (st_heap s)
    \<and> mQueue (st_queue s') = mQueue (st_queue s) @ map (Pair client) (pushed alive k pks)
    \<and> list_all2 (audio_packet i)
         (chunk_list junk k (packager_avail (st_packager s)) (packager_todo (st_packager s))) pks"
  using assms
proof (induction "packager_todo (st_packager s)" arbitrary: s k rule: less_induct)
  case less
  let ?p = "st_packager s" and ?loop = "stream_loop junk pjunk alive client i"
  show ?case
  proof (cases "isFileComplete ?p")
    case True
    then have "packager_todo ?p = 0" using wav.complete_iff [OF less.prems(2)] by simp
    then show ?thesis using True less.prems(1)
      by (subst stream_loop.simps) (simp add: pushed_simps)
  next
    case False
    define n where "n = min 1024 (packager_todo ?p)"
    have pos: "packager_todo ?p \<noteq> 0" using False wav.complete_iff [OF less.prems(2)] by simp
    obtain pk s1 where c: "send_chunk (junk k) (pjunk k) (alive k) client i s = Inr s1"
        "audio_packet i (chunk_bytes (junk k) (packager_avail ?p) n) pk"
        "st_queue s1 = lock_push (alive k) (client, pk) (st_queue s)"
        "heap_wf (st_heap s1)" "hp_cells (st_heap s1) = hp_cells (st_heap s)"
        "packager_ready (st_packager s1)" "packager_todo (st_packager s1) = packager_todo ?p - n"
        "packager_avail (st_packager s1) = drop n (packager_avail ?p)"
      using send_chunk_spec [OF less.prems False n_def, of "junk k" "pjunk k" "alive k" client i] by blast
    have "packager_todo (st_packager s1) < packager_todo ?p" using c(7) pos n_def by simp
    from less.hyps [OF this c(4,6), of "Suc k"] obtain s' pks where
      r: "?loop (Suc k) s1 = Some (Inr s')" "heap_wf (st_heap s')"
        "hp_cells (st_heap s') = hp_cells (st_heap s1)"
        "mQueue (st_queue s') = mQueue (st_queue s1) @ map (Pair client) (pushed alive (Suc k) pks)"
        "list_all2 (audio_packet i) (chunk_list junk (Suc k) (packager_avail (st_packager s1))
           (packager_todo (st_packager s1))) pks"
      by blast
    have "?loop k s = Some (Inr s')" using False c(1) r(1) by (subst stream_loop.simps) simp
    moreover have "mQueue (st_queue s') = mQueue (st_queue s) @ map (Pair client) (pushed alive k (pk # pks))"
      using r(4) c(3) by (simp add: pushed_simps lock_push_pushed)
    moreover have "list_all2 (audio_packet i) (chunk_list junk k (packager_avail ?p) (packager_todo ?p)) (pk # pks)"
      using r(5) c(2,7,8) pos by (subst chunk_list.simps) (simp add: n_def Let_def)
    ultimately show ?thesis using r(2,3) c(5) by auto
  qed
qed

text \<open>
  The payloads together: the next \<open>todo\<close> bytes of the file and, where it ends before, byte \<open>j\<close>
  of the rest is what array \<open>k + j div 1024\<close> held at \<open>j mod 1024\<close>.
\<close>

lemma chunk_list_concat:
  "concat (chunk_list junk k avail todo) =
     take todo avail @ map (\<lambda>j. junk (k + j div 1024) (j mod 1024)) [length avail..<todo]"
proof (induction junk k avail todo rule: chunk_list.induct)
  case (1 junk k avail todo)
  show ?case
  proof (cases "todo = 0")
    case True
    then show ?thesis by simp
  next
    case False
    define n where "n = min 1024 todo"
    let ?f = "\<lambda>k j. junk (k + j div 1024) (j mod 1024)"
    have IH: "concat (chunk_list junk (Suc k) (drop n avail) (todo - n)) =
        take (todo - n) (drop n avail) @ map (?f (Suc k)) [length avail - n..<todo - n]"
      using 1 [OF False n_def] by simp
    have unf: "chunk_list junk k avail todo =
        chunk_bytes (junk k) avail n # chunk_list junk (Suc k) (drop n avail) (todo - n)"
      using False by (subst chunk_list.simps) (simp add: n_def Let_def)
    have first: "map (junk k) [length avail..<n] = map (?f k) [length avail..<n]"
      by (rule map_cong) (auto simp: n_def)
    have rest: "map (?f (Suc k)) [length avail - n..<todo - n] = map (?f k) [max n (length avail)..<todo]"
    proof (cases "todo \<le> 1024")
      case True
      then show ?thesis by (simp add: n_def)
    next
      case big: False
      then have n: "n = 1024" by (simp add: n_def)
      have m: "max n (length avail) = length avail - n + 1024" using n by simp
      have shift: "k + (b + 1024 + x) div 1024 = Suc k + (b + x) div 1024"
          "(b + 1024 + x) mod 1024 = (b + x) mod 1024" for b x :: nat
        using mod_add_self2 [of "b + x" 1024] by (simp_all add: ac_simps)
      show ?thesis
        unfolding m by (rule nth_equalityI) (simp_all only: length_map length_upt nth_map nth_upt
          diff_diff_left n, simp_all add: shift)
    qed
    have split: "[length avail..<n] @ [max n (length avail)..<todo] = [length avail..<todo]"
      if "length avail < n"
      using that upt_add_eq_append [of "length avail" n "todo - n"] by (simp add: n_def max_def)
    show ?thesis
    proof (cases "length avail < n")
      case True
      then have "take n avail = avail" "take todo avail = avail" "drop n avail = []"
        by (simp_all add: n_def)
      then show ?thesis using unf IH first rest split [OF True]
        by (simp add: chunk_bytes_def map_append [symmetric] del: map_append)
    next
      case no: False
      then have "take todo avail = take n avail @ take (todo - n) (drop n avail)"
        by (simp add: n_def take_add [symmetric] min_def)
      then show ?thesis using unf IH rest no by (simp add: chunk_bytes_def max_def)
    qed
  qed
qed

lemma chunk_list_lengths:
  "length (chunk_list junk k avail todo) = (todo + 1023) div 1024"
  "j < length (chunk_list junk k avail todo) \<Longrightarrow>
     length (chunk_list junk k avail todo ! j) = min 1024 (todo - 1024 * j)"
proof (induction junk k avail todo arbitrary: j rule: chunk_list.induct)
  case (1 junk k avail todo)
  {
    case 1
    show ?case
    proof (cases "todo = 0")
      case False
      then show ?thesis using "1.IH"(1) [OF False refl]
        by (subst chunk_list.simps) (auto simp: Let_def min_def)
    qed simp
  next
    case 2
    have ne: "todo \<noteq> 0" using 2 by (intro notI) simp
    show ?case
    proof (cases j)
      case 0
      then show ?thesis using ne
        by (subst chunk_list.simps) (auto simp: Let_def chunk_bytes_def)
    next
      case (Suc j')
      then show ?thesis using ne "1.IH"(2) [OF ne refl, of j'] 2
        by (subst chunk_list.simps, subst (asm) chunk_list.simps) (auto simp: Let_def min_def)
    qed
  }
qed

section \<open>A whole file\<close>

lemma send_header_spec:
  assumes wf: "heap_wf h" and hdr: "header_shape (mHeader p)"
  shows "\<exists>h' pk. send_header junk pjunk locked client i \<lparr> st_heap = h, st_queue = q, st_packager = p \<rparr>
      = Inr \<lparr> st_heap = h', st_queue = lock_push locked (client, pk) q,
              st_packager = p\<lparr>mOpenFile := snd (stream_get 44 (mOpenFile p))\<rparr> \<rparr>
    \<and> audio_packet i (header_image (mHeader p)) pk \<and> heap_wf h' \<and> hp_cells h' = hp_cells h"
proof -
  let ?b0 = "new_bytes 44 junk" and ?hb = "header_image (mHeader p)"
  have len: "length ?hb = 44" using wave_header.enc_length [OF hdr] by simp
  obtain a h1 where new: "heap_new 44 junk h = (a, h1)" by fastforce
  obtain h2 h3 where h: "heap_load a 44 h1 = Inr ?b0" "heap_store a 0 ?hb h1 = Inr h2"
      "heap_load a 44 h2 = Inr ?hb" "heap_delete a h2 = Inr h3" "hp_cells h3 = hp_cells h" "heap_wf h3"
    using scoped_array [OF wf new len] .
  obtain pk where pk: "Packet_ctor pjunk (type_val AUDIO) (of_nat 44) i (Some ?hb) = Inr pk"
      "audio_packet i ?hb pk"
    using audio_packet_ctor [of 44 ?hb pjunk i] len by auto
  have "send_header junk pjunk locked client i \<lparr> st_heap = h, st_queue = q, st_packager = p \<rparr>
      = Inr \<lparr> st_heap = h3, st_queue = lock_push locked (client, pk) q,
              st_packager = p\<lparr>mOpenFile := snd (stream_get 44 (mOpenFile p))\<rparr> \<rparr>"
    using new h pk(1) getHeader_full [OF hdr, of ?b0] by (simp add: send_header_def Let_def)
  then show ?thesis using pk(2) h(5,6) by blast
qed

lemma stream_file_spec:
  assumes wf: "heap_wf h" and op: "openFile fs path WavFilePackager_new = Inr (ok, p)"
    and opened: "isFileOpen p"
  shows "\<exists>h' q' pk pks. stream_file fs junk pjunk alive client i path h q = Some (Inr (h', q'))
    \<and> heap_wf h' \<and> hp_cells h' = hp_cells h
    \<and> mQueue q' = mQueue q @ map (Pair client) (pushed alive 0 (pk # pks))
    \<and> audio_packet i (header_image (mHeader p)) pk
    \<and> list_all2 (audio_packet i) (chunk_list junk 1 (drop 44 (packager_avail p)) (packager_todo p)) pks"
proof -
  have p: "header_shape (mHeader p)" "packager_ready p"
    using openFile_total [of fs path WavFilePackager_new] op by auto
  let ?p2 = "p\<lparr>mOpenFile := snd (stream_get 44 (mOpenFile p))\<rparr>"
  obtain h1 pk where hd: "send_header (junk 0) (pjunk 0) (alive 0) client i
        \<lparr> st_heap = h, st_queue = q, st_packager = p \<rparr>
      = Inr \<lparr> st_heap = h1, st_queue = lock_push (alive 0) (client, pk) q, st_packager = ?p2 \<rparr>"
      "audio_packet i (header_image (mHeader p)) pk" "heap_wf h1" "hp_cells h1 = hp_cells h"
    using send_header_spec [OF wf p(1)] by metis
  let ?s = "\<lparr> st_heap = h1, st_queue = lock_push (alive 0) (client, pk) q, st_packager = ?p2 \<rparr>"
  have q2: "packager_ready ?p2" "packager_todo ?p2 = packager_todo p"
      "packager_avail ?p2 = drop 44 (packager_avail p)"
    using p(2) stream_get_avail(2) [of 44 "mOpenFile p"]
    by (simp_all add: packager_ready_def packager_todo_def packager_avail_def)
  obtain s' pks where l: "stream_loop junk pjunk alive client i 1 ?s = Some (Inr s')"
      "heap_wf (st_heap s')" "hp_cells (st_heap s') = hp_cells h1"
      "mQueue (st_queue s') = mQueue (st_queue ?s) @ map (Pair client) (pushed alive 1 pks)"
      "list_all2 (audio_packet i) (chunk_list junk 1 (drop 44 (packager_avail p)) (packager_todo p)) pks"
    using stream_loop_spec [of ?s junk pjunk alive client i 1] hd(3) q2 by auto
  have "mQueue (st_queue s') = mQueue q @ map (Pair client) (pushed alive 0 (pk # pks))"
    using l(4) by (simp add: pushed_simps lock_push_pushed)
  then show ?thesis using op opened hd(1,2,4) l(1,2,3,5)
    by (auto simp: stream_file_def)
qed

text \<open>Streaming any path always returns, faults never and releases its arrays.\<close>

lemma stream_file_total:
  assumes wf: "heap_wf h"
  shows "\<exists>h' q' pks. stream_file fs junk pjunk alive client i path h q = Some (Inr (h', q'))
    \<and> heap_wf h' \<and> hp_cells h' = hp_cells h \<and> mQueue q' = mQueue q @ map (Pair client) pks
    \<and> (\<forall>pk \<in> set pks. packet_wf pk \<and> pkt_type pk = type_val AUDIO \<and> pkt_id pk = i)"
proof -
  obtain ok p where op: "openFile fs path WavFilePackager_new = Inr (ok, p)"
    using openFile_total [of fs path WavFilePackager_new] by blast
  show ?thesis
  proof (cases "isFileOpen p")
    case True
    obtain h' q' pk pks where s: "stream_file fs junk pjunk alive client i path h q = Some (Inr (h', q'))"
        "heap_wf h'" "hp_cells h' = hp_cells h"
        "mQueue q' = mQueue q @ map (Pair client) (pushed alive 0 (pk # pks))"
        "audio_packet i (header_image (mHeader p)) pk"
        "list_all2 (audio_packet i) (chunk_list junk 1 (drop 44 (packager_avail p)) (packager_todo p)) pks"
      using stream_file_spec [OF wf op True] by metis
    have "\<forall>x \<in> set (pk # pks). packet_wf x \<and> pkt_type x = type_val AUDIO \<and> pkt_id x = i"
      using s(5,6) by (auto simp: audio_packet_def in_set_conv_nth list_all2_conv_all_nth)
    moreover have "set (pushed alive 0 (pk # pks)) \<subseteq> set (pk # pks)"
      by (rule pushed_subset)
    ultimately show ?thesis using s(1-4) by blast
  next
    case False
    then show ?thesis using op wf by (auto simp: stream_file_def intro: exI [of _ "[]"])
  qed
qed

section \<open>The handler\<close>

record AudioServerHandler =
  ah_listen :: Type
  ah_files :: "Song FileList"
  ah_client :: addr

text \<open>What a call meets in its surroundings: the files, indeterminate storage, and the queue's life.\<close>

record request_env =
  re_fs :: filesystem
  re_junk :: "nat \<Rightarrow> nat \<Rightarrow> byte"
  re_pjunk :: "nat \<Rightarrow> nat \<Rightarrow> byte"
  re_sjunk :: "nat \<Rightarrow> nat \<Rightarrow> nat \<Rightarrow> byte"
  re_index :: int
  re_alive :: "nat \<Rightarrow> bool"

definition music_folder :: str where
  "music_folder = str_lit ''C:'' @ [92] @ str_lit ''Users'' @ [92] @ str_lit ''Podginator'' @ [92]
     @ str_lit ''Music''"

definition AudioServerHandler_new ::
    "directory \<Rightarrow> filesystem \<Rightarrow> (nat \<Rightarrow> nat \<Rightarrow> byte) \<Rightarrow> (nat \<Rightarrow> nat \<Rightarrow> byte) \<Rightarrow> addr \<Rightarrow> heap \<Rightarrow>
      (AudioServerHandler \<times> heap) res" where
  "AudioServerHandler_new dir fs junk cjunk client h =
     res_bind (FileList_new dir (song_converter fs junk) (song_copier cjunk)
         music_folder (str_lit ''wav'') h) (\<lambda>(fileList, h').
     Inr (\<lparr> ah_listen = type_or (type_val TRACK) (type_val FILELIST), ah_files = fileList,
            ah_client = client \<rparr>, h'))"

definition audio_handlePacket ::
    "request_env \<Rightarrow> AudioServerHandler \<Rightarrow> Packet \<Rightarrow> heap \<Rightarrow> send_queue \<Rightarrow> (heap \<times> send_queue) res option" where
  "audio_handlePacket env this sentMessage h q =
     (if pkt_type sentMessage = type_val TRACK then
        (if (scast (pkt_size sentMessage) :: size_t) = of_nat sizeof_Song then
           (case res_bind (mem_read 0 sizeof_Song (packetData sentMessage)) (\<lambda>m.
                 Song_copy (re_sjunk env 3 0) (song_of_image m)) of
              Inl f \<Rightarrow> Some (Inl f)
            | Inr song \<Rightarrow> requestFile (re_fs env) (re_junk env) (re_pjunk env) (re_sjunk env)
                 (re_index env) (re_alive env) (ah_client this) (pkt_id sentMessage) (ah_files this) song h q)
         else Some (Inr (h, q)))
      else if pkt_type sentMessage = type_val FILELIST then
        Some (requestFileList (re_junk env) (re_sjunk env) (re_alive env) (ah_client this)
          (pkt_id sentMessage) (ah_files this) h q)
      else Some (Inr (h, q)))"

text \<open>The entry a call of \<open>get().at(n)\<close> delivers.\<close>

definition fl_entry :: "(nat \<Rightarrow> nat \<Rightarrow> byte) \<Rightarrow> Song FileList \<Rightarrow> nat \<Rightarrow> Song \<times> str" where
  "fl_entry junk files n = (case get_files (song_copier junk) files of Inl _ \<Rightarrow> (song_of_image [], []) | Inr fl \<Rightarrow> fl ! n)"

lemma fl_entry:
  assumes "song_list_ok files" and n: "n < length (mFileMap files)"
  shows "res_bind (get_files (song_copier junk) files) (\<lambda>fl. files_at fl (int n)) = Inr (fl_entry junk files n)"
    and "snd (fl_entry junk files n) = snd (mFileMap files ! n)"
proof -
  have "\<forall>(s, p) \<in> set (mFileMap files). song_ok s" using assms(1) by (simp add: song_list_ok_def)
  from songs.copy_files_good [OF this, of junk 0]
  obtain fl where fl: "get_files (song_copier junk) files = Inr fl" "map snd fl = map snd (mFileMap files)"
    by (auto simp: get_files_def)
  have len: "length fl = length (mFileMap files)" using fl(2) by (rule map_eq_imp_length_eq)
  then show "res_bind (get_files (song_copier junk) files) (\<lambda>fl. files_at fl (int n)) = Inr (fl_entry junk files n)"
    using fl(1) n by (simp add: files_at_def fl_entry_def)
  show "snd (fl_entry junk files n) = snd (mFileMap files ! n)"
    using fl n len nth_map [of n fl snd] by (simp add: fl_entry_def)
qed

lemma requestFile_found:
  assumes ok: "song_list_ok files" "song_ok song" and n: "n < length (mFileMap files)"
    and hit: "song_key (fst (mFileMap files ! n)) = song_key song"
    and first: "\<forall>j < n. song_key (fst (mFileMap files ! j)) \<noteq> song_key song"
  shows "requestFile fs junk pjunk sjunk junk_res alive client i files song h q
    = stream_file fs junk pjunk alive client i (snd (mFileMap files ! n)) h q"
proof -
  have good: "\<forall>(s, p) \<in> set (mFileMap files). song_ok s" using ok(1) by (simp add: song_list_ok_def)
  have mem: "song_key song \<in> (song_key \<circ> fst) ` set (mFileMap files)"
    using n hit by (metis comp_apply image_eqI nth_mem)
  obtain r where r: "indexOf Song_eq (song_copier (sjunk 0)) junk_res song files = Inr r"
      "-1 < r" "r + 1 \<le> int (length (mFileMap files))"
      "song_key (fst (mFileMap files ! nat r)) = song_key song"
      "\<forall>j < nat r. song_key (fst (mFileMap files ! j)) \<noteq> song_key song"
    using songs.indexOf_loop_spec [OF good ok(2), of "-1" "sjunk 0" junk_res] mem
    by (auto simp: indexOf_def)
  have "nat r = n" using r(4,5) first hit n by (metis linorder_neqE_nat)
  moreover have "res_bind (get_files (song_copier (sjunk 1)) files) (\<lambda>fl. files_at fl (int n))
      = Inr (fl_entry (sjunk 1) files n)"
    using fl_entry [OF ok(1) n] by simp
  moreover have "r = int (nat r)" using r(2) by simp
  ultimately show ?thesis
    using r(1,2) fl_entry(2) [OF ok(1) n, of "sjunk 1"] by (simp add: requestFile_def case_prod_beta)
qed

lemma requestFile_missing:
  assumes ok: "song_list_ok files" "song_ok song"
    and miss: "song_key song \<notin> (song_key \<circ> fst) ` set (mFileMap files)"
  shows "requestFile fs junk pjunk sjunk junk_res alive client i files song h q =
    (if junk_res \<le> -1 then Some (Inr (h, q))
     else if int (length (mFileMap files)) \<le> junk_res then Some (Inl OutOfRange)
     else stream_file fs junk pjunk alive client i (snd (mFileMap files ! nat junk_res)) h q)"
proof -
  have good: "\<forall>(s, p) \<in> set (mFileMap files). song_ok s" using ok(1) by (simp add: song_list_ok_def)
  have r: "indexOf Song_eq (song_copier (sjunk 0)) junk_res song files = Inr junk_res"
    using songs.indexOf_loop_spec [OF good ok(2), of "-1" "sjunk 0" junk_res] miss
    by (auto simp: indexOf_def)
  show ?thesis
  proof (cases "-1 < junk_res \<and> junk_res < int (length (mFileMap files))")
    case True
    then have n: "nat junk_res < length (mFileMap files)" "junk_res = int (nat junk_res)" by auto
    show ?thesis using r True fl_entry [OF ok(1) n(1), of "sjunk 1"] n(2)
      by (simp add: requestFile_def case_prod_beta)
  next
    case False
    obtain fl where "get_files (song_copier (sjunk 1)) files = Inr fl" "map snd fl = map snd (mFileMap files)"
      using songs.copy_files_good [OF good, of "sjunk 1" 0] by (auto simp: get_files_def)
    moreover from this(2) have "length fl = length (mFileMap files)" by (rule map_eq_imp_length_eq)
    ultimately show ?thesis using r False by (auto simp: requestFile_def files_at_def)
  qed
qed

section \<open>Properties\<close>

lemma audio_packets:
  assumes "list_all2 (audio_packet i) bss pks"
  shows "map payload pks = bss"
    and "\<forall>x \<in> set pks. packet_wf x \<and> pkt_type x = type_val AUDIO \<and> pkt_id x = i"
  using assms
  by (induction bss pks rule: list_all2_induct) (simp_all add: audio_packet_def)

lemma wav_stream:
  assumes wf: "heap_wf h" and fs: "fs path = Some (header_image wh @ data)"
    and wh: "header_shape wh" "chunk_id wh = RIFF" "wh_format wh = WAVE" and alive: "\<forall>k. alive k"
  shows "\<exists>h' q' pk pks. stream_file fs junk pjunk alive client i path h q = Some (Inr (h', q'))
    \<and> hp_cells h' = hp_cells h \<and> mQueue q' = mQueue q @ map (Pair client) (pk # pks)
    \<and> (\<forall>x \<in> set (pk # pks). packet_wf x \<and> pkt_type x = type_val AUDIO \<and> pkt_id x = i)
    \<and> payload pk = header_image wh
    \<and> map payload pks = chunk_list junk 1 (drop 44 data) (unat (subchunk2_size wh) - 44)"
proof -
  let ?c = "header_image wh @ data"
  have len: "length (header_image wh) = 44" using wave_header.enc_length [OF wh(1)] by simp
  have dec: "header_of_image (take 44 ?c) = wh" using wave_header.dec_prefix [OF wh(1), of data] by simp
  have "wav_magic ?c" using wh by (simp add: wav_magic_def header_image_def header_shape_def)
  then obtain p where p: "openFile fs path WavFilePackager_new = Inr (True, p)" "mHeader p = wh"
      "mOpenFile p = stream_at ?c 44" "mExtracted p = 44" "mTotalSize p = ucast (subchunk2_size wh)"
    using openFile_long [of fs path ?c, OF fs] len dec by auto
  have "packager_avail p = data" "packager_todo p = unat (subchunk2_size wh) - 44"
    using p(3-5) len by (simp_all add: packager_avail_def stream_avail_def packager_todo_def unat_ucast64)
  moreover obtain h' q' pk pks where
      "stream_file fs junk pjunk alive client i path h q = Some (Inr (h', q'))" "hp_cells h' = hp_cells h"
      "mQueue q' = mQueue q @ map (Pair client) (pushed alive 0 (pk # pks))"
      "audio_packet i (header_image (mHeader p)) pk"
      "list_all2 (audio_packet i) (chunk_list junk 1 (drop 44 (packager_avail p)) (packager_todo p)) pks"
    using stream_file_spec [OF wf p(1) openFile_opens(2) [OF p(1)]] by (metis (no_types))
  ultimately show ?thesis
    using audio_packets p(2) pushed_all [OF alive] by (auto simp: audio_packet_def)
qed

text \<open>
  C22. Streaming a song. A request for a listed song whose stored path names a WAV file pushes,
  when the queue can be locked, one packet with the 44 header bytes of the file and then data
  packets, all well-formed, of type AUDIO and with the id of the request. Together the data packets
  carry the data size of the header less 44 bytes, in chunks of 1024 and a last smaller one. Their
  bytes are the data of the file without its first 44 bytes, and where the file ends before the
  header says, byte \<open>j\<close> of the rest is whatever the array allocated for that chunk held before.
  The arrays are released.
\<close>

theorem song_is_streamed:
  assumes "heap_wf h" and "song_list_ok files" and "song_ok song" and "n < length (mFileMap files)"
    and "song_key (fst (mFileMap files ! n)) = song_key song"
    and "\<forall>j < n. song_key (fst (mFileMap files ! j)) \<noteq> song_key song"
    and "fs (snd (mFileMap files ! n)) = Some (header_image wh @ data)"
    and "header_shape wh" and "chunk_id wh = RIFF" and "wh_format wh = WAVE" and "\<forall>k. alive k"
    and sz: "sz = unat (subchunk2_size wh) - 44"
  shows "\<exists>h' q' pk pks.
    requestFile fs junk pjunk sjunk junk_res alive client i files song h q = Some (Inr (h', q'))
    \<and> hp_cells h' = hp_cells h \<and> mQueue q' = mQueue q @ map (Pair client) (pk # pks)
    \<and> (\<forall>x \<in> set (pk # pks). packet_wf x \<and> pkt_type x = type_val AUDIO \<and> pkt_id x = i)
    \<and> payload pk = header_image wh
    \<and> length pks = (sz + 1023) div 1024
    \<and> (\<forall>j < length pks. length (payload (pks ! j)) = min 1024 (sz - 1024 * j))
    \<and> concat (map payload pks) = take sz (drop 44 data)
        @ map (\<lambda>j. junk (1 + j div 1024) (j mod 1024)) [length data - 44..<sz]"
proof -
  obtain h' q' pk pks where s: "stream_file fs junk pjunk alive client i (snd (mFileMap files ! n)) h q
        = Some (Inr (h', q'))" "hp_cells h' = hp_cells h"
      "mQueue q' = mQueue q @ map (Pair client) (pk # pks)"
      "\<forall>x \<in> set (pk # pks). packet_wf x \<and> pkt_type x = type_val AUDIO \<and> pkt_id x = i"
      "payload pk = header_image wh" "map payload pks = chunk_list junk 1 (drop 44 data) sz"
    using wav_stream [where fs = fs and alive = alive, OF assms(1,7-11)] sz by blast
  have len: "length pks = length (chunk_list junk 1 (drop 44 data) sz)"
    using arg_cong [OF s(6), of length] by simp
  have "length (payload (pks ! j)) = min 1024 (sz - 1024 * j)" if "j < length pks" for j
    using chunk_list_lengths(2) [of j junk 1 "drop 44 data" sz] that s(6) len by (metis nth_map)
  then show ?thesis
    using s requestFile_found [OF assms(2-6)] chunk_list_concat [of junk 1 "drop 44 data" sz] len
      chunk_list_lengths(1) [of junk 1 "drop 44 data" sz]
    by auto
qed

text \<open>A list with one song, stored under a path that exists and holds the file of the other theory.\<close>

definition demo_list :: "Song FileList" where
  "demo_list = \<lparr> mFileLoc = [], mFileExtn = [], mFileMap = [(song_a, [77])] \<rparr>"

lemma demo_list_simps:
  "mFileMap demo_list = [(song_a, [77])]" "song_list_ok demo_list"
  using sample_songs by (simp_all add: demo_list_def song_list_ok_def)

theorem song_is_streamed_witness:
  "\<exists>h' q' pk pk2. requestFile [[77] \<mapsto> header_image demo_header @ replicate 90 9] (\<lambda>_ _. 7) (\<lambda>_ _. 0)
      (\<lambda>_ _ _. 0) 0 (\<lambda>_. True) 3 5 demo_list song_a heap_empty \<lparr> mQueue = [] \<rparr> = Some (Inr (h', q'))
    \<and> mQueue q' = [(3, pk), (3, pk2)] \<and> payload pk = header_image demo_header
    \<and> payload pk2 = replicate 46 9 @ replicate 10 7"
proof -
  have "(56 + 1023) div 1024 = Suc 0" by simp
  moreover have "map (\<lambda>_. 7 :: byte) [46..<56] = replicate 10 7"
    unfolding map_replicate_const length_upt by simp
  ultimately show ?thesis
    using song_is_streamed [OF heap_empty_wf, of demo_list song_a 0
      "[[77] \<mapsto> header_image demo_header @ replicate 90 9]" demo_header "replicate 90 9" "\<lambda>_. True" 56
      "\<lambda>_ _. 7" "\<lambda>_ _. 0" "\<lambda>_ _ _. 0" 0 3 5 "\<lparr> mQueue = [] \<rparr>"]
      sample_songs demo_list_simps demo_header_simps
    by (auto simp: length_Suc_conv)
qed

text \<open>
  A complete file loses sound. For a file whose data is exactly as long as its header says and
  at least 44 bytes, the header packet still announces all of it, but what follows are the data
  without their first 44 bytes: the receiver gets 44 bytes fewer than announced.
\<close>

theorem complete_file_loses_44_bytes:
  assumes "heap_wf h" and "fs path = Some (header_image wh @ data)"
    and "header_shape wh" and "chunk_id wh = RIFF" and "wh_format wh = WAVE" and "\<forall>k. alive k"
    and "length data = unat (subchunk2_size wh)" and "44 \<le> length data"
  shows "\<exists>h' q' pk pks. stream_file fs junk pjunk alive client i path h q = Some (Inr (h', q'))
    \<and> mQueue q' = mQueue q @ map (Pair client) (pk # pks)
    \<and> subchunk2_size (header_of_image (payload pk)) = of_nat (length data)
    \<and> concat (map payload pks) = drop 44 data"
proof -
  obtain h' q' pk pks where s: "stream_file fs junk pjunk alive client i path h q = Some (Inr (h', q'))"
      "mQueue q' = mQueue q @ map (Pair client) (pk # pks)" "payload pk = header_image wh"
      "map payload pks = chunk_list junk 1 (drop 44 data) (unat (subchunk2_size wh) - 44)"
    using wav_stream [where fs = fs and alive = alive, OF assms(1-6)] by blast
  have "concat (map payload pks) = drop 44 data"
    unfolding s(4) chunk_list_concat using assms(7) by simp
  moreover have "header_of_image (payload pk) = wh" "subchunk2_size wh = of_nat (length data)"
    using s(3) wave_header.dec_enc [OF assms(3)] assms(7) by simp_all
  ultimately show ?thesis using s by auto
qed

theorem complete_file_loses_44_bytes_witness:
  "\<exists>h' q' pk pks. stream_file [[77] \<mapsto> demo_file] (\<lambda>_ _. 7) (\<lambda>_ _. 0) (\<lambda>_. True) 3 5 [77] heap_empty
      \<lparr> mQueue = [] \<rparr> = Some (Inr (h', q'))
    \<and> mQueue q' = map (Pair 3) (pk # pks) \<and> subchunk2_size (header_of_image (payload pk)) = 100
    \<and> concat (map payload pks) = replicate 56 9"
  using complete_file_loses_44_bytes [OF heap_empty_wf, of "[[77] \<mapsto> demo_file]" "[77]" demo_header
      "replicate 100 9" "\<lambda>_. True" "\<lambda>_ _. 7" "\<lambda>_ _. 0" 3 5 "\<lparr> mQueue = [] \<rparr>"] demo_header_simps
  by (auto simp: demo_file_def)

lemma request_file_outcome:
  assumes "heap_wf h" and "song_list_ok files" and "song_ok song"
  shows "\<exists>r. requestFile fs junk pjunk sjunk junk_res alive client i files song h q = Some r
    \<and> (case r of
         Inr (h', q') \<Rightarrow> hp_cells h' = hp_cells h \<and> (\<exists>pks. mQueue q' = mQueue q @ map (Pair client) pks
           \<and> (\<forall>pk \<in> set pks. packet_wf pk \<and> pkt_type pk = type_val AUDIO \<and> pkt_id pk = i))
       | Inl f \<Rightarrow> f = OutOfRange \<and> song_key song \<notin> (song_key \<circ> fst) ` set (mFileMap files))"
proof -
  let ?ok = "\<lambda>r. case r of
         Inr (h', q') \<Rightarrow> hp_cells h' = hp_cells h \<and> (\<exists>pks. mQueue q' = mQueue q @ map (Pair client) pks
           \<and> (\<forall>pk \<in> set pks. packet_wf pk \<and> pkt_type pk = type_val AUDIO \<and> pkt_id pk = i))
       | Inl f \<Rightarrow> f = OutOfRange \<and> song_key song \<notin> (song_key \<circ> fst) ` set (mFileMap files)"
  have stream: "\<exists>r. stream_file fs junk pjunk alive client i path h q = Some r \<and> ?ok r" for path
    using stream_file_total [OF assms(1), of fs junk pjunk alive client i path q] by fastforce
  show ?thesis
  proof (cases "song_key song \<in> (song_key \<circ> fst) ` set (mFileMap files)")
    case True
    then have "\<exists>n. n < length (mFileMap files) \<and> song_key (fst (mFileMap files ! n)) = song_key song"
      by (auto simp: in_set_conv_nth) (metis fst_conv)
    then obtain m where m: "m < length (mFileMap files)" "song_key (fst (mFileMap files ! m)) = song_key song"
      by blast
    define n where "n = (LEAST n. song_key (fst (mFileMap files ! n)) = song_key song)"
    have "song_key (fst (mFileMap files ! n)) = song_key song"
      unfolding n_def using m(2) by (rule LeastI)
    moreover have "n < length (mFileMap files)"
      using Least_le [of "\<lambda>n. song_key (fst (mFileMap files ! n)) = song_key song", OF m(2)] m(1)
      by (simp add: n_def)
    moreover have "\<forall>j < n. song_key (fst (mFileMap files ! j)) \<noteq> song_key song"
      unfolding n_def using not_less_Least by blast
    ultimately show ?thesis using stream by (simp add: requestFile_found [OF assms(2,3)])
  next
    case False
    have skip: "?ok (Inr (h, q))" by (auto intro: exI [of _ "[]"])
    show ?thesis
      unfolding requestFile_missing [OF assms(2,3) False] using stream skip False by auto
  qed
qed

text \<open>
  C29. A request for a song always returns, for any contents of the files and whatever becomes of
  the queue. Either it comes back with every array released and only well-formed AUDIO packets with
  the id of the request pushed, or it throws \<open>out_of_range\<close>, and then the song was not in the list.
\<close>

theorem request_file_returns:
  assumes "heap_wf h" and "song_list_ok files" and "song_ok song"
  shows "\<exists>r. requestFile fs junk pjunk sjunk junk_res alive client i files song h q = Some r
    \<and> (case r of
         Inr (h', q') \<Rightarrow> hp_cells h' = hp_cells h \<and> (\<exists>pks. mQueue q' = mQueue q @ map (Pair client) pks
           \<and> (\<forall>pk \<in> set pks. packet_wf pk \<and> pkt_type pk = type_val AUDIO \<and> pkt_id pk = i))
       | Inl f \<Rightarrow> f = OutOfRange \<and> song_key song \<notin> (song_key \<circ> fst) ` set (mFileMap files))"
  by (rule request_file_outcome [OF assms])

theorem request_file_returns_witness:
  "\<exists>r. requestFile [[77] \<mapsto> [1, 2, 3]] (\<lambda>_ _. 7) (\<lambda>_ _. 0) (\<lambda>_ _ _. 0) 0 (\<lambda>_. False) 3 5 demo_list song_a
      heap_empty \<lparr> mQueue = [] \<rparr> = Some r \<and> (case r of Inr (h', q') \<Rightarrow> hp_cells h' = Map.empty | Inl f \<Rightarrow> False)"
proof -
  have "song_key song_a \<in> (song_key \<circ> fst) ` set (mFileMap demo_list)" by (simp add: demo_list_simps)
  then show ?thesis
    using request_file_returns [OF heap_empty_wf demo_list_simps(2) sample_songs(1),
        of "[[77] \<mapsto> [1, 2, 3]]" "\<lambda>_ _. 7" "\<lambda>_ _. 0" "\<lambda>_ _ _. 0" 0 "\<lambda>_. False" 3 5 "\<lparr> mQueue = [] \<rparr>"]
    by (auto simp: heap_empty_def split: sum.splits)
qed

text \<open>
  A song that is not in the list. What happens is decided by the indeterminate contents of the
  search's result: a negative value sends nothing, a value past the end throws \<open>out_of_range\<close>, and
  the index of an entry streams that entry's file to the client.
\<close>

theorem unlisted_song:
  assumes "song_list_ok files" and "song_ok song"
    and "song_key song \<notin> (song_key \<circ> fst) ` set (mFileMap files)"
  shows "(junk_res < 0 \<longrightarrow>
       requestFile fs junk pjunk sjunk junk_res alive client i files song h q = Some (Inr (h, q)))
    \<and> (int (length (mFileMap files)) \<le> junk_res \<longrightarrow>
       requestFile fs junk pjunk sjunk junk_res alive client i files song h q = Some (Inl OutOfRange))
    \<and> (0 \<le> junk_res \<and> junk_res < int (length (mFileMap files)) \<longrightarrow>
       requestFile fs junk pjunk sjunk junk_res alive client i files song h q
       = stream_file fs junk pjunk alive client i (snd (mFileMap files ! nat junk_res)) h q)"
  using requestFile_missing [OF assms, of fs junk pjunk sjunk junk_res alive client i h q] by auto

theorem unlisted_song_witness:
  "requestFile [[77] \<mapsto> [1, 2]] (\<lambda>_ _. 7) (\<lambda>_ _. 0) (\<lambda>_ _ _. 0) 0 (\<lambda>_. True) 3 5 demo_list song_b
       heap_empty \<lparr> mQueue = [] \<rparr>
     = stream_file [[77] \<mapsto> [1, 2]] (\<lambda>_ _. 7) (\<lambda>_ _. 0) (\<lambda>_. True) 3 5 [77] heap_empty \<lparr> mQueue = [] \<rparr>
   \<and> requestFile [[77] \<mapsto> [1, 2]] (\<lambda>_ _. 7) (\<lambda>_ _. 0) (\<lambda>_ _ _. 0) 12345 (\<lambda>_. True) 3 5 demo_list song_b
       heap_empty \<lparr> mQueue = [] \<rparr> = Some (Inl OutOfRange)"
proof -
  have miss: "song_key song_b \<notin> (song_key \<circ> fst) ` set (mFileMap demo_list)"
    using sample_songs by (auto simp: demo_list_simps)
  show ?thesis
    using unlisted_song [OF demo_list_simps(2) sample_songs(2) miss, of 0 "[[77] \<mapsto> [1, 2]]" "\<lambda>_ _. 7"
        "\<lambda>_ _. 0" "\<lambda>_ _ _. 0" "\<lambda>_. True" 3 5 heap_empty "\<lparr> mQueue = [] \<rparr>"]
      unlisted_song [OF demo_list_simps(2) sample_songs(2) miss, of 12345 "[[77] \<mapsto> [1, 2]]" "\<lambda>_ _. 7"
        "\<lambda>_ _. 0" "\<lambda>_ _ _. 0" "\<lambda>_. True" 3 5 heap_empty "\<lparr> mQueue = [] \<rparr>"]
    by (simp add: demo_list_simps)
qed

lemma song_of_packet_shape [wf_intro]:
  "packet_wf pk \<Longrightarrow> song_shape (song_of_image (take 132 (packetData pk)))"
  by (rule song_of_image_shape) (simp add: packet_wf_def)

lemma audio_handlePacket_track:
  assumes "packet_wf pk" and "pkt_type pk = type_val TRACK"
  shows "audio_handlePacket env this pk h q =
    (if pkt_size pk = of_nat sizeof_Song then
       (case Song_copy (re_sjunk env 3 0) (song_of_image (payload pk)) of
          Inl f \<Rightarrow> Some (Inl f)
        | Inr song \<Rightarrow> requestFile (re_fs env) (re_junk env) (re_pjunk env) (re_sjunk env)
             (re_index env) (re_alive env) (ah_client this) (pkt_id pk) (ah_files this) song h q)
     else Some (Inr (h, q)))"
proof -
  have "payload pk = take 132 (packetData pk)" if "pkt_size pk = 132"
    using that by (simp add: payload_def)
  then show ?thesis
    using size_test [OF assms(1), of 132] assms by (simp add: audio_handlePacket_def packet_wf_def)
qed

lemma track_outcome:
  assumes "packet_wf pk" and "pkt_type pk = type_val TRACK"
  shows "if pkt_size pk \<noteq> of_nat sizeof_Song then audio_handlePacket env this pk h q = Some (Inr (h, q))
    else if terminated (take 64 (payload pk)) \<and> terminated (take 64 (drop 64 (payload pk)))
    then \<exists>song. song_ok song \<and> song_key song = song_key (song_of_image (payload pk))
      \<and> audio_handlePacket env this pk h q = requestFile (re_fs env) (re_junk env) (re_pjunk env)
          (re_sjunk env) (re_index env) (re_alive env) (ah_client this) (pkt_id pk) (ah_files this) song h q
    else audio_handlePacket env this pk h q = Some (Inl InvalidParameter)"
proof (cases "pkt_size pk = of_nat sizeof_Song")
  case False
  then show ?thesis using audio_handlePacket_track [OF assms] by simp
next
  case True
  then have p: "payload pk = take 132 (packetData pk)" by (simp add: payload_def)
  have shape: "song_shape (song_of_image (payload pk))"
    using song_of_packet_shape [OF assms(1)] p by simp
  have ok: "song_ok (song_of_image (payload pk)) \<longleftrightarrow>
      terminated (take 64 (payload pk)) \<and> terminated (take 64 (drop 64 (payload pk)))"
    using shape by (simp add: song_ok_def song_of_image_def)
  show ?thesis
  proof (cases "song_ok (song_of_image (payload pk))")
    case good: True
    then show ?thesis
      using Song_copy_ok [OF good, of "re_sjunk env 3 0"] ok True
      by (auto simp: audio_handlePacket_track [OF assms])
  next
    case False
    then have "audio_handlePacket env this pk h q = Some (Inl InvalidParameter)"
      using True Song_copy_unterminated [OF shape False, of "re_sjunk env 3 0"]
      by (simp add: audio_handlePacket_track [OF assms])
    moreover have "\<not> (terminated (take 64 (payload pk)) \<and> terminated (take 64 (drop 64 (payload pk))))"
      using False ok by simp
    ultimately show ?thesis using True by auto
  qed
qed

lemma audio_fault_is_track:
  assumes "song_list_ok (ah_files this)" and "heap_wf h" and "audio_handlePacket env this pk h q = Some (Inl f)"
  shows "pkt_type pk = type_val TRACK"
proof (rule ccontr)
  assume "pkt_type pk \<noteq> type_val TRACK"
  then show False
    using requestFileList_run [OF assms(2,1), of "re_junk env" "re_sjunk env" "re_alive env" "ah_client this"
        "pkt_id pk" q] assms(3)
    by (auto simp: audio_handlePacket_def split: if_splits)
qed

lemma audio_killed:
  assumes "song_list_ok (ah_files this)" and "heap_wf h" and "packet_wf pk"
  shows "audio_handlePacket env this pk h q = Some (Inl InvalidParameter) \<longleftrightarrow>
    pkt_type pk = type_val TRACK \<and> pkt_size pk = of_nat sizeof_Song
    \<and> \<not> (terminated (take 64 (payload pk)) \<and> terminated (take 64 (drop 64 (payload pk))))"
proof (cases "pkt_type pk = type_val TRACK")
  case False
  then show ?thesis using audio_fault_is_track [OF assms(1,2)] by blast
next
  case True
  have no: "requestFile fs junk pjunk sjunk res alive client i (ah_files this) song h q \<noteq> Some (Inl InvalidParameter)"
    if "song_ok song" for fs junk pjunk sjunk res alive client i song
    using request_file_outcome [OF assms(2,1) that, of fs junk pjunk sjunk res alive client i q] by auto
  let ?names = "terminated (take 64 (payload pk)) \<and> terminated (take 64 (drop 64 (payload pk)))"
  show ?thesis
  proof (cases "pkt_size pk = of_nat sizeof_Song \<and> ?names")
    case good: True
    then obtain song where "song_ok song" "audio_handlePacket env this pk h q = requestFile (re_fs env)
        (re_junk env) (re_pjunk env) (re_sjunk env) (re_index env) (re_alive env) (ah_client this)
        (pkt_id pk) (ah_files this) song h q"
      using track_outcome [OF assms(3) True, of env this h q] by auto
    then show ?thesis using no good by simp
  next
    case False
    then show ?thesis using track_outcome [OF assms(3) True, of env this h q] True
      by (auto split: if_splits)
  qed
qed

text \<open>
  The audio handler on a TRACK packet. A payload that is not the size of a song is ignored. A
  song whose two names are terminated is looked up and streamed under the id of the packet. A song
  image without a terminator in one of its names ends the server in the invalid parameter handler:
  the copy made for the call of \<open>requestFile\<close> is what fails, whatever the list contains.
\<close>

theorem track_packet_outcome:
  assumes "packet_wf pk" and "pkt_type pk = type_val TRACK"
  shows "if pkt_size pk \<noteq> of_nat sizeof_Song then audio_handlePacket env this pk h q = Some (Inr (h, q))
    else if terminated (take 64 (payload pk)) \<and> terminated (take 64 (drop 64 (payload pk)))
    then \<exists>song. song_ok song \<and> song_key song = song_key (song_of_image (payload pk))
      \<and> audio_handlePacket env this pk h q = requestFile (re_fs env) (re_junk env) (re_pjunk env)
          (re_sjunk env) (re_index env) (re_alive env) (ah_client this) (pkt_id pk) (ah_files this) song h q
    else audio_handlePacket env this pk h q = Some (Inl InvalidParameter)"
  by (rule track_outcome [OF assms])

definition demo_env :: request_env where
  "demo_env = \<lparr> re_fs = [[77] \<mapsto> demo_file], re_junk = (\<lambda>_ _. 7), re_pjunk = (\<lambda>_ _. 0),
     re_sjunk = (\<lambda>_ _ _. 0), re_index = 0, re_alive = (\<lambda>_. True) \<rparr>"

definition demo_handler :: AudioServerHandler where
  "demo_handler = \<lparr> ah_listen = 10, ah_files = demo_list, ah_client = 3 \<rparr>"

theorem track_packet_outcome_witness:
  "audio_handlePacket demo_env demo_handler
     \<lparr> pkt_size = 132, pkt_type = 2, pkt_id = 5, packetData = replicate 132 65 @ replicate 892 0 \<rparr>
     heap_empty \<lparr> mQueue = [] \<rparr> = Some (Inl InvalidParameter)"
proof -
  let ?pk = "\<lparr> pkt_size = 132, pkt_type = 2, pkt_id = 5, packetData = replicate 132 65 @ replicate 892 0 \<rparr>"
  have "packet_wf ?pk" by (simp add: packet_wf_def)
  moreover have "\<not> terminated (replicate 64 65)" by (simp add: terminated_def)
  moreover have "payload ?pk = replicate 132 65" by (simp add: payload_def)
  ultimately show ?thesis
    using track_packet_outcome [of ?pk demo_env demo_handler heap_empty "\<lparr> mQueue = [] \<rparr>"] by simp
qed

end
