(* ===== verification/ClientSettings.thy ===== *)
theory ClientSettings
  imports Packets
begin

text \<open>
  Server/Settings.h, Server/SettingsHandler.h and Server/SettingsHandler.cpp: the settings of a
  client, a structure that arrives as its raw memory image, and the handler that stores it.
\<close>

section \<open>The structure\<close>

text \<open>A \<open>bool\<close> that was copied from a message can hold any byte, so the flags are bytes.\<close>

record Settings =
  ShareName :: "byte list"
  ShareActivity :: byte
  AlbumArt :: byte

definition settings_image :: "Settings \<Rightarrow> byte list" where
  "settings_image s = ShareName s @ [ShareActivity s, AlbumArt s]"

definition settings_of_image :: "byte list \<Rightarrow> Settings" where
  "settings_of_image m = \<lparr> ShareName = take 64 m, ShareActivity = m ! 64, AlbumArt = m ! 65 \<rparr>"

definition sizeof_Settings :: nat where
  "sizeof_Settings = 64 + 1 + 1"

lemma sizeof_Settings_val [simp]: "sizeof_Settings = 66"
  by (simp add: sizeof_Settings_def)

definition settings_shape :: "Settings \<Rightarrow> bool" where
  "settings_shape s \<longleftrightarrow> length (ShareName s) = 64"

interpretation settings: layout_codec settings_image settings_of_image sizeof_Settings settings_shape
  by unfold_locales
    (simp_all add: settings_image_def settings_of_image_def settings_shape_def nth_append)

text \<open>The default settings: the literal fills the array up with zeros.\<close>

definition Settings_default :: Settings where
  "Settings_default =
     \<lparr> ShareName = str_lit ''John Smith'' @ replicate 54 0, ShareActivity = 1, AlbumArt = 1 \<rparr>"

definition Settings_assign :: "Settings \<Rightarrow> Settings \<Rightarrow> Settings res" where
  "Settings_assign this rhs =
     res_bind (strncpy_s (ShareName this) (ShareName rhs) 64) (\<lambda>sn.
     Inr (this\<lparr>ShareName := sn, ShareActivity := ShareActivity rhs, AlbumArt := AlbumArt rhs\<rparr>))"

definition settings_ok :: "Settings \<Rightarrow> bool" where
  "settings_ok s \<longleftrightarrow> settings_shape s \<and> terminated (ShareName s)"

definition settings_says :: "Settings \<Rightarrow> str \<times> byte \<times> byte" where
  "settings_says s = (c_str (ShareName s), ShareActivity s, AlbumArt s)"

lemma Settings_default_ok [wf_intro]: "settings_ok Settings_default"
  by (simp add: settings_ok_def settings_shape_def Settings_default_def terminated_def str_lit_def)

lemma Settings_assign_ok:
  assumes "settings_ok s" and "settings_ok t"
  shows "\<exists>u. Settings_assign s t = Inr u \<and> settings_ok u \<and> settings_says u = settings_says t"
  using assms length_c_str_less [of "ShareName t"] c_str_no_nul [of "ShareName t"]
  by (simp add: Settings_assign_def strncpy_s_terminated settings_ok_def settings_shape_def settings_says_def)

lemma Settings_assign_unterminated:
  assumes "settings_ok s" and "settings_shape t" and "\<not> terminated (ShareName t)"
  shows "Settings_assign s t = Inl InvalidParameter"
  using assms by (simp add: Settings_assign_def strncpy_s_unterminated settings_ok_def settings_shape_def)

section \<open>The handler\<close>

record SettingsHandler =
  sh_listen :: Type
  mSettings :: Settings

definition SettingsHandler_new :: "Settings \<Rightarrow> SettingsHandler" where
  "SettingsHandler_new sharedSetting =
     \<lparr> sh_listen = type_val SETTINGS, mSettings = sharedSetting \<rparr>"

text \<open>
  The structure that is assembled starts from the default settings and is overwritten whole. The
  comparison of the size is made in \<open>size_t\<close>.
\<close>

definition settings_handlePacket :: "SettingsHandler \<Rightarrow> Packet \<Rightarrow> SettingsHandler res" where
  "settings_handlePacket this packet =
     (if (scast (pkt_size packet) :: size_t) = of_nat sizeof_Settings then
        res_bind (mem_read 0 sizeof_Settings (packetData packet)) (\<lambda>m.
        res_bind (mem_write 0 m (settings_image Settings_default)) (\<lambda>settings.
        res_bind (Settings_assign (mSettings this) (settings_of_image settings)) (\<lambda>s.
        Inr (this\<lparr>mSettings := s\<rparr>))))
      else Inr this)"

lemma settings_of_packet_shape [wf_intro]:
  "packet_wf pk \<Longrightarrow> settings_shape (settings_of_image (take 66 (packetData pk)))"
  by (simp add: packet_wf_def settings_shape_def settings_of_image_def)

lemma settings_handlePacket_eq:
  assumes "packet_wf pk" and "settings_ok (mSettings this)"
  shows "settings_handlePacket this pk =
    (if pkt_size pk = of_nat sizeof_Settings then
       res_bind (Settings_assign (mSettings this) (settings_of_image (take 66 (packetData pk)))) (\<lambda>s.
       Inr (this\<lparr>mSettings := s\<rparr>))
     else Inr this)"
proof -
  have "length (settings_image Settings_default) = 66"
    using settings.enc_length [of Settings_default] Settings_default_ok by (simp add: settings_ok_def)
  then show ?thesis
    using size_test [OF assms(1), of 66] assms(1) by (simp add: settings_handlePacket_def packet_wf_def)
qed

lemma settings_handlePacket_keeps:
  assumes "packet_wf pk" and "settings_ok (mSettings this)" and "settings_handlePacket this pk = Inr this'"
  shows "settings_ok (mSettings this')" and "sh_listen this' = sh_listen this"
proof -
  let ?t = "settings_of_image (take 66 (packetData pk))"
  have shape: "settings_shape ?t" using settings_of_packet_shape [OF assms(1)] .
  have "settings_ok (mSettings this') \<and> sh_listen this' = sh_listen this"
  proof (cases "pkt_size pk = of_nat sizeof_Settings \<and> terminated (ShareName ?t)")
    case True
    then have "settings_ok ?t" using shape by (simp add: settings_ok_def)
    from Settings_assign_ok [OF assms(2) this] show ?thesis
      using True assms(3) by (auto simp: settings_handlePacket_eq [OF assms(1,2)])
  next
    case False
    then show ?thesis
      using assms Settings_assign_unterminated [OF assms(2) shape]
      by (auto simp: settings_handlePacket_eq [OF assms(1,2)] split: if_splits)
  qed
  then show "settings_ok (mSettings this')" "sh_listen this' = sh_listen this" by simp_all
qed

lemma settings_outcome:
  assumes "packet_wf pk" and "settings_ok (mSettings this)"
  shows "if pkt_size pk \<noteq> of_nat sizeof_Settings then settings_handlePacket this pk = Inr this
    else if terminated (take 64 (payload pk))
    then \<exists>s. settings_handlePacket this pk = Inr (this\<lparr>mSettings := s\<rparr>) \<and> settings_ok s
      \<and> settings_says s = settings_says (settings_of_image (payload pk))
    else settings_handlePacket this pk = Inl InvalidParameter"
proof (cases "pkt_size pk = of_nat sizeof_Settings")
  case False
  then show ?thesis using settings_handlePacket_eq [OF assms] by simp
next
  case True
  then have p: "payload pk = take 66 (packetData pk)" by (simp add: payload_def)
  let ?t = "settings_of_image (take 66 (packetData pk))"
  have shape: "settings_shape ?t" using settings_of_packet_shape [OF assms(1)] .
  have name: "ShareName ?t = take 64 (payload pk)" by (simp add: settings_of_image_def p)
  show ?thesis
  proof (cases "terminated (take 64 (payload pk))")
    case ended: True
    then have "settings_ok ?t" using shape name by (simp add: settings_ok_def)
    from Settings_assign_ok [OF assms(2) this] show ?thesis
      using True ended p by (auto simp: settings_handlePacket_eq [OF assms])
  next
    case False
    then show ?thesis
      using True Settings_assign_unterminated [OF assms(2) shape] name
      by (simp add: settings_handlePacket_eq [OF assms])
  qed
qed

section \<open>Properties\<close>

text \<open>
  Storing settings. For a well-formed packet the outcome is one of three: a payload that is not
  the size of the structure changes nothing; one with a terminated name makes the stored settings say
  exactly what was sent; one with 64 bytes of name and no terminator ends the process.
\<close>

theorem settings_packet_outcome:
  assumes "packet_wf pk" and "settings_ok (mSettings this)"
  shows "if pkt_size pk \<noteq> of_nat sizeof_Settings then settings_handlePacket this pk = Inr this
    else if terminated (take 64 (payload pk))
    then \<exists>s. settings_handlePacket this pk = Inr (this\<lparr>mSettings := s\<rparr>) \<and> settings_ok s
      \<and> settings_says s = settings_says (settings_of_image (payload pk))
    else settings_handlePacket this pk = Inl InvalidParameter"
  by (rule settings_outcome [OF assms])

lemma settings_demo_packet:
  "packet_wf \<lparr> pkt_size = 66, pkt_type = 32, pkt_id = 1, packetData = replicate 66 b @ replicate 958 0 \<rparr>"
  by (simp add: packet_wf_def)

theorem settings_packet_outcome_witness:
  "settings_handlePacket (SettingsHandler_new Settings_default)
     \<lparr> pkt_size = 66, pkt_type = 32, pkt_id = 1, packetData = replicate 66 65 @ replicate 958 0 \<rparr>
   = Inl InvalidParameter"
proof -
  have "\<not> terminated (replicate 64 65)" by (simp add: terminated_def)
  then show ?thesis
    using settings_packet_outcome [OF settings_demo_packet [of 65], of "SettingsHandler_new Settings_default"]
      Settings_default_ok
    by (simp add: SettingsHandler_new_def payload_def)
qed

text \<open>The packets a handler gets over its life, as long as the process lives.\<close>

fun settings_run :: "SettingsHandler \<Rightarrow> Packet list \<Rightarrow> SettingsHandler res" where
  "settings_run this [] = Inr this"
| "settings_run this (pk # pks) = res_bind (settings_handlePacket this pk) (\<lambda>this'. settings_run this' pks)"

lemma settings_run_keeps:
  "list_all packet_wf pks \<Longrightarrow> settings_ok (mSettings this) \<Longrightarrow> settings_run this pks = Inr this' \<Longrightarrow>
     settings_ok (mSettings this') \<and> sh_listen this' = sh_listen this"
proof (induction pks arbitrary: this)
  case Nil
  then show ?case by simp
next
  case (Cons pk pks)
  then obtain x where x: "settings_handlePacket this pk = Inr x" "settings_run x pks = Inr this'"
    by (auto simp: res_bind_Inr_iff)
  then have "settings_ok (mSettings x)" "sh_listen x = sh_listen this"
    using settings_handlePacket_keeps [OF _ Cons.prems(2) x(1)] Cons.prems(1) by simp_all
  then show ?case using Cons.IH [of x] Cons.prems(1) x(2) by simp
qed

text \<open>
  Whatever well-formed packets a new settings handler is given, as long as the process lives
  its settings keep a name of 64 bytes with a terminator and it listens for SETTINGS; so a later
  valid packet can always be stored.
\<close>

theorem settings_stay_readable:
  assumes "list_all packet_wf pks" and "settings_run (SettingsHandler_new Settings_default) pks = Inr this"
  shows "settings_ok (mSettings this) \<and> sh_listen this = type_val SETTINGS
    \<and> (\<forall>t. settings_ok t \<longrightarrow> (\<exists>u. Settings_assign (mSettings this) t = Inr u \<and> settings_says u = settings_says t))"
  using settings_run_keeps [OF assms(1) _ assms(2)] Settings_default_ok Settings_assign_ok
  by (fastforce simp: SettingsHandler_new_def)

theorem settings_stay_readable_witness:
  "\<exists>this. settings_run (SettingsHandler_new Settings_default)
     [\<lparr> pkt_size = 66, pkt_type = 32, pkt_id = 1, packetData = replicate 66 0 @ replicate 958 0 \<rparr>] = Inr this
   \<and> settings_ok (mSettings this)"
proof -
  let ?pk = "\<lparr> pkt_size = 66, pkt_type = 32, pkt_id = 1, packetData = replicate 66 0 @ replicate 958 0 \<rparr>"
  have ok: "settings_ok (settings_of_image (replicate 66 0))"
    by (simp add: settings_ok_def settings_shape_def settings_of_image_def terminated_def)
  obtain s where "Settings_assign Settings_default (settings_of_image (replicate 66 0)) = Inr s"
    using Settings_assign_ok [OF Settings_default_ok ok] by blast
  then have run: "settings_run (SettingsHandler_new Settings_default) [?pk]
      = Inr ((SettingsHandler_new Settings_default)\<lparr>mSettings := s\<rparr>)"
    using settings_handlePacket_eq [OF settings_demo_packet [of 0], of "SettingsHandler_new Settings_default"]
      Settings_default_ok
    by (simp add: SettingsHandler_new_def)
  moreover have "list_all packet_wf [?pk]" using settings_demo_packet [of 0] by simp
  ultimately show ?thesis using settings_stay_readable [of "[?pk]"] by blast
qed

end
