(* ===== verification/Dispatch.thy ===== *)
theory Dispatch
  imports AudioStream ClientSettings
begin

text \<open>
  Server/AudioClientHandlerFactory.h, Server/AudioClientHandlerFactory.cpp and the virtual calls of
  Server/InputHandler.h: the handlers a client gets, and the function it runs on every received
  message, which deserialises a fresh packet and gives it to every handler that listens for its
  type. Standard exceptions end that call and are swallowed; the other faults end the process.
  The locale \<open>input_handlers\<close> is what the factory relies on in a handler.
\<close>

section \<open>Handlers behind the interface\<close>

datatype InputHandler =
    AudioH AudioServerHandler
  | SettingsH SettingsHandler

type_synonym world = "heap \<times> send_queue"

fun mListenFor :: "InputHandler \<Rightarrow> Type" where
  "mListenFor (AudioH a) = ah_listen a"
| "mListenFor (SettingsH s) = sh_listen s"

fun handlePacket :: "request_env \<Rightarrow> InputHandler \<Rightarrow> Packet \<Rightarrow> world \<Rightarrow> (InputHandler \<times> world) res option" where
  "handlePacket env (AudioH a) pk (h, q) =
     map_option (\<lambda>r. res_bind r (\<lambda>w. Inr (AudioH a, w))) (audio_handlePacket env a pk h q)"
| "handlePacket env (SettingsH s) pk w =
     Some (res_bind (settings_handlePacket s pk) (\<lambda>s'. Inr (SettingsH s', w)))"

section \<open>The received handler\<close>

fun call_handlers ::
    "('h \<Rightarrow> Packet \<Rightarrow> 'w \<Rightarrow> ('h \<times> 'w) res option) \<Rightarrow> ('h \<Rightarrow> Type) \<Rightarrow> Packet \<Rightarrow> 'h list \<Rightarrow> 'w \<Rightarrow>
      ('h list \<times> 'w) res option" where
  "call_handlers handle listen pk [] w = Some (Inr ([], w))"
| "call_handlers handle listen pk (hl # hls) w =
     (if listensFor (listen hl) (pkt_type pk) then
        (case handle hl pk w of
           None \<Rightarrow> None
         | Some (Inl f) \<Rightarrow> Some (Inl f)
         | Some (Inr (hl', w')) \<Rightarrow>
             map_option (\<lambda>r. res_bind r (\<lambda>(hls', w''). Inr (hl' # hls', w'')))
               (call_handlers handle listen pk hls w'))
      else
        map_option (\<lambda>r. res_bind r (\<lambda>(hls', w''). Inr (hl # hls', w'')))
          (call_handlers handle listen pk hls w))"

text \<open>
  A standard exception of the deserialiser or of a handler is caught. The handlers of this program
  throw before they change anything, so the state of the catch is that of the call.
\<close>

definition received_handler ::
    "request_env \<Rightarrow> InputHandler list \<Rightarrow> byte list \<Rightarrow> size_t \<Rightarrow> world \<Rightarrow> (InputHandler list \<times> world) res option" where
  "received_handler env handlers buffer sz w =
     (case Deserialize Packet_default (Some buffer) sz of
        Inl f \<Rightarrow> Some (if std_exception f then Inr (handlers, w) else Inl f)
      | Inr packet \<Rightarrow>
          map_option (\<lambda>r. case r of
              Inl f \<Rightarrow> if std_exception f then Inr (handlers, w) else Inl f
            | Inr x \<Rightarrow> Inr x)
            (call_handlers (handlePacket env) mListenFor packet handlers w))"

text \<open>The handlers a new client gets, the audio handler first.\<close>

definition make_handlers ::
    "directory \<Rightarrow> filesystem \<Rightarrow> (nat \<Rightarrow> nat \<Rightarrow> byte) \<Rightarrow> (nat \<Rightarrow> nat \<Rightarrow> byte) \<Rightarrow> addr \<Rightarrow> heap \<Rightarrow>
      (InputHandler list \<times> heap) res" where
  "make_handlers dir fs junk cjunk client h =
     (let settingsHandle = SettingsHandler_new Settings_default in
      res_bind (AudioServerHandler_new dir fs junk cjunk client h) (\<lambda>(audioHandler, h').
      Inr ([AudioH audioHandler, SettingsH settingsHandle], h')))"

section \<open>What the factory relies on\<close>

text \<open>
  A handler in a good state, given a well-formed packet, returns: either normally, and then it is
  good again and the world has only moved on as \<open>allowed\<close>, or with one of the \<open>faults\<close>.
\<close>

locale input_handlers =
  fixes handle :: "'h \<Rightarrow> Packet \<Rightarrow> 'w \<Rightarrow> ('h \<times> 'w) res option"
    and listen :: "'h \<Rightarrow> Type"
    and good :: "'h \<Rightarrow> 'w \<Rightarrow> bool"
    and allowed :: "'w \<Rightarrow> 'w \<Rightarrow> bool"
    and faults :: "fault set"
  assumes handle_returns: "good hl w \<Longrightarrow> packet_wf pk \<Longrightarrow>
      \<exists>r. handle hl pk w = Some r \<and> (case r of Inl f \<Rightarrow> f \<in> faults
        | Inr (hl', w') \<Rightarrow> good hl' w' \<and> allowed w w' \<and> listen hl' = listen hl)"
    and good_moves: "good hl w \<Longrightarrow> allowed w w' \<Longrightarrow> good hl w'"
    and allowed_refl: "allowed w w"
    and allowed_trans: "allowed w w' \<Longrightarrow> allowed w' w'' \<Longrightarrow> allowed w w''"
begin

lemma call_handlers_returns:
  assumes "packet_wf pk" and "\<forall>hl \<in> set hls. good hl w"
  shows "\<exists>r. call_handlers handle listen pk hls w = Some r \<and> (case r of Inl f \<Rightarrow> f \<in> faults
    | Inr (hls', w') \<Rightarrow> (\<forall>hl \<in> set hls'. good hl w') \<and> allowed w w' \<and> map listen hls' = map listen hls)"
  using assms(2)
proof (induction hls arbitrary: w)
  case Nil
  then show ?case using allowed_refl by simp
next
  case (Cons hl hls)
  show ?case
  proof (cases "listensFor (listen hl) (pkt_type pk)")
    case True
    obtain r where r: "handle hl pk w = Some r" "case r of Inl f \<Rightarrow> f \<in> faults
        | Inr (hl', w') \<Rightarrow> good hl' w' \<and> allowed w w' \<and> listen hl' = listen hl"
      using handle_returns [of hl w pk] Cons.prems assms(1) by auto
    show ?thesis
    proof (cases r)
      case (Inl f)
      then show ?thesis using True r by simp
    next
      case (Inr x)
      then obtain hl' w' where x: "r = Inr (hl', w')" "good hl' w'" "allowed w w'" "listen hl' = listen hl"
        using r(2) by (cases x) auto
      have "\<forall>hl \<in> set hls. good hl w'" using Cons.prems good_moves x(3) by auto
      from Cons.IH [OF this] obtain r' where r': "call_handlers handle listen pk hls w' = Some r'"
          "case r' of Inl f \<Rightarrow> f \<in> faults | Inr (hls', w'') \<Rightarrow>
             (\<forall>hl \<in> set hls'. good hl w'') \<and> allowed w' w'' \<and> map listen hls' = map listen hls"
        by blast
      show ?thesis
      proof (cases r')
        case (Inl f)
        then show ?thesis using True r(1) x(1) r' by simp
      next
        case (Inr y)
        then obtain hls' w'' where y: "r' = Inr (hls', w'')" "\<forall>hl \<in> set hls'. good hl w''"
            "allowed w' w''" "map listen hls' = map listen hls"
          using r'(2) by (cases y) auto
        have "good hl' w''" "allowed w w''"
          using good_moves [OF x(2) y(3)] allowed_trans [OF x(3) y(3)] by simp_all
        then show ?thesis using True r(1) x(1,4) r'(1) y by simp
      qed
    qed
  next
    case False
    from Cons.IH [of w] Cons.prems obtain r' where r': "call_handlers handle listen pk hls w = Some r'"
        "case r' of Inl f \<Rightarrow> f \<in> faults | Inr (hls', w'') \<Rightarrow>
           (\<forall>hl \<in> set hls'. good hl w'') \<and> allowed w w'' \<and> map listen hls' = map listen hls"
      by auto
    then show ?thesis using False Cons.prems good_moves
      by (cases r') auto
  qed
qed

lemma call_handlers_ignored:
  "\<forall>hl \<in> set hls. \<not> listensFor (listen hl) (pkt_type pk) \<Longrightarrow>
     call_handlers handle listen pk hls w = Some (Inr (hls, w))"
  by (induction hls) simp_all

end

section \<open>The handlers of this server\<close>

definition good_handler :: "InputHandler \<Rightarrow> world \<Rightarrow> bool" where
  "good_handler hl w \<longleftrightarrow> heap_wf (fst w)
     \<and> (case hl of AudioH a \<Rightarrow> song_list_ok (ah_files a) | SettingsH s \<Rightarrow> settings_ok (mSettings s))"

text \<open>A call may push well-formed packets; it leaves the store with the blocks it had.\<close>

definition only_pushes :: "world \<Rightarrow> world \<Rightarrow> bool" where
  "only_pushes w w' \<longleftrightarrow> (heap_wf (fst w) \<longrightarrow> heap_wf (fst w')) \<and> hp_cells (fst w') = hp_cells (fst w)
     \<and> (\<exists>cps. mQueue (snd w') = mQueue (snd w) @ cps \<and> (\<forall>cp \<in> set cps. packet_wf (snd cp)))"

lemma only_pushes_refl: "only_pushes w w"
  by (auto simp: only_pushes_def)

lemma only_pushes_trans: "only_pushes w w' \<Longrightarrow> only_pushes w' w'' \<Longrightarrow> only_pushes w w''"
  unfolding only_pushes_def by (elim conjE exE) auto

text \<open>A handler made for a client pushes for that client only.\<close>

definition pushes_for :: "addr \<Rightarrow> world \<Rightarrow> world \<Rightarrow> bool" where
  "pushes_for client w w' \<longleftrightarrow> (heap_wf (fst w) \<longrightarrow> heap_wf (fst w')) \<and> hp_cells (fst w') = hp_cells (fst w)
     \<and> (\<exists>pks. mQueue (snd w') = mQueue (snd w) @ map (Pair client) pks \<and> (\<forall>pk \<in> set pks. packet_wf pk))"

fun serves :: "addr \<Rightarrow> InputHandler \<Rightarrow> bool" where
  "serves client (AudioH a) = (ah_client a = client)"
| "serves client (SettingsH s) = True"

lemma serves_some: "\<exists>client. serves client hl"
  by (cases hl) auto

lemma pushes_for_only: "pushes_for client w w' \<Longrightarrow> only_pushes w w'"
  by (auto simp: pushes_for_def only_pushes_def)

lemma pushes_for_refl: "pushes_for client w w"
  by (auto simp: pushes_for_def)

lemma pushes_for_trans: "pushes_for client w w' \<Longrightarrow> pushes_for client w' w'' \<Longrightarrow> pushes_for client w w''"
proof -
  assume a: "pushes_for client w w'" and b: "pushes_for client w' w''"
  obtain p1 where "mQueue (snd w') = mQueue (snd w) @ map (Pair client) p1" "\<forall>pk \<in> set p1. packet_wf pk"
    using a unfolding pushes_for_def by blast
  moreover obtain p2 where "mQueue (snd w'') = mQueue (snd w') @ map (Pair client) p2" "\<forall>pk \<in> set p2. packet_wf pk"
    using b unfolding pushes_for_def by blast
  ultimately have "\<exists>pks. mQueue (snd w'') = mQueue (snd w) @ map (Pair client) pks \<and> (\<forall>pk \<in> set pks. packet_wf pk)"
    by (intro exI [of _ "p1 @ p2"]) auto
  then show ?thesis using a b by (auto simp: pushes_for_def)
qed

lemma request_file_pushes:
  assumes "heap_wf h" and "song_list_ok files" and "song_ok song"
  shows "\<exists>r. requestFile fs junk pjunk sjunk junk_res alive client i files song h q = Some r
    \<and> (case r of Inl f \<Rightarrow> f = OutOfRange | Inr w \<Rightarrow> pushes_for client (h, q) w)"
proof -
  have skip: "pushes_for client (h, q) (h, q)" by (rule pushes_for_refl)
  have stream: "\<exists>w. stream_file fs junk pjunk alive client i path h q = Some (Inr w) \<and> pushes_for client (h, q) w"
    for path
    using stream_file_total [OF assms(1), of fs junk pjunk alive client i path q]
    by (fastforce simp: pushes_for_def)
  obtain index where index: "indexOf Song_eq (song_copier (sjunk 0)) junk_res song files = Inr index"
    using songs.indexOf_loop_spec [of "mFileMap files" song "-1" "sjunk 0" junk_res] assms(2,3)
    by (auto simp: indexOf_def song_list_ok_def)
  obtain fl where fl: "get_files (song_copier (sjunk 1)) files = Inr fl"
    using songs.copy_files_good [of "mFileMap files" "sjunk 1" 0] assms(2)
    by (auto simp: get_files_def song_list_ok_def)
  show ?thesis
  proof (cases "-1 < index")
    case True
    show ?thesis
    proof (cases "files_at fl index")
      case (Inl f)
      then have "f = OutOfRange" by (auto simp: files_at_def split: if_splits)
      then show ?thesis using True index fl Inl by (simp add: requestFile_def)
    next
      case (Inr x)
      then show ?thesis using True index fl stream [of "snd x"] by (auto simp: requestFile_def case_prod_beta)
    qed
  next
    case False
    then show ?thesis using index skip by (simp add: requestFile_def)
  qed
qed

lemma audio_handler_returns:
  assumes ok: "song_list_ok (ah_files a)" "heap_wf h" and pk: "packet_wf pk"
  shows "\<exists>r. audio_handlePacket env a pk h q = Some r
    \<and> (case r of Inl f \<Rightarrow> f \<in> {OutOfRange, InvalidParameter} | Inr w \<Rightarrow> pushes_for (ah_client a) (h, q) w)"
proof -
  consider "pkt_type pk = type_val TRACK" | "pkt_type pk = type_val FILELIST"
    | "pkt_type pk \<noteq> type_val TRACK" "pkt_type pk \<noteq> type_val FILELIST"
    by blast
  then show ?thesis
  proof cases
    case 1
    let ?s = "song_of_image (payload pk)"
    show ?thesis
    proof (cases "Song_copy (re_sjunk env 3 0) ?s")
      case (Inl f)
      show ?thesis
      proof (cases "pkt_size pk = of_nat sizeof_Song")
        case True
        then have "song_shape ?s"
          using song_of_packet_shape [OF pk] by (simp add: payload_def)
        then have "f = InvalidParameter"
          using Song_copy_ok [of ?s "re_sjunk env 3 0"] Song_copy_unterminated [of ?s "re_sjunk env 3 0"] Inl
          by (cases "song_ok ?s") auto
        then show ?thesis using True Inl by (simp add: audio_handlePacket_track [OF pk 1])
      next
        case False
        then show ?thesis by (simp add: audio_handlePacket_track [OF pk 1] pushes_for_refl)
      qed
    next
      case (Inr song)
      show ?thesis
      proof (cases "pkt_size pk = of_nat sizeof_Song")
        case True
        then have shape: "song_shape ?s" using song_of_packet_shape [OF pk] by (simp add: payload_def)
        then have "song_ok song"
          using Song_copy_ok [of ?s "re_sjunk env 3 0"] Song_copy_unterminated [of ?s "re_sjunk env 3 0"] Inr
          by (cases "song_ok ?s") auto
        from request_file_pushes [OF ok(2,1) this, of "re_fs env" "re_junk env" "re_pjunk env" "re_sjunk env"
            "re_index env" "re_alive env" "ah_client a" "pkt_id pk" q]
        show ?thesis using True Inr
          by (auto simp: audio_handlePacket_track [OF pk 1] split: sum.splits)
      next
        case False
        then show ?thesis by (simp add: audio_handlePacket_track [OF pk 1] pushes_for_refl)
      qed
    qed
  next
    case 2
    obtain h' q' gs where r: "requestFileList (re_junk env) (re_sjunk env) (re_alive env) (ah_client a)
          (pkt_id pk) (ah_files a) h q = Inr (h', q')" "heap_wf h'" "hp_cells h' = hp_cells h"
        "pushed_groups (ah_client a) (pkt_id pk) q q' gs"
      using requestFileList_run [OF ok(2,1), of "re_junk env" "re_sjunk env" "re_alive env" "ah_client a"
          "pkt_id pk" q] by blast
    obtain pks where pks: "mQueue q' = mQueue q @ map (Pair (ah_client a)) pks"
        "list_all2 (songs_packet (pkt_id pk)) gs pks"
      using r(4) by (auto simp: pushed_groups_def)
    have "\<forall>x \<in> set pks. packet_wf x"
      using pks(2) by (auto simp: in_set_conv_nth list_all2_conv_all_nth songs_packet_def)
    then show ?thesis using 2 r(1-3) pks(1) by (auto simp: audio_handlePacket_def pushes_for_def)
  next
    case 3
    then show ?thesis by (simp add: audio_handlePacket_def pushes_for_refl)
  qed
qed

lemma handlePacket_returns:
  assumes good: "good_handler hl w" and own: "serves client hl" and pk: "packet_wf pk"
  shows "\<exists>r. handlePacket env hl pk w = Some r \<and> (case r of Inl f \<Rightarrow> f \<in> {OutOfRange, InvalidParameter}
      | Inr (hl', w') \<Rightarrow> good_handler hl' w' \<and> serves client hl' \<and> pushes_for client w w' \<and> mListenFor hl' = mListenFor hl)"
proof -
  obtain h q where w: "w = (h, q)" by (cases w)
  show ?thesis
  proof (cases hl)
    case (AudioH a)
    then have ok: "song_list_ok (ah_files a)" "heap_wf h" "ah_client a = client" using good own w by (simp_all add: good_handler_def)
    obtain r where "audio_handlePacket env a pk h q = Some r"
        "case r of Inl f \<Rightarrow> f \<in> {OutOfRange, InvalidParameter} | Inr w \<Rightarrow> pushes_for (ah_client a) (h, q) w"
      using audio_handler_returns [OF ok(1,2) pk, of env q] by blast
    then show ?thesis using AudioH w ok
      by (cases r) (auto simp: good_handler_def pushes_for_def)
  next
    case (SettingsH s)
    then have ok: "settings_ok (mSettings s)" "heap_wf h" using good w by (simp_all add: good_handler_def)
    have shape: "settings_shape (settings_of_image (take 66 (packetData pk)))"
      by (rule settings_of_packet_shape [OF pk])
    show ?thesis
    proof (cases "settings_handlePacket s pk")
      case (Inl f)
      then have "f = InvalidParameter"
        using Settings_assign_unterminated [OF ok(1) shape] Settings_assign_ok [OF ok(1)] shape
        by (fastforce simp: settings_handlePacket_eq [OF pk ok(1)] settings_ok_def split: if_splits)
      then show ?thesis using SettingsH w Inl by simp
    next
      case (Inr s')
      then show ?thesis using SettingsH w ok settings_handlePacket_keeps [OF pk ok(1) Inr]
        by (simp add: good_handler_def pushes_for_refl)
    qed
  qed
qed

lemma good_handler_moves: "good_handler hl w \<Longrightarrow> only_pushes w w' \<Longrightarrow> good_handler hl w'"
  by (auto simp: good_handler_def only_pushes_def)

interpretation ih: input_handlers "handlePacket env" mListenFor good_handler only_pushes
    "{OutOfRange, InvalidParameter}"
proof unfold_locales
  fix hl w pk assume "good_handler hl w" and pk: "packet_wf pk"
  moreover obtain client where "serves client hl" using serves_some by blast
  ultimately obtain r where "handlePacket env hl pk w = Some r" "case r of Inl f \<Rightarrow> f \<in> {OutOfRange, InvalidParameter}
      | Inr (hl', w') \<Rightarrow> good_handler hl' w' \<and> serves client hl' \<and> pushes_for client w w' \<and> mListenFor hl' = mListenFor hl"
    using handlePacket_returns by blast
  then show "\<exists>r. handlePacket env hl pk w = Some r \<and> (case r of Inl f \<Rightarrow> f \<in> {OutOfRange, InvalidParameter}
      | Inr (hl', w') \<Rightarrow> good_handler hl' w' \<and> only_pushes w w' \<and> mListenFor hl' = mListenFor hl)"
    by (cases r) (auto dest: pushes_for_only)
qed (auto intro: good_handler_moves only_pushes_refl only_pushes_trans)

text \<open>The same contract for the handlers of one client, which push for nobody else.\<close>

interpretation own: input_handlers "handlePacket env" mListenFor "\<lambda>hl w. good_handler hl w \<and> serves client hl"
    "pushes_for client" "{OutOfRange, InvalidParameter}"
proof unfold_locales
  fix hl w pk assume "good_handler hl w \<and> serves client hl" and "packet_wf pk"
  then obtain r where "handlePacket env hl pk w = Some r" "case r of Inl f \<Rightarrow> f \<in> {OutOfRange, InvalidParameter}
      | Inr (hl', w') \<Rightarrow> good_handler hl' w' \<and> serves client hl' \<and> pushes_for client w w' \<and> mListenFor hl' = mListenFor hl"
    using handlePacket_returns by blast
  then show "\<exists>r. handlePacket env hl pk w = Some r \<and> (case r of Inl f \<Rightarrow> f \<in> {OutOfRange, InvalidParameter}
      | Inr (hl', w') \<Rightarrow> (good_handler hl' w' \<and> serves client hl') \<and> pushes_for client w w' \<and> mListenFor hl' = mListenFor hl)"
    by (cases r) auto
qed (auto intro: good_handler_moves pushes_for_only pushes_for_refl pushes_for_trans)

section \<open>Messages\<close>

lemma received_full:
  assumes "sizeof_Packet \<le> length buffer"
  shows "received_handler env hls buffer (of_nat sizeof_Packet) w =
    (if recv_ok buffer then
       map_option (\<lambda>r. case r of Inl f \<Rightarrow> if std_exception f then Inr (hls, w) else Inl f | Inr x \<Rightarrow> Inr x)
         (call_handlers (handlePacket env) mListenFor (recv_packet buffer) hls w)
     else Some (Inr (hls, w)))"
  using Deserialize_default [OF assms]
  by (simp add: received_handler_def del: sizeof_Packet_val)

lemma not_listening: "\<not> listensFor m (pkt_type Packet_default)"
  by (simp add: listensFor_def type_and_def Packet_default_def)

lemma received_short:
  assumes "sz \<noteq> of_nat sizeof_Packet"
  shows "received_handler env hls buffer sz w = Some (Inr (hls, w))"
  using Deserialize_wrong_length [OF assms, of Packet_default buffer] ih.call_handlers_ignored [of hls Packet_default env w]
    not_listening
  by (simp add: received_handler_def)

lemma received_dropped:
  assumes "sizeof_Packet \<le> length buffer" and "\<not> (sz = of_nat sizeof_Packet \<and> recv_ok buffer)"
  shows "received_handler env hls buffer sz w = Some (Inr (hls, w))"
  using received_full [OF assms(1), of env hls w] received_short [of sz env hls buffer w] assms(2)
  by (cases "sz = of_nat sizeof_Packet") (simp_all del: sizeof_Packet_val)

text \<open>The handlers as the factory makes them.\<close>

definition factory_handlers :: "AudioServerHandler \<Rightarrow> SettingsHandler \<Rightarrow> bool" where
  "factory_handlers a s \<longleftrightarrow> ah_listen a = type_or (type_val TRACK) (type_val FILELIST)
     \<and> song_list_ok (ah_files a) \<and> sh_listen s = type_val SETTINGS \<and> settings_ok (mSettings s)"

lemma make_handlers_factory:
  assumes "make_handlers dir fs junk cjunk client h = Inr (hls, h')"
  obtains a s where "hls = [AudioH a, SettingsH s]" and "factory_handlers a s" and "ah_client a = client"
proof -
  obtain a where a: "AudioServerHandler_new dir fs junk cjunk client h = Inr (a, h')"
      and hls: "hls = [AudioH a, SettingsH (SettingsHandler_new Settings_default)]"
    using assms by (auto simp: make_handlers_def Let_def res_bind_Inr_iff)
  obtain fl where "FileList_new dir (song_converter fs junk) (song_copier cjunk) music_folder
        (str_lit ''wav'') h = Inr (fl, h')"
      and a': "a = \<lparr> ah_listen = type_or (type_val TRACK) (type_val FILELIST), ah_files = fl, ah_client = client \<rparr>"
    using a by (auto simp: AudioServerHandler_new_def res_bind_Inr_iff)
  then have "song_list_ok fl" by (auto dest: FileList_new_songs(1))
  then show thesis
    using that hls a' Settings_default_ok by (simp add: factory_handlers_def SettingsHandler_new_def)
qed

lemma make_handlers_good:
  assumes "heap_wf h" and "make_handlers dir fs junk cjunk client h = Inr (hls, h')"
  shows "heap_wf h'" and "hp_cells h \<subseteq>\<^sub>m hp_cells h'" and "\<forall>hl \<in> set hls. good_handler hl (h', q)"
proof -
  obtain fl where fl: "FileList_new dir (song_converter fs junk) (song_copier cjunk) music_folder
        (str_lit ''wav'') h = Inr (fl, h')"
    using assms(2) by (auto simp: make_handlers_def AudioServerHandler_new_def Let_def res_bind_Inr_iff)
  show heap: "heap_wf h'" "hp_cells h \<subseteq>\<^sub>m hp_cells h'"
    using FileList_new_heap [OF assms(1) fl] by simp_all
  obtain a s where "hls = [AudioH a, SettingsH s]" "factory_handlers a s"
    using make_handlers_factory [OF assms(2)] by metis
  then show "\<forall>hl \<in> set hls. good_handler hl (h', q)"
    using heap by (simp add: good_handler_def factory_handlers_def)
qed

lemma factory_listen: "factory_handlers a s \<Longrightarrow> ah_listen a = 10 \<and> sh_listen s = 32"
  by (simp add: factory_handlers_def type_or_def)

lemma call_factory_handlers:
  assumes "factory_handlers a s"
  shows "call_handlers (handlePacket env) mListenFor pk [AudioH a, SettingsH s] (h, q) =
    (case (if listensFor 10 (pkt_type pk) then audio_handlePacket env a pk h q else Some (Inr (h, q))) of
       None \<Rightarrow> None
     | Some (Inl f) \<Rightarrow> Some (Inl f)
     | Some (Inr w) \<Rightarrow>
         Some (if listensFor 32 (pkt_type pk)
           then res_bind (settings_handlePacket s pk) (\<lambda>s'. Inr ([AudioH a, SettingsH s'], w))
           else Inr ([AudioH a, SettingsH s], w)))"
proof -
  have "call_handlers (handlePacket env) mListenFor pk [SettingsH s] w =
      Some (if listensFor 32 (pkt_type pk)
        then res_bind (settings_handlePacket s pk) (\<lambda>s'. Inr ([SettingsH s'], w))
        else Inr ([SettingsH s], w))" for w
    using factory_listen [OF assms] by (cases "settings_handlePacket s pk") auto
  then show ?thesis using factory_listen [OF assms]
    by (cases "settings_handlePacket s pk") (auto split: option.splits sum.splits)
qed

lemma routed:
  assumes "sizeof_Packet \<le> length buffer" and "factory_handlers a s" and "heap_wf h"
    and "recv_ok buffer" and ty: "recv_type buffer = type_val t"
  shows "received_handler env [AudioH a, SettingsH s] buffer (of_nat sizeof_Packet) (h, q) =
    (if t = TRACK \<or> t = FILELIST then
       map_option (\<lambda>r. case r of
           Inl f \<Rightarrow> if std_exception f then Inr ([AudioH a, SettingsH s], (h, q)) else Inl f
         | Inr w \<Rightarrow> Inr ([AudioH a, SettingsH s], w))
         (audio_handlePacket env a (recv_packet buffer) h q)
     else if t = SETTINGS then
       Some (res_bind (settings_handlePacket s (recv_packet buffer)) (\<lambda>s'. Inr ([AudioH a, SettingsH s'], (h, q))))
     else Some (Inr ([AudioH a, SettingsH s], (h, q))))"
proof -
  let ?pk = "recv_packet buffer"
  have pt: "pkt_type ?pk = type_val t" using ty by (simp add: recv_packet_def)
  have l: "listensFor 10 (type_val t) \<longleftrightarrow> t = TRACK \<or> t = FILELIST" "listensFor 32 (type_val t) \<longleftrightarrow> t = SETTINGS"
    by (cases t; simp add: listensFor_def type_and_def)+
  have set_only: "e = InvalidParameter" if "settings_handlePacket s ?pk = Inl e" for e
    using settings_outcome [of ?pk s] recv_packet_wf [OF assms(4,1)] assms(2) that
    by (auto simp: factory_handlers_def split: if_splits)
  note call = call_factory_handlers [OF assms(2), of env ?pk h q, unfolded pt l]
  show ?thesis
    unfolding received_full [OF assms(1)] call using assms(4) set_only
    by (cases "settings_handlePacket s ?pk") (auto split: option.splits sum.splits)
qed

lemma received_returns:
  assumes "sizeof_Packet \<le> length buffer" and "\<forall>hl \<in> set hls. good_handler hl w"
  shows "\<exists>r. received_handler env hls buffer sz w = Some r \<and> (case r of
      Inl f \<Rightarrow> f = InvalidParameter
    | Inr (hls', w') \<Rightarrow> (\<forall>hl \<in> set hls'. good_handler hl w') \<and> only_pushes w w'
        \<and> map mListenFor hls' = map mListenFor hls)"
proof (cases "sz = of_nat sizeof_Packet \<and> recv_ok buffer")
  case True
  then have "packet_wf (recv_packet buffer)" using recv_packet_wf assms(1) by blast
  from ih.call_handlers_returns [OF this assms(2), of env] obtain r where
    r: "call_handlers (handlePacket env) mListenFor (recv_packet buffer) hls w = Some r"
      "case r of Inl f \<Rightarrow> f \<in> {OutOfRange, InvalidParameter} | Inr (hls', w') \<Rightarrow>
        (\<forall>hl \<in> set hls'. good_handler hl w') \<and> only_pushes w w' \<and> map mListenFor hls' = map mListenFor hls"
    by blast
  have "received_handler env hls buffer sz w =
      Some (case r of Inl f \<Rightarrow> if std_exception f then Inr (hls, w) else Inl f | Inr x \<Rightarrow> Inr x)"
    using received_full [OF assms(1), of env hls w] True r(1) by (simp del: sizeof_Packet_val)
  then show ?thesis using r(2) assms(2) only_pushes_refl [of w]
    by (cases r) auto
next
  case False
  then show ?thesis
    using received_dropped [OF assms(1) False] assms(2) only_pushes_refl [of w] by auto
qed

text \<open>The handlers of one client push for that client.\<close>

lemma received_serves:
  assumes len: "sizeof_Packet \<le> length buffer" and good: "\<forall>hl \<in> set hls. good_handler hl w \<and> serves client hl"
    and run: "received_handler env hls buffer sz w = Some (Inr (hls', w'))"
  shows "pushes_for client w w' \<and> (\<forall>hl \<in> set hls'. serves client hl)"
proof (cases "sz = of_nat sizeof_Packet \<and> recv_ok buffer")
  case True
  then have "packet_wf (recv_packet buffer)" using recv_packet_wf len by blast
  from own.call_handlers_returns [OF this good, of env] obtain r where
    r: "call_handlers (handlePacket env) mListenFor (recv_packet buffer) hls w = Some r"
      "case r of Inl f \<Rightarrow> f \<in> {OutOfRange, InvalidParameter} | Inr (hls', w') \<Rightarrow>
        (\<forall>hl \<in> set hls'. good_handler hl w' \<and> serves client hl) \<and> pushes_for client w w'"
    by (fastforce split: sum.splits)
  have "received_handler env hls buffer sz w =
      Some (case r of Inl f \<Rightarrow> if std_exception f then Inr (hls, w) else Inl f | Inr x \<Rightarrow> Inr x)"
    using received_full [OF len, of env hls w] True r(1) by (simp del: sizeof_Packet_val)
  then show ?thesis using r(2) run good pushes_for_refl by (cases r) (auto split: if_splits)
next
  case False
  then show ?thesis using received_dropped [OF len False] run good pushes_for_refl by auto
qed

text \<open>
  A full message that asks for a listed song, run through the handlers: what is pushed are the header of the
  file, then its data without the first 44 bytes.
\<close>

lemma song_request_handled:
  assumes fac: "factory_handlers a s" and wf: "heap_wf h" and song: "song_ok song"
    and n: "n < length (mFileMap (ah_files a))"
    and hit: "song_key (fst (mFileMap (ah_files a) ! n)) = song_key song"
    and first: "\<forall>j < n. song_key (fst (mFileMap (ah_files a) ! j)) \<noteq> song_key song"
    and on_disk: "re_fs env (snd (mFileMap (ah_files a) ! n)) = Some (header_image wh @ data)"
    and wh: "header_shape wh" "chunk_id wh = RIFF" "wh_format wh = WAVE"
    and alive: "\<forall>k. re_alive env k" and pad: "length pad = 892"
    and sz: "sz = unat (subchunk2_size wh) - 44"
  shows "\<exists>h' q' p0 ps.
    received_handler env [AudioH a, SettingsH s]
        (request_image 132 i (type_val TRACK) (song_image song @ pad)) (of_nat sizeof_Packet) (h, q)
      = Some (Inr ([AudioH a, SettingsH s], (h', q')))
    \<and> mQueue q' = mQueue q @ map (Pair (ah_client a)) (p0 # ps)
    \<and> (\<forall>x \<in> set (p0 # ps). packet_wf x \<and> pkt_type x = type_val AUDIO \<and> pkt_id x = i)
    \<and> payload p0 = header_image wh
    \<and> concat (map payload ps) = take sz (drop 44 data)
        @ map (\<lambda>j. re_junk env (1 + j div 1024) (j mod 1024)) [length data - 44..<sz]"
proof -
  let ?m = "request_image 132 i (type_val TRACK) (song_image song @ pad)"
  let ?pk = "recv_packet ?m"
  have il: "length (song_image song) = 132" using song.enc_length [OF song_ok_shape [OF song]] by simp
  have m: "recv_ok ?m" "sizeof_Packet \<le> length ?m" "recv_type ?m = type_val TRACK"
    using il pad by (simp_all add: recv_ok_def)
  have pk: "packet_wf ?pk" "pkt_type ?pk = type_val TRACK" "pkt_id ?pk = i" "pkt_size ?pk = of_nat sizeof_Song"
      "payload ?pk = song_image song"
    using recv_packet_wf [OF m(1,2)] il by (simp_all add: recv_packet_def payload_def)
  have img: "song_of_image (payload ?pk) = song" using pk(5) song.dec_enc [OF song_ok_shape [OF song]] by simp
  have names: "terminated (take 64 (payload ?pk)) \<and> terminated (take 64 (drop 64 (payload ?pk)))"
    using song pk(5) by (simp add: song_ok_def song_shape_def song_image_def)
  obtain t where t: "song_ok t" "song_key t = song_key song"
      "audio_handlePacket env a ?pk h q = requestFile (re_fs env) (re_junk env) (re_pjunk env) (re_sjunk env)
         (re_index env) (re_alive env) (ah_client a) i (ah_files a) t h q"
    using track_outcome [OF pk(1,2), of env a h q] names pk(3,4) img by auto
  have ok: "song_list_ok (ah_files a)" using fac by (simp add: factory_handlers_def)
  have run: "audio_handlePacket env a ?pk h q = stream_file (re_fs env) (re_junk env) (re_pjunk env)
      (re_alive env) (ah_client a) i (snd (mFileMap (ah_files a) ! n)) h q"
    using requestFile_found [OF ok t(1) n] hit first t(2,3) by simp
  obtain h' q' p0 ps where st: "stream_file (re_fs env) (re_junk env) (re_pjunk env) (re_alive env) (ah_client a) i
        (snd (mFileMap (ah_files a) ! n)) h q = Some (Inr (h', q'))"
      "mQueue q' = mQueue q @ map (Pair (ah_client a)) (p0 # ps)"
      "\<forall>x \<in> set (p0 # ps). packet_wf x \<and> pkt_type x = type_val AUDIO \<and> pkt_id x = i"
      "payload p0 = header_image wh" "map payload ps = chunk_list (re_junk env) 1 (drop 44 data) sz"
    using wav_stream [where fs = "re_fs env" and alive = "re_alive env", OF wf on_disk wh alive] sz by blast
  have rec: "received_handler env [AudioH a, SettingsH s] ?m (of_nat sizeof_Packet) (h, q)
      = Some (Inr ([AudioH a, SettingsH s], (h', q')))"
    using routed [OF m(2) fac wf m(1,3), of env q] run st(1) by simp
  moreover have "concat (map payload ps) = take sz (drop 44 data)
        @ map (\<lambda>j. re_junk env (1 + j div 1024) (j mod 1024)) [length data - 44..<sz]"
    by (simp only: st(5) chunk_list_concat length_drop)
  ultimately show ?thesis using st(2-4) by blast
qed

lemma list_request_handled:
  assumes "make_handlers dir fs junk cjunk client h0 = Inr ([AudioH a, SettingsH s], h1)"
    and "heap_wf h" and "length data = maxPacketSize" and "\<forall>n. re_alive env n"
  shows "\<exists>h' q' pks. received_handler env [AudioH a, SettingsH s]
        (request_image 0 i (type_val FILELIST) data) (of_nat sizeof_Packet) (h, q)
      = Some (Inr ([AudioH a, SettingsH s], (h', q')))
    \<and> hp_cells h' = hp_cells h \<and> mQueue q' = mQueue q @ map (Pair client) pks
    \<and> length pks = max 1 ((length (mFileMap (ah_files a)) + 6) div 7)
    \<and> (\<forall>pk \<in> set pks. packet_wf pk \<and> pkt_type pk = type_val FILELIST \<and> pkt_id pk = i)
    \<and> map song_key (concat (map songs_in pks)) = map (song_key \<circ> fst) (mFileMap (ah_files a))"
proof -
  let ?m = "request_image 0 i (type_val FILELIST) data"
  have fac: "factory_handlers a s" "ah_client a = client"
    using make_handlers_factory [OF assms(1)] by (metis InputHandler.inject list.inject)+
  then have ok: "song_list_ok (ah_files a)" by (simp add: factory_handlers_def)
  have m: "recv_ok ?m" "sizeof_Packet \<le> length ?m" "recv_type ?m = type_val FILELIST"
    using assms(3) by (simp_all add: recv_ok_def)
  have pk: "pkt_type (recv_packet ?m) = type_val FILELIST" "pkt_id (recv_packet ?m) = i"
    by (simp_all add: recv_packet_def)
  have aud: "audio_handlePacket env a (recv_packet ?m) h q =
      Some (requestFileList (re_junk env) (re_sjunk env) (re_alive env) client i (ah_files a) h q)"
    using pk fac(2) by (simp add: audio_handlePacket_def)
  obtain h' q' pks where r: "requestFileList (re_junk env) (re_sjunk env) (re_alive env) client i (ah_files a) h q
        = Inr (h', q')" "hp_cells h' = hp_cells h" "mQueue q' = mQueue q @ map (Pair client) pks"
      "length pks = max 1 ((length (mFileMap (ah_files a)) + 6) div 7)"
      "\<forall>pk \<in> set pks. packet_wf pk \<and> pkt_type pk = type_val FILELIST \<and> pkt_id pk = i"
      "map song_key (concat (map songs_in pks)) = map (song_key \<circ> fst) (mFileMap (ah_files a))"
    using file_list_packets [OF assms(2) ok assms(4), of "re_junk env" "re_sjunk env" client i q] by blast
  have "received_handler env [AudioH a, SettingsH s] ?m (of_nat sizeof_Packet) (h, q)
      = Some (Inr ([AudioH a, SettingsH s], (h', q')))"
    using routed [OF m(2) fac(1) assms(2) m(1,3), of env q] aud r(1) by simp
  then show ?thesis using r(2-6) by blast
qed

section \<open>Properties\<close>

text \<open>
  C4. Receiving always returns. Whatever bytes and whatever length a completed read reports, the
  received handler comes back; it has then only pushed well-formed packets, the store holds the
  blocks it held, and the handlers are as good as before and listen for the same types. The only
  way it does not come back normally is the invalid parameter handler.
\<close>

theorem received_message_returns:
  assumes "sizeof_Packet \<le> length buffer" and "\<forall>hl \<in> set hls. good_handler hl w"
  shows "\<exists>r. received_handler env hls buffer sz w = Some r \<and> (case r of
      Inl f \<Rightarrow> f = InvalidParameter
    | Inr (hls', w') \<Rightarrow> (\<forall>hl \<in> set hls'. good_handler hl w') \<and> only_pushes w w'
        \<and> map mListenFor hls' = map mListenFor hls)"
  by (rule received_returns [OF assms])

lemma demo_good:
  "\<forall>hl \<in> set [AudioH demo_handler, SettingsH (SettingsHandler_new Settings_default)].
     good_handler hl (heap_empty, \<lparr> mQueue = [] \<rparr>)"
  using demo_list_simps Settings_default_ok heap_empty_wf
  by (simp add: good_handler_def demo_handler_def SettingsHandler_new_def)

theorem received_message_returns_witness:
  "\<exists>r. received_handler demo_env [AudioH demo_handler, SettingsH (SettingsHandler_new Settings_default)]
     (replicate 1036 255) 1036 (heap_empty, \<lparr> mQueue = [] \<rparr>) = Some r
   \<and> (case r of Inl f \<Rightarrow> f = InvalidParameter | Inr (hls', w') \<Rightarrow> length hls' = 2)"
proof -
  have "sizeof_Packet \<le> length (replicate 1036 255)" by simp
  from received_message_returns [OF this demo_good, of demo_env 1036]
  obtain r where "received_handler demo_env [AudioH demo_handler, SettingsH (SettingsHandler_new Settings_default)]
      (replicate 1036 255) 1036 (heap_empty, \<lparr> mQueue = [] \<rparr>) = Some r"
    "case r of Inl f \<Rightarrow> f = InvalidParameter | Inr (hls', w') \<Rightarrow>
       map mListenFor hls' = map mListenFor [AudioH demo_handler, SettingsH (SettingsHandler_new Settings_default)]"
    by (fastforce split: sum.splits)
  then show ?thesis
    by (intro exI [of _ r]) (auto split: sum.splits dest!: map_eq_imp_length_eq)
qed

text \<open>
  Messages that are dropped. A read that completes with any other number of bytes than the size
  of a packet, and a full one whose size field or type is out of range, have no effect at all: no
  handler runs and nothing is kept of the bytes, so a message that arrives in two reads is lost.
\<close>

theorem dropped_messages:
  assumes "sizeof_Packet \<le> length buffer"
    and "sz \<noteq> of_nat sizeof_Packet \<or> \<not> recv_ok buffer"
  shows "received_handler env hls buffer sz w = Some (Inr (hls, w))"
  using received_dropped [OF assms(1)] assms(2) by blast

theorem dropped_messages_witness:
  "received_handler demo_env [AudioH demo_handler] (replicate 1036 2) 1000 (heap_empty, \<lparr> mQueue = [] \<rparr>)
     = Some (Inr ([AudioH demo_handler], (heap_empty, \<lparr> mQueue = [] \<rparr>)))"
  using dropped_messages [of "replicate 1036 2" 1000] by simp

lemma recv_packet_facts:
  assumes "sizeof_Packet \<le> length buffer" and "recv_ok buffer"
  shows "packet_wf (recv_packet buffer)" and "pkt_type (recv_packet buffer) = recv_type buffer"
    and "pkt_size (recv_packet buffer) = recv_size buffer"
    and "payload (recv_packet buffer) = take (unat (recv_size buffer)) (drop 12 buffer)"
proof -
  show wf: "packet_wf (recv_packet buffer)" using recv_packet_wf assms by blast
  show "pkt_type (recv_packet buffer) = recv_type buffer" "pkt_size (recv_packet buffer) = recv_size buffer"
    by (simp_all add: recv_packet_def)
  show "payload (recv_packet buffer) = take (unat (recv_size buffer)) (drop 12 buffer)"
    using packet_wf_size [OF wf] assms(1) by (simp add: payload_def recv_packet_def)
qed

text \<open>The only fault of the settings handler, and that of the audio handler that is not caught.\<close>

lemma recv_settings_fault:
  assumes "sizeof_Packet \<le> length buffer" and "recv_ok buffer" and "settings_ok (mSettings s)"
  shows "settings_handlePacket s (recv_packet buffer) = Inl InvalidParameter \<longleftrightarrow>
      recv_size buffer = of_nat sizeof_Settings \<and> \<not> terminated (take 64 (drop 12 buffer))"
    and "settings_handlePacket s (recv_packet buffer) = Inl e \<Longrightarrow> e = InvalidParameter"
  using settings_outcome [OF recv_packet_facts(1) [OF assms(1,2)] assms(3)]
  by (auto simp: recv_packet_facts [OF assms(1,2)] split: if_splits)

lemma recv_track_fault:
  assumes "sizeof_Packet \<le> length buffer" and "recv_ok buffer" and "song_list_ok (ah_files a)" and "heap_wf h"
  shows "audio_handlePacket env a (recv_packet buffer) h q = Some (Inl InvalidParameter) \<longleftrightarrow>
    recv_type buffer = type_val TRACK \<and> recv_size buffer = of_nat sizeof_Song
      \<and> \<not> (terminated (take 64 (drop 12 buffer)) \<and> terminated (take 64 (drop 64 (drop 12 buffer))))"
  using audio_killed [OF assms(3,4) recv_packet_facts(1) [OF assms(1,2)], of env q]
  by (auto simp: recv_packet_facts [OF assms(1,2)] drop_take)

text \<open>
  C5. Which messages kill the server. With the handlers of the factory, a received message ends the
  process exactly when it is a full, accepted message that is a TRACK request with the size of a song
  whose names are not both terminated, or a message with the SETTINGS bit and the size of the
  settings whose name is not terminated. Any client can send one.
\<close>

theorem messages_that_kill:
  assumes "sizeof_Packet \<le> length buffer" and "factory_handlers a s" and "heap_wf h"
  shows "(\<exists>f. received_handler env [AudioH a, SettingsH s] buffer sz (h, q) = Some (Inl f)) \<longleftrightarrow>
    sz = of_nat sizeof_Packet \<and> recv_ok buffer \<and>
    (let data = drop 12 buffer in
      recv_type buffer = type_val TRACK \<and> recv_size buffer = of_nat sizeof_Song
        \<and> \<not> (terminated (take 64 data) \<and> terminated (take 64 (drop 64 data)))
      \<or> listensFor (type_val SETTINGS) (recv_type buffer) \<and> recv_size buffer = of_nat sizeof_Settings
        \<and> \<not> terminated (take 64 data))"
proof (cases "sz = of_nat sizeof_Packet \<and> recv_ok buffer")
  case False
  then show ?thesis using received_dropped [OF assms(1) False] by auto
next
  case True
  let ?pk = "recv_packet buffer"
  let ?data = "drop 12 buffer"
  have ok: "song_list_ok (ah_files a)" "settings_ok (mSettings s)" and r: "recv_ok buffer"
    using assms(2) True by (simp_all add: factory_handlers_def)
  note f = recv_packet_facts(2,3) [OF assms(1) r]
  note set_fault = recv_settings_fault [OF assms(1) r ok(2)]
  let ?run = "call_handlers (handlePacket env) mListenFor ?pk [AudioH a, SettingsH s] (h, q)"
  have rec: "received_handler env [AudioH a, SettingsH s] buffer sz (h, q) = map_option (\<lambda>r. case r of
      Inl f \<Rightarrow> if std_exception f then Inr ([AudioH a, SettingsH s], (h, q)) else Inl f | Inr x \<Rightarrow> Inr x) ?run"
    using received_full [OF assms(1)] True by (simp del: sizeof_Packet_val)
  obtain ra where ra: "audio_handlePacket env a ?pk h q = Some ra"
      "case ra of Inl f \<Rightarrow> f \<in> {OutOfRange, InvalidParameter} | Inr w \<Rightarrow> pushes_for (ah_client a) (h, q) w"
    using audio_handler_returns [OF ok(1) assms(3) recv_packet_facts(1) [OF assms(1) r], of env q] by blast
  have track_fault: "ra = Inl InvalidParameter \<longleftrightarrow> recv_type buffer = type_val TRACK
      \<and> recv_size buffer = of_nat sizeof_Song
      \<and> \<not> (terminated (take 64 ?data) \<and> terminated (take 64 (drop 64 ?data)))"
    using recv_track_fault [OF assms(1) r ok(1) assms(3), of env q] ra(1) by simp
  have t: "\<not> listensFor 32 2" "listensFor 10 2" by (simp_all add: listensFor_def type_and_def)
  note run = call_factory_handlers [OF assms(2), of env ?pk h q, unfolded f]
  show ?thesis
  proof (cases ra)
    case (Inl e)
    then have ty: "recv_type buffer = 2"
      using audio_fault_is_track [OF ok(1) assms(3), of env ?pk q e] ra(1) Inl by (simp add: f)
    then have "?run = Some (Inl e)" unfolding run using ra(1) Inl t by simp
    then have "(\<exists>f. received_handler env [AudioH a, SettingsH s] buffer sz (h, q) = Some (Inl f))
        \<longleftrightarrow> e = InvalidParameter"
      using rec Inl ra(2) by auto
    then show ?thesis using track_fault Inl ty t True by (simp add: Let_def)
  next
    case (Inr w)
    define w' where "w' = (if listensFor 10 (recv_type buffer) then w else (h, q))"
    have "?run = Some (if listensFor 32 (recv_type buffer)
           then res_bind (settings_handlePacket s ?pk) (\<lambda>s'. Inr ([AudioH a, SettingsH s'], w'))
           else Inr ([AudioH a, SettingsH s], w'))"
      unfolding run w'_def using ra(1) Inr by simp
    then have "(\<exists>f. received_handler env [AudioH a, SettingsH s] buffer sz (h, q) = Some (Inl f))
        \<longleftrightarrow> listensFor 32 (recv_type buffer) \<and> settings_handlePacket s ?pk = Inl InvalidParameter"
      unfolding rec using set_fault(2) by (cases "settings_handlePacket s ?pk") auto
    then show ?thesis using track_fault Inr set_fault(1) True by (auto simp: Let_def)
  qed
qed

lemma demo_factory: "factory_handlers demo_handler (SettingsHandler_new Settings_default)"
  using demo_list_simps Settings_default_ok
  by (simp add: factory_handlers_def demo_handler_def SettingsHandler_new_def type_or_def)

theorem messages_that_kill_witness:
  "\<exists>f. received_handler demo_env [AudioH demo_handler, SettingsH (SettingsHandler_new Settings_default)]
     (request_image 66 1 32 (replicate 1024 65)) 1036 (heap_empty, \<lparr> mQueue = [] \<rparr>) = Some (Inl f)"
proof -
  let ?m = "request_image 66 1 32 (replicate 1024 65)"
  have "recv_ok ?m" "sizeof_Packet \<le> length ?m" by (simp_all add: recv_ok_def)
  moreover have "listensFor 32 32" by (simp add: listensFor_def type_and_def)
  moreover have "\<not> terminated (replicate 64 (65 :: byte))" by (simp add: terminated_def)
  ultimately show ?thesis
    using messages_that_kill [OF _ demo_factory heap_empty_wf, of ?m demo_env 1036 "\<lparr> mQueue = [] \<rparr>"]
    by (simp add: Let_def)
qed

text \<open>
  Routing. With the handlers of the factory a full, accepted message of one of the enumerated
  types goes to exactly one place: TRACK and FILELIST to the audio handler, with its faults passed
  on unless they are standard exceptions, SETTINGS to the settings handler, and AUDIO, IMAGE and
  END nowhere.
\<close>

theorem messages_are_routed:
  assumes "sizeof_Packet \<le> length buffer" and "factory_handlers a s" and "heap_wf h"
    and "recv_ok buffer" and ty: "recv_type buffer = type_val t"
  shows "received_handler env [AudioH a, SettingsH s] buffer (of_nat sizeof_Packet) (h, q) =
    (if t = TRACK \<or> t = FILELIST then
       map_option (\<lambda>r. case r of
           Inl f \<Rightarrow> if std_exception f then Inr ([AudioH a, SettingsH s], (h, q)) else Inl f
         | Inr w \<Rightarrow> Inr ([AudioH a, SettingsH s], w))
         (audio_handlePacket env a (recv_packet buffer) h q)
     else if t = SETTINGS then
       Some (res_bind (settings_handlePacket s (recv_packet buffer)) (\<lambda>s'. Inr ([AudioH a, SettingsH s'], (h, q))))
     else Some (Inr ([AudioH a, SettingsH s], (h, q))))"
  by (rule routed [OF assms])

theorem messages_are_routed_witness:
  "received_handler demo_env [AudioH demo_handler, SettingsH (SettingsHandler_new Settings_default)]
     (request_image 0 1 (type_val IMAGE) (replicate 1024 65)) (of_nat sizeof_Packet) (heap_empty, \<lparr> mQueue = [] \<rparr>)
   = Some (Inr ([AudioH demo_handler, SettingsH (SettingsHandler_new Settings_default)], (heap_empty, \<lparr> mQueue = [] \<rparr>)))"
proof -
  let ?m = "request_image 0 1 (type_val IMAGE) (replicate 1024 65)"
  have "recv_ok ?m" "sizeof_Packet \<le> length ?m" by (simp_all add: recv_ok_def)
  then show ?thesis
    using messages_are_routed [OF _ demo_factory heap_empty_wf, of ?m IMAGE demo_env "\<lparr> mQueue = [] \<rparr>"]
    by (simp del: sizeof_Packet_val)
qed

text \<open>
  A client asks for the list. When a request for the list of songs arrives in one read at the
  handlers the factory made, and the queue lives, the send queue gains one packet per seven songs
  for this client, with the id of the request, and their payloads read as arrays of songs say all
  the songs of the list in order.
\<close>

theorem list_request_is_answered:
  assumes "make_handlers dir fs junk cjunk client h0 = Inr ([AudioH a, SettingsH s], h1)"
    and "heap_wf h" and "length data = maxPacketSize" and "\<forall>n. re_alive env n"
  shows "\<exists>h' q' pks. received_handler env [AudioH a, SettingsH s]
        (request_image 0 i (type_val FILELIST) data) (of_nat sizeof_Packet) (h, q)
      = Some (Inr ([AudioH a, SettingsH s], (h', q')))
    \<and> hp_cells h' = hp_cells h \<and> mQueue q' = mQueue q @ map (Pair client) pks
    \<and> length pks = max 1 ((length (mFileMap (ah_files a)) + 6) div 7)
    \<and> (\<forall>pk \<in> set pks. pkt_type pk = type_val FILELIST \<and> pkt_id pk = i)
    \<and> map song_key (concat (map songs_in pks)) = map (song_key \<circ> fst) (mFileMap (ah_files a))"
  using list_request_handled [OF assms, of i q] by blast

theorem list_request_is_answered_witness:
  "\<exists>hls h1 h' q' cp. make_handlers (\<lambda>_. []) (\<lambda>_. None) (\<lambda>_ _. 0) (\<lambda>_ _. 0) 4 heap_empty = Inr (hls, h1)
    \<and> received_handler demo_env hls (request_image 0 8 (type_val FILELIST) (replicate 1024 1))
        (of_nat sizeof_Packet) (heap_empty, \<lparr> mQueue = [] \<rparr>) = Some (Inr (hls, (h', q')))
    \<and> mQueue q' = [cp] \<and> fst cp = 4 \<and> pkt_id (snd cp) = 8"
proof -
  let ?dir = "\<lambda>_. [] :: (bool \<times> str) list" and ?fs = "(\<lambda>_. None) :: filesystem" and ?j = "\<lambda>_ _. 0"
  let ?a = "\<lparr> ah_listen = type_or (type_val TRACK) (type_val FILELIST),
      ah_files = \<lparr> mFileLoc = music_folder, mFileExtn = str_lit ''wav'', mFileMap = [] \<rparr>, ah_client = 4 \<rparr>"
  have mk: "make_handlers ?dir ?fs ?j ?j 4 heap_empty =
      Inr ([AudioH ?a, SettingsH (SettingsHandler_new Settings_default)], heap_empty)"
    by (simp add: make_handlers_def AudioServerHandler_new_def FileList_new_def populate_def Let_def)
  have "\<forall>n. re_alive demo_env n" by (simp add: demo_env_def)
  from list_request_is_answered [OF mk heap_empty_wf _ this, of "replicate 1024 1" 8 "\<lparr> mQueue = [] \<rparr>"]
  show ?thesis using mk by (fastforce simp: length_Suc_conv)
qed

end
