(* ===== verification/ServerSockets.thy ===== *)
theory ServerSockets
  imports Prelude
begin

text \<open>
  Server/ServerSocket.h and Server/ServerSocket.cpp: the listening socket. What the Winsock calls
  answer is an argument (\<open>winsock\<close>); every operation also gives the calls it makes, in order, so
  that what is opened, freed and closed can be stated. Console output is not modelled.
\<close>

type_synonym socket = "64 word"

definition INVALID_SOCKET :: socket where "INVALID_SOCKET = NOT 0"

record ServerSocket =
  mPort :: cint
  mAddress :: str
  mSocketFileDesc :: socket

text \<open>The fields of \<open>addrinfo\<close> the code sets; all others are zeroed.\<close>

record addrinfo =
  ai_flags :: cint
  ai_family :: cint
  ai_socktype :: cint
  ai_protocol :: cint

datatype wsa_call =
    WSAStartup
  | WSACleanup
  | WSASocketW
  | GetAddrInfo str str addrinfo
  | Bind socket
  | FreeAddrInfo
  | Listen socket
  | Accept socket
  | CloseSocket socket

text \<open>What the calls of one operation answer.\<close>

record winsock =
  ws_startup :: cint
  ws_last_error :: cint
  ws_socket :: socket
  ws_getaddrinfo :: cint
  ws_bind :: cint
  ws_listen :: cint
  ws_accept :: socket

text \<open>
  The message of the exception is the literal with the error number added to its address: past
  the literal's end there is nothing that may be read.
\<close>

definition startup_message :: str where
  "startup_message = str_lit ''Error starting server socket. Error Number: ''"

definition ServerSocket_new :: "winsock \<Rightarrow> str \<Rightarrow> cint \<Rightarrow> (ServerSocket \<times> wsa_call list) res" where
  "ServerSocket_new ws hostName port =
     (if ws_startup ws \<noteq> 0 then
        (if 0 \<le> sint (ws_last_error ws) \<and> nat (sint (ws_last_error ws)) \<le> length startup_message
         then Inl RuntimeError else Inl OutOfBounds)
      else Inr (\<lparr> mPort = port, mAddress = hostName, mSocketFileDesc = 0 \<rparr>, [WSAStartup]))"

definition setupServerHints :: addrinfo where
  "setupServerHints = \<lparr> ai_flags = 1, ai_family = 2, ai_socktype = 1, ai_protocol = 6 \<rparr>"

text \<open>\<open>std::to_string\<close> of an \<open>int\<close>.\<close>

fun nat_digits :: "nat \<Rightarrow> str" where
  "nat_digits n = (if n < 10 then [of_nat (48 + n)] else nat_digits (n div 10) @ [of_nat (48 + n mod 10)])"

declare nat_digits.simps [simp del]

definition to_string :: "cint \<Rightarrow> str" where
  "to_string i = (if sint i < 0 then 45 # nat_digits (nat (- sint i)) else nat_digits (nat (sint i)))"

definition acceptSocket :: "winsock \<Rightarrow> ServerSocket \<Rightarrow> (socket \<times> wsa_call list) res" where
  "acceptSocket ws this =
     (if ws_accept ws \<noteq> INVALID_SOCKET then Inr (ws_accept ws, [Accept (mSocketFileDesc this)])
      else Inl ThrownCString)"

definition getSocketFileDescriptor :: "ServerSocket \<Rightarrow> socket" where
  "getSocketFileDescriptor this = mSocketFileDesc this"

definition begin_server :: "winsock \<Rightarrow> ServerSocket \<Rightarrow> bool \<times> ServerSocket \<times> wsa_call list" where
  "begin_server ws this =
     (let this1 = this\<lparr>mSocketFileDesc := ws_socket ws\<rparr>;
          fd = mSocketFileDesc this1;
          ok1 = (fd \<noteq> INVALID_SOCKET);
          calls1 = [WSASocketW];
          ok2 = (ok1 \<and> ws_getaddrinfo ws = 0);
          calls2 = (if ok1 then [GetAddrInfo (mAddress this) (to_string (mPort this)) setupServerHints] else []);
          ok3 = (ok2 \<and> \<not> sint (ws_bind ws) < 0);
          calls3 = (if ok2 then [Bind fd, FreeAddrInfo] else []);
          ok4 = (ok3 \<and> ws_listen ws \<noteq> - 1);
          calls4 = (if ok3 then [Listen fd] else [])
      in (ok4, this1, calls1 @ calls2 @ calls3 @ calls4))"

definition close :: "ServerSocket \<Rightarrow> ServerSocket \<times> wsa_call list" where
  "close this =
     (if mSocketFileDesc this \<noteq> 0
      then (this\<lparr>mSocketFileDesc := 0\<rparr>, [WSACleanup, CloseSocket (mSocketFileDesc this)])
      else (this, [WSACleanup]))"

definition ServerSocket_destroy :: "ServerSocket \<Rightarrow> wsa_call list" where
  "ServerSocket_destroy this = snd (close this)"

section \<open>The life of a socket\<close>

text \<open>
  A run of the public operations and the calls it makes. The socket has been constructed; the run
  ends with the destructor.
\<close>

datatype socket_op = Begin winsock | CloseOp

fun socket_run :: "ServerSocket \<Rightarrow> socket_op list \<Rightarrow> wsa_call list" where
  "socket_run this [] = ServerSocket_destroy this"
| "socket_run this (Begin ws # ops) = (let (_, this', calls) = begin_server ws this in calls @ socket_run this' ops)"
| "socket_run this (CloseOp # ops) = (let (this', calls) = close this in calls @ socket_run this' ops)"

definition num_calls :: "(wsa_call \<Rightarrow> bool) \<Rightarrow> wsa_call list \<Rightarrow> nat" where
  "num_calls P calls = length (filter P calls)"

definition is_close :: "wsa_call \<Rightarrow> bool" where
  "is_close c = (case c of CloseSocket _ \<Rightarrow> True | _ \<Rightarrow> False)"

definition is_open :: "wsa_call \<Rightarrow> bool" where
  "is_open c = (c = WSASocketW)"

lemma num_calls_simps [simp]:
  "num_calls P [] = 0"
  "num_calls P (c # cs) = (if P c then Suc (num_calls P cs) else num_calls P cs)"
  "num_calls P (xs @ ys) = num_calls P xs + num_calls P ys"
  by (simp_all add: num_calls_def)

lemma call_kinds [simp]:
  "is_close (CloseSocket s)" "\<not> is_close WSACleanup" "\<not> is_close WSASocketW"
  "\<not> is_close (GetAddrInfo a p hi)" "\<not> is_close (Bind s)" "\<not> is_close FreeAddrInfo" "\<not> is_close (Listen s)"
  "is_open WSASocketW" "\<not> is_open (CloseSocket s)" "\<not> is_open WSACleanup"
  "\<not> is_open (GetAddrInfo a p hi)" "\<not> is_open (Bind s)" "\<not> is_open FreeAddrInfo" "\<not> is_open (Listen s)"
  by (simp_all add: is_close_def is_open_def)

lemma begin_counts:
  assumes "begin_server ws this = (ok, this', calls)"
  shows "num_calls is_open calls = 1" and "num_calls is_close calls = 0"
    and "mSocketFileDesc this' = ws_socket ws"
  using assms by (auto simp: begin_server_def Let_def split: if_splits)

lemma close_counts:
  assumes "close this = (this', calls)"
  shows "num_calls is_open calls = 0" and "num_calls is_close calls = (if mSocketFileDesc this \<noteq> 0 then 1 else 0)"
    and "mSocketFileDesc this' = 0"
  using assms by (auto simp: close_def split: if_splits)

section \<open>Properties\<close>

text \<open>
  Starting to listen succeeds exactly when every one of the four Winsock calls does. They are made
  in order and each only if those before it succeeded; the address list is freed exactly when it was
  obtained; the listening socket is resolved from the address and port of the constructor. On failure
  the socket stays open and stored, although the source says it would be closed.
\<close>

theorem begin_outcome:
  assumes "begin_server ws this = (ok, this', calls)"
  shows "(ok \<longleftrightarrow> ws_socket ws \<noteq> INVALID_SOCKET \<and> ws_getaddrinfo ws = 0 \<and> 0 \<le> sint (ws_bind ws) \<and> ws_listen ws \<noteq> -1)
    \<and> (\<exists>k. calls = take k [WSASocketW, GetAddrInfo (mAddress this) (to_string (mPort this)) setupServerHints,
             Bind (ws_socket ws), FreeAddrInfo, Listen (ws_socket ws)] \<and> 0 < k)
    \<and> (FreeAddrInfo \<in> set calls \<longleftrightarrow> ws_socket ws \<noteq> INVALID_SOCKET \<and> ws_getaddrinfo ws = 0)
    \<and> mSocketFileDesc this' = ws_socket ws \<and> num_calls is_close calls = 0"
proof -
  let ?all = "[WSASocketW, GetAddrInfo (mAddress this) (to_string (mPort this)) setupServerHints,
             Bind (ws_socket ws), FreeAddrInfo, Listen (ws_socket ws)]"
  have "\<exists>k. calls = take k ?all \<and> 0 < k"
  proof (cases "ws_socket ws \<noteq> INVALID_SOCKET")
    case False
    then show ?thesis using assms by (intro exI [of _ 1]) (auto simp: begin_server_def Let_def)
  next
    case sock: True
    show ?thesis
    proof (cases "ws_getaddrinfo ws = 0")
      case False
      then show ?thesis using assms sock
        by (intro exI [of _ "Suc 1"]) (auto simp: begin_server_def Let_def)
    next
      case True
      then show ?thesis using assms sock
        by (intro exI [of _ "if 0 \<le> sint (ws_bind ws) then Suc (Suc (Suc (Suc 1))) else Suc (Suc (Suc 1))"])
          (auto simp: begin_server_def Let_def)
    qed
  qed
  moreover have "(ok \<longleftrightarrow> ws_socket ws \<noteq> INVALID_SOCKET \<and> ws_getaddrinfo ws = 0 \<and> 0 \<le> sint (ws_bind ws)
      \<and> ws_listen ws \<noteq> -1)"
    using assms by (auto simp: begin_server_def Let_def)
  moreover have "FreeAddrInfo \<in> set calls \<longleftrightarrow> ws_socket ws \<noteq> INVALID_SOCKET \<and> ws_getaddrinfo ws = 0"
    using assms by (auto simp: begin_server_def Let_def)
  ultimately show ?thesis using begin_counts [OF assms] by blast
qed

definition demo_ws :: winsock where
  "demo_ws = \<lparr> ws_startup = 0, ws_last_error = 0, ws_socket = 40, ws_getaddrinfo = 0, ws_bind = -1,
     ws_listen = 0, ws_accept = 50 \<rparr>"

theorem begin_outcome_witness:
  "\<exists>this' calls. begin_server demo_ws \<lparr> mPort = 29054, mAddress = [65], mSocketFileDesc = 0 \<rparr>
      = (False, this', calls)
     \<and> mSocketFileDesc this' = 40 \<and> FreeAddrInfo \<in> set calls \<and> num_calls is_close calls = 0"
proof -
  obtain ok this' calls where b: "begin_server demo_ws \<lparr> mPort = 29054, mAddress = [65], mSocketFileDesc = 0 \<rparr>
      = (ok, this', calls)" by (metis prod_cases3)
  from begin_outcome [OF b] have "\<not> ok" "mSocketFileDesc this' = 40" "FreeAddrInfo \<in> set calls"
      "num_calls is_close calls = 0"
    by (auto simp: demo_ws_def INVALID_SOCKET_def)
  then show ?thesis using b by auto
qed

text \<open>
  What is closed. Over any run of \<open>begin\<close> and \<open>close\<close> calls up to the destructor, at most as many
  sockets are closed as \<open>begin\<close> asked for, none is closed that was not stored, and after a \<open>begin\<close>
  that gets a socket the destructor closes it. A second \<open>begin\<close> without a \<open>close\<close> between forgets
  the first socket: then strictly fewer are closed than were opened.
\<close>

theorem sockets_closed:
  assumes "ws_socket ws1 \<noteq> 0" and "ws_socket ws2 \<noteq> 0"
  shows "num_calls is_close (socket_run this ops) \<le> num_calls is_open (socket_run this ops)
      + (if mSocketFileDesc this \<noteq> 0 then 1 else 0)
    \<and> num_calls is_close (socket_run this [Begin ws1]) = 1
    \<and> num_calls is_open (socket_run this [Begin ws1, Begin ws2]) = 2
    \<and> num_calls is_close (socket_run this [Begin ws1, Begin ws2]) = 1"
proof -
  have "num_calls is_close (socket_run this ops) \<le> num_calls is_open (socket_run this ops)
      + (if mSocketFileDesc this \<noteq> 0 then 1 else 0)"
  proof (induction this ops rule: socket_run.induct)
    case (1 this)
    then show ?case by (simp add: ServerSocket_destroy_def close_def)
  next
    case (2 this ws ops)
    obtain ok this' calls where b: "begin_server ws this = (ok, this', calls)" by (metis prod_cases3)
    show ?case using "2.IH" [OF b [symmetric] refl] begin_counts [OF b] b by (auto split: if_splits)
  next
    case (3 this ops)
    obtain this' calls where c: "close this = (this', calls)" by fastforce
    show ?case using "3.IH" [OF c [symmetric]] close_counts [OF c] c by auto
  qed
  moreover have "num_calls is_close (socket_run this [Begin ws1]) = 1"
    "num_calls is_open (socket_run this [Begin ws1, Begin ws2]) = 2"
    "num_calls is_close (socket_run this [Begin ws1, Begin ws2]) = 1"
    using assms by (simp_all add: begin_server_def Let_def ServerSocket_destroy_def close_def)
  ultimately show ?thesis by blast
qed

theorem sockets_closed_witness:
  "num_calls is_close (socket_run \<lparr> mPort = 1, mAddress = [], mSocketFileDesc = 0 \<rparr> [Begin demo_ws, Begin demo_ws]) = 1"
  using sockets_closed [of demo_ws demo_ws "\<lparr> mPort = 1, mAddress = [], mSocketFileDesc = 0 \<rparr>" "[]"]
  by (simp add: demo_ws_def)

end
