(* ===== verification/Clients.thy ===== *)
theory Clients
  imports Dispatch ServerSockets
begin

text \<open>
  Server/Client.h and Server/Client.cpp: a connected client, its buffer and its two handlers, and
  the one state variable by which a completion is taken for that of a read or of a send. The calls
  to \<open>WSARecv\<close> and \<open>WSASend\<close> are recorded in the order they are made; how they answer is an argument.
\<close>

section \<open>The client\<close>

record WSABUF =
  wb_len :: cint
  wb_buf :: addr

datatype io_status = Started | Pending | Failed

datatype io_call = Recv socket WSABUF | Send socket WSABUF

record io_world =
  iw_heap :: heap
  iw_queue :: send_queue
  iw_calls :: "io_call list"

text \<open>
  The received handler is the default, which does nothing (\<open>None\<close>), or the closure of the factory,
  given by the handlers it has captured. The sent handler gets the bytes that were sent.
\<close>

type_synonym sent_handler = "byte list \<Rightarrow> world \<Rightarrow> world res"

record Client =
  cl_socket :: socket
  cl_buffer :: Buffer
  cl_recv :: WSABUF
  cl_send :: WSABUF
  cl_received :: "InputHandler list option"
  cl_sent :: sent_handler
  cl_state :: cint

definition READ_STATE :: cint where "READ_STATE = 0"
definition SEND_STATE :: cint where "SEND_STATE = 1"
definition RESET_STATE :: cint where "RESET_STATE = 2"

lemma state_simps [simp]:
  "READ_STATE \<noteq> SEND_STATE" "SEND_STATE \<noteq> READ_STATE" "READ_STATE \<noteq> -1" "SEND_STATE \<noteq> -1"
  "RESET_STATE \<noteq> READ_STATE" "RESET_STATE \<noteq> SEND_STATE"
  by (simp_all add: READ_STATE_def SEND_STATE_def RESET_STATE_def)

definition Client_new :: "socket \<Rightarrow> nat \<Rightarrow> (nat \<Rightarrow> byte) \<Rightarrow> heap \<Rightarrow> (Client \<times> heap) res" where
  "Client_new sock bufferSize junk h =
     (let (buffer, h1) = Buffer_sized bufferSize junk h in
      res_bind (heap_store (getBuffer buffer) 0 (replicate bufferSize 0) h1) (\<lambda>h2.
      Inr (\<lparr> cl_socket = sock, cl_buffer = buffer,
             cl_recv = \<lparr> wb_len = of_nat bufferSize, wb_buf = getBuffer buffer \<rparr>,
             cl_send = \<lparr> wb_len = 0, wb_buf = 0 \<rparr>, cl_received = None,
             cl_sent = (\<lambda>_ w. Inr w), cl_state = - 1 \<rparr>, h2)))"

text \<open>The destructor: \<open>Disconnect\<close> is empty, so the socket stays open; the buffer is released.\<close>

definition Disconnect :: "Client \<Rightarrow> Client" where "Disconnect this = this"

definition Client_destroy :: "Client \<Rightarrow> heap \<Rightarrow> heap res" where
  "Client_destroy this h = Buffer_destroy (cl_buffer (Disconnect this)) h"

definition getSocket :: "Client \<Rightarrow> socket" where "getSocket this = cl_socket this"

definition SetReceivedHandler :: "InputHandler list \<Rightarrow> Client \<Rightarrow> Client" where
  "SetReceivedHandler handler this = this\<lparr>cl_received := Some handler\<rparr>"

definition SetSentHandler :: "sent_handler \<Rightarrow> Client \<Rightarrow> Client" where
  "SetSentHandler handler this = this\<lparr>cl_sent := handler\<rparr>"

definition Reset :: "Client \<Rightarrow> Client" where "Reset this = this"

section \<open>Operations\<close>

definition BeginRead :: "io_status \<Rightarrow> Client \<Rightarrow> io_world \<Rightarrow> (Client \<times> io_world) res" where
  "BeginRead status this w =
     (let this1 = this\<lparr>cl_state := READ_STATE\<rparr> in
      if status = Failed then Inl DebugTrap
      else Inr (this1, w\<lparr>iw_calls := iw_calls w @ [Recv (cl_socket this1) (cl_recv this1)]\<rparr>))"

definition BeginSend :: "io_status \<Rightarrow> addr \<Rightarrow> size_t \<Rightarrow> Client \<Rightarrow> io_world \<Rightarrow> (Client \<times> io_world) res" where
  "BeginSend status data dataSize this w =
     (let this1 = this\<lparr>cl_send := \<lparr> wb_len = ucast dataSize, wb_buf = data \<rparr>, cl_state := SEND_STATE\<rparr> in
      if status = Failed then Inl DebugTrap
      else Inr (this1, w\<lparr>iw_calls := iw_calls w @ [Send (cl_socket this1) (cl_send this1)]\<rparr>))"

definition getMessage :: "Client \<Rightarrow> (nat \<Rightarrow> byte) \<Rightarrow> heap \<Rightarrow> (Buffer \<times> heap) res" where
  "getMessage this junk h = Buffer_copy (cl_buffer this) junk h"

text \<open>The handler runs on a copy of the buffer, which is destroyed when it returns.\<close>

definition CompleteRead ::
    "request_env \<Rightarrow> (nat \<Rightarrow> byte) \<Rightarrow> size_t \<Rightarrow> Client \<Rightarrow> io_world \<Rightarrow> (Client \<times> io_world) res option" where
  "CompleteRead env junk sz this w =
     (case getMessage this junk (iw_heap w) of
        Inl f \<Rightarrow> Some (Inl f)
      | Inr (msg, h1) \<Rightarrow>
          (case heap_load (getBuffer msg) (getSize msg) h1 of
             Inl f \<Rightarrow> Some (Inl f)
           | Inr bytes \<Rightarrow>
               map_option (\<lambda>r.
                   res_bind r (\<lambda>(handlers, (h2, q2)).
                   res_bind (Buffer_destroy msg h2) (\<lambda>h3.
                   Inr (this\<lparr>cl_received := handlers\<rparr>, w\<lparr>iw_heap := h3, iw_queue := q2\<rparr>))))
                 (case cl_received this of
                    None \<Rightarrow> Some (Inr (None, (h1, iw_queue w)))
                  | Some hls \<Rightarrow>
                      map_option (\<lambda>r. res_bind r (\<lambda>(hls', w'). Inr (Some hls', w')))
                        (received_handler env hls bytes sz (h1, iw_queue w)))))"

definition CompleteSend :: "(nat \<Rightarrow> byte) \<Rightarrow> Client \<Rightarrow> io_world \<Rightarrow> (Client \<times> io_world) res" where
  "CompleteSend junk this w =
     res_bind (Buffer_from (wb_buf (cl_send this)) (unat (wb_len (cl_send this))) junk (iw_heap w)) (\<lambda>(buff, h1).
     res_bind (heap_load (getBuffer buff) (getSize buff) h1) (\<lambda>bytes.
     res_bind (cl_sent this bytes (h1, iw_queue w)) (\<lambda>(h2, q2).
     res_bind (Buffer_destroy buff h2) (\<lambda>h3.
     Inr (this, w\<lparr>iw_heap := h3, iw_queue := q2\<rparr>)))))"

definition BeginIOEvent ::
    "request_env \<Rightarrow> (nat \<Rightarrow> byte) \<Rightarrow> io_status \<Rightarrow> cint \<Rightarrow> Client \<Rightarrow> io_world \<Rightarrow> (Client \<times> io_world) res option"
  where
  "BeginIOEvent env junk status transferred this w =
     (if cl_state this = READ_STATE then
        map_option (\<lambda>r. res_bind r (\<lambda>(this1, w1). BeginRead status this1 w1))
          (CompleteRead env junk (ucast transferred) this w)
      else if cl_state this = SEND_STATE then Some (CompleteSend junk this w)
      else Some (Inr (this, w)))"

section \<open>Well-formed clients\<close>

text \<open>
  The receive descriptor covers exactly the client's own live buffer of packet size, and the
  handlers, if any are set, are good.
\<close>

definition client_ok :: "Client \<Rightarrow> io_world \<Rightarrow> bool" where
  "client_ok c w \<longleftrightarrow> heap_wf (iw_heap w) \<and> buffer_live (iw_heap w) (cl_buffer c)
     \<and> mBufferSize (cl_buffer c) = sizeof_Packet
     \<and> cl_recv c = \<lparr> wb_len = of_nat sizeof_Packet, wb_buf = mBuffer (cl_buffer c) \<rparr>
     \<and> (\<forall>hls. cl_received c = Some hls \<longrightarrow> (\<forall>hl \<in> set hls. good_handler hl (iw_heap w, iw_queue w)))"

definition client_bytes :: "Client \<Rightarrow> io_world \<Rightarrow> byte list" where
  "client_bytes c w = (case hp_cells (iw_heap w) (mBuffer (cl_buffer c)) of Some m \<Rightarrow> m | None \<Rightarrow> [])"

lemma good_handler_frame:
  "good_handler hl (h, q) \<Longrightarrow> heap_wf h' \<Longrightarrow> good_handler hl (h', q')"
  by (auto simp: good_handler_def)

lemma Client_new_ok:
  assumes "heap_wf h"
  shows "\<exists>c h'. Client_new sock sizeof_Packet junk h = Inr (c, h')
    \<and> client_ok c \<lparr> iw_heap = h', iw_queue = q, iw_calls = calls \<rparr> \<and> cl_socket c = sock \<and> cl_received c = None
    \<and> cl_state c = - 1 \<and> hp_cells h (mBuffer (cl_buffer c)) = None
    \<and> hp_cells h' = (hp_cells h)(mBuffer (cl_buffer c) \<mapsto> replicate sizeof_Packet 0)"
proof -
  obtain b h1 where b: "Buffer_sized sizeof_Packet junk h = (b, h1)" by fastforce
  note sp = Buffer_sized_spec [OF assms b]
  obtain h2 where h2: "heap_store (mBuffer b) 0 (replicate sizeof_Packet 0) h1 = Inr h2" "heap_wf h2"
      "hp_cells h2 = (hp_cells h1)(mBuffer b \<mapsto> replicate sizeof_Packet 0)"
    using hp.put_ok [OF sp(1), of "mBuffer b" "new_bytes sizeof_Packet junk" 0 "replicate sizeof_Packet 0"] sp(3)
    by (auto simp del: sizeof_Packet_val)
  then show ?thesis using b sp
    by (simp add: Client_new_def client_ok_def getBuffer_def buffer_live_def del: sizeof_Packet_val)
qed

text \<open>A completed read is the handlers, run on a copy of the bytes of the buffer.\<close>

lemma CompleteRead_split:
  assumes ok: "client_ok c w"
  obtains msg h1 where "heap_wf h1" and "mBuffer msg \<noteq> 0" and "hp_cells (iw_heap w) (mBuffer msg) = None"
    and "length (client_bytes c w) = sizeof_Packet"
    and "hp_cells h1 = (hp_cells (iw_heap w))(mBuffer msg \<mapsto> client_bytes c w)"
    and "CompleteRead env junk sz c w = map_option (\<lambda>r. res_bind r (\<lambda>(handlers, (h2, q2)).
        res_bind (Buffer_destroy msg h2) (\<lambda>h3. Inr (c\<lparr>cl_received := handlers\<rparr>, w\<lparr>iw_heap := h3, iw_queue := q2\<rparr>))))
      (case cl_received c of None \<Rightarrow> Some (Inr (None, (h1, iw_queue w)))
       | Some hls \<Rightarrow> map_option (\<lambda>r. res_bind r (\<lambda>(hls', w'). Inr (Some hls', w')))
           (received_handler env hls (client_bytes c w) sz (h1, iw_queue w)))"
proof -
  let ?b = "cl_buffer c"
  have wf: "heap_wf (iw_heap w)" and sz: "mBufferSize ?b = sizeof_Packet" using ok by (simp_all add: client_ok_def)
  obtain m where m: "hp_cells (iw_heap w) (mBuffer ?b) = Some m" "length m = sizeof_Packet"
    using ok by (auto simp: client_ok_def buffer_live_def)
  have bytes: "client_bytes c w = m" using m(1) by (simp add: client_bytes_def)
  obtain msg h1 where msg: "Buffer_from (mBuffer ?b) sizeof_Packet junk (iw_heap w) = Inr (msg, h1)" "heap_wf h1"
      "hp_cells (iw_heap w) (mBuffer msg) = None" "mBuffer msg \<noteq> 0" "mBufferSize msg = sizeof_Packet"
      "hp_cells h1 = (hp_cells (iw_heap w))(mBuffer msg \<mapsto> m)"
    using Buffer_from_spec [OF wf m(1), of sizeof_Packet junk] m(2) by (metis order_refl take_all)
  have gm: "getMessage c junk (iw_heap w) = Inr (msg, h1)"
    using msg(1) sz by (simp add: getMessage_def Buffer_copy_eq_from)
  have ld: "heap_load (getBuffer msg) (getSize msg) h1 = Inr m"
    using msg(5,6) m(2) by (simp add: heap_load_ok getBuffer_def getSize_def)
  show thesis
    by (rule that [of h1 msg]) (use msg m(2) gm ld bytes in \<open>simp_all add: CompleteRead_def split: option.split\<close>)
qed

text \<open>A completed read in the read state.\<close>

lemma CompleteRead_spec:
  assumes ok: "client_ok c w"
  shows "\<exists>r. CompleteRead env junk sz c w = Some r \<and> (case r of
      Inl f \<Rightarrow> f = InvalidParameter
    | Inr (c', w') \<Rightarrow> client_ok c' w' \<and> hp_cells (iw_heap w') = hp_cells (iw_heap w)
        \<and> iw_calls w' = iw_calls w \<and> (\<exists>rcv. c' = c\<lparr>cl_received := rcv\<rparr>)
        \<and> (case cl_received c of None \<Rightarrow> cl_received c' = None \<and> iw_queue w' = iw_queue w
           | Some hls \<Rightarrow> \<exists>h1 h2 hls'. heap_wf h1 \<and> hp_cells h2 = hp_cells h1 \<and> cl_received c' = Some hls'
              \<and> received_handler env hls (client_bytes c w) sz (h1, iw_queue w) = Some (Inr (hls', (h2, iw_queue w')))
              \<and> map mListenFor hls' = map mListenFor hls))"
proof -
  obtain msg h1 where msg: "heap_wf h1" "mBuffer msg \<noteq> 0" "hp_cells (iw_heap w) (mBuffer msg) = None"
      "length (client_bytes c w) = sizeof_Packet" "hp_cells h1 = (hp_cells (iw_heap w))(mBuffer msg \<mapsto> client_bytes c w)"
    and run: "CompleteRead env junk sz c w = map_option (\<lambda>r. res_bind r (\<lambda>(handlers, (h2, q2)).
        res_bind (Buffer_destroy msg h2) (\<lambda>h3. Inr (c\<lparr>cl_received := handlers\<rparr>, w\<lparr>iw_heap := h3, iw_queue := q2\<rparr>))))
      (case cl_received c of None \<Rightarrow> Some (Inr (None, (h1, iw_queue w)))
       | Some hls \<Rightarrow> map_option (\<lambda>r. res_bind r (\<lambda>(hls', w'). Inr (Some hls', w')))
           (received_handler env hls (client_bytes c w) sz (h1, iw_queue w)))"
    by (rule CompleteRead_split [OF ok])
  have gone: "\<exists>h3. Buffer_destroy msg h2 = Inr h3 \<and> hp_cells h3 = hp_cells (iw_heap w) \<and> heap_wf h3"
    if h2: "hp_cells h2 = hp_cells h1" "heap_wf h2" for h2
    using hp.release_ok [OF h2(2), of "mBuffer msg" "client_bytes c w"] h2(1) msg(2,3,5)
    by (auto simp: Buffer_destroy_def fun_upd_idem)
  have frame: "client_ok (c\<lparr>cl_received := rcv\<rparr>) (w\<lparr>iw_heap := h3, iw_queue := q2\<rparr>)"
    if "hp_cells h3 = hp_cells (iw_heap w)" "heap_wf h3"
      "\<forall>hls. rcv = Some hls \<longrightarrow> (\<forall>hl \<in> set hls. good_handler hl (h3, q2))" for h3 q2 rcv
    using ok that by (auto simp: client_ok_def buffer_live_def)
  show ?thesis
  proof (cases "cl_received c")
    case None
    obtain h3 where "Buffer_destroy msg h1 = Inr h3" "hp_cells h3 = hp_cells (iw_heap w)" "heap_wf h3"
      using gone [OF refl msg(1)] by blast
    then show ?thesis using None run frame [of h3 None "iw_queue w"] by (auto intro: exI [of _ None])
  next
    case (Some hls)
    have good: "\<forall>hl \<in> set hls. good_handler hl (h1, iw_queue w)"
      using ok Some msg(1) good_handler_frame by (auto simp: client_ok_def)
    have len: "sizeof_Packet \<le> length (client_bytes c w)" using msg(4) by simp
    obtain r where r: "received_handler env hls (client_bytes c w) sz (h1, iw_queue w) = Some r" "case r of
        Inl f \<Rightarrow> f = InvalidParameter
      | Inr (hls', w') \<Rightarrow> (\<forall>hl \<in> set hls'. good_handler hl w') \<and> only_pushes (h1, iw_queue w) w'
          \<and> map mListenFor hls' = map mListenFor hls"
      using received_returns [OF len good, of env sz] by blast
    show ?thesis
    proof (cases r)
      case (Inl f)
      then show ?thesis using r Some run by simp
    next
      case (Inr x)
      then obtain hls' h2 q2 where x: "r = Inr (hls', (h2, q2))" "\<forall>hl \<in> set hls'. good_handler hl (h2, q2)"
          "only_pushes (h1, iw_queue w) (h2, q2)" "map mListenFor hls' = map mListenFor hls"
        using r(2) by (cases x) auto
      have h2: "hp_cells h2 = hp_cells h1" "heap_wf h2" using x(3) msg(1) by (simp_all add: only_pushes_def)
      obtain h3 where h3: "Buffer_destroy msg h2 = Inr h3" "hp_cells h3 = hp_cells (iw_heap w)" "heap_wf h3"
        using gone [OF h2] by blast
      have "\<forall>hl \<in> set hls'. good_handler hl (h3, q2)" using x(2) h3(3) good_handler_frame by blast
      then show ?thesis using Some run r(1) x(1,4) h2(1) h3 frame [of h3 "Some hls'" q2] msg(1) by auto
    qed
  qed
qed

lemma CompleteSend_spec:
  assumes wf: "heap_wf (iw_heap w)" and default: "cl_sent c = (\<lambda>_ w. Inr w)"
    and m: "hp_cells (iw_heap w) (wb_buf (cl_send c)) = Some m" "unat (wb_len (cl_send c)) \<le> length m"
  shows "\<exists>h'. CompleteSend junk c w = Inr (c, w\<lparr>iw_heap := h'\<rparr>) \<and> hp_cells h' = hp_cells (iw_heap w) \<and> heap_wf h'"
proof -
  obtain b h1 where b: "Buffer_from (wb_buf (cl_send c)) (unat (wb_len (cl_send c))) junk (iw_heap w) = Inr (b, h1)"
      "heap_wf h1" "hp_cells (iw_heap w) (mBuffer b) = None" "mBuffer b \<noteq> 0"
      "mBufferSize b = unat (wb_len (cl_send c))"
      "hp_cells h1 = (hp_cells (iw_heap w))(mBuffer b \<mapsto> take (unat (wb_len (cl_send c))) m)"
    using Buffer_from_spec [OF wf m] by metis
  have ld: "heap_load (getBuffer b) (getSize b) h1 = Inr (take (unat (wb_len (cl_send c))) m)"
    using b(5,6) m(2) by (simp add: heap_load_ok getBuffer_def getSize_def)
  obtain h3 where "Buffer_destroy b h1 = Inr h3" "hp_cells h3 = hp_cells (iw_heap w)" "heap_wf h3"
    using hp.release_ok [OF b(2), of "mBuffer b"] b(3,4,6) by (auto simp: Buffer_destroy_def fun_upd_idem)
  then show ?thesis using b(1) ld default by (auto simp: CompleteSend_def)
qed

section \<open>Properties\<close>

text \<open>
  A completion in the read state. The handlers run once, on exactly the bytes of the client's
  buffer and the reported length; when they come back the buffer and every other block are as before,
  one new receive into that buffer has been started, and the client waits in the read state. It
  always comes back, unless a message ends the process.
\<close>

theorem read_completion:
  assumes "client_ok c w" and "cl_received c = Some hls" and "cl_state c = READ_STATE" and "status \<noteq> Failed"
  shows "\<exists>r. BeginIOEvent env junk status transferred c w = Some r \<and> (case r of
      Inl f \<Rightarrow> f = InvalidParameter
    | Inr (c', w') \<Rightarrow> client_ok c' w' \<and> hp_cells (iw_heap w') = hp_cells (iw_heap w)
        \<and> iw_calls w' = iw_calls w @ [Recv (cl_socket c) (cl_recv c)] \<and> cl_state c' = READ_STATE
        \<and> (\<exists>h1 h2 hls'. cl_received c' = Some hls' \<and> hp_cells h2 = hp_cells h1
            \<and> received_handler env hls (client_bytes c w) (ucast transferred) (h1, iw_queue w)
              = Some (Inr (hls', (h2, iw_queue w')))))"
proof -
  obtain r where r: "CompleteRead env junk (ucast transferred) c w = Some r" "case r of
      Inl f \<Rightarrow> f = InvalidParameter
    | Inr (c', w') \<Rightarrow> client_ok c' w' \<and> hp_cells (iw_heap w') = hp_cells (iw_heap w)
        \<and> iw_calls w' = iw_calls w \<and> (\<exists>rcv. c' = c\<lparr>cl_received := rcv\<rparr>)
        \<and> (case cl_received c of None \<Rightarrow> cl_received c' = None \<and> iw_queue w' = iw_queue w
           | Some hls \<Rightarrow> \<exists>h1 h2 hls'. heap_wf h1 \<and> hp_cells h2 = hp_cells h1 \<and> cl_received c' = Some hls'
              \<and> received_handler env hls (client_bytes c w) (ucast transferred) (h1, iw_queue w)
                = Some (Inr (hls', (h2, iw_queue w')))
              \<and> map mListenFor hls' = map mListenFor hls)"
    using CompleteRead_spec [OF assms(1), of env junk "ucast transferred"] by blast
  show ?thesis
  proof (cases r)
    case (Inl f)
    then show ?thesis using r assms(3) by (simp add: BeginIOEvent_def)
  next
    case (Inr x)
    then obtain c1 w1 where x: "r = Inr (c1, w1)" by (cases x) auto
    have "BeginRead status c1 w1 = Inr (c1\<lparr>cl_state := READ_STATE\<rparr>,
        w1\<lparr>iw_calls := iw_calls w1 @ [Recv (cl_socket c1) (cl_recv c1)]\<rparr>)"
      using assms(4) by (simp add: BeginRead_def Let_def)
    then show ?thesis using r x assms(2,3)
      by (auto simp: BeginIOEvent_def client_ok_def)
  qed
qed

text \<open>
  C36. The state is that of the last call, not that of the completion. Once a send has been started
  and its data are still there, any completion is taken for that of the send: no handler runs
  whatever arrived in the buffer, no receive is started, and the state stays, so the message a
  completed receive brought is lost. If the data have been released meanwhile, the completion reads
  freed storage.
\<close>

theorem completion_after_send:
  assumes "heap_wf (iw_heap w0)" and "cl_sent c0 = (\<lambda>_ w. Inr w)" and "data < hp_next (iw_heap w0)"
    and "BeginSend status data dataSize c0 w0 = Inr (c, w)"
  shows "(\<forall>m. hp_cells (iw_heap w) data = Some m \<and> unat (ucast dataSize :: cint) \<le> length m \<longrightarrow>
      (\<exists>w'. BeginIOEvent env junk status2 transferred c w = Some (Inr (c, w'))
        \<and> hp_cells (iw_heap w') = hp_cells (iw_heap w) \<and> iw_queue w' = iw_queue w \<and> iw_calls w' = iw_calls w))
    \<and> (hp_cells (iw_heap w) data = None \<longrightarrow>
      BeginIOEvent env junk status2 transferred c w = Some (Inl UseAfterFree))"
proof (intro conjI allI impI)
  have c: "cl_state c = SEND_STATE" "cl_sent c = (\<lambda>_ w. Inr w)" "wb_buf (cl_send c) = data"
      "wb_len (cl_send c) = ucast dataSize" "iw_heap w = iw_heap w0"
    using assms(2,4) by (auto simp: BeginSend_def Let_def split: if_splits)
  fix m assume "hp_cells (iw_heap w) data = Some m \<and> unat (ucast dataSize :: cint) \<le> length m"
  then show "\<exists>w'. BeginIOEvent env junk status2 transferred c w = Some (Inr (c, w'))
        \<and> hp_cells (iw_heap w') = hp_cells (iw_heap w) \<and> iw_queue w' = iw_queue w \<and> iw_calls w' = iw_calls w"
    using CompleteSend_spec [of w c m junk] assms(1) c by (auto simp: BeginIOEvent_def)
next
  have c: "cl_state c = SEND_STATE" "wb_buf (cl_send c) = data" "iw_heap w = iw_heap w0"
    using assms(4) by (auto simp: BeginSend_def Let_def split: if_splits)
  assume none: "hp_cells (iw_heap w) data = None"
  have "Buffer_from data n junk (iw_heap w) = Inl UseAfterFree" for n
    using none assms(3) c(3) by (simp add: Buffer_from_def heap_new_def heap_load_def)
  then show "BeginIOEvent env junk status2 transferred c w = Some (Inl UseAfterFree)"
    using c by (simp add: BeginIOEvent_def CompleteSend_def)
qed

text \<open>
  C37. A send that replays the last request. A send has been started, and a worker, still busy with the
  message that asked for it, starts its next receive, which sets the state back. The completion of the
  send is then taken for that of a receive: the handlers run again, on the bytes the buffer still has
  from the last message, with the size of what was sent. If that is the size of a whole packet, as for
  every full chunk of a song, the request is served once more; with any other size nothing is queued.
\<close>

theorem send_completion_replays:
  assumes "client_ok c w" and "cl_received c = Some hls" and "BeginSend st data n c w = Inr (c1, w1)"
    and "BeginRead st' c1 w1 = Inr (c2, w2)" and "status \<noteq> Failed"
  shows "\<exists>r. BeginIOEvent env junk status (wb_len (cl_send c2)) c2 w2 = Some r \<and> (case r of
      Inl f \<Rightarrow> f = InvalidParameter
    | Inr (c', w') \<Rightarrow> hp_cells (iw_heap w') = hp_cells (iw_heap w)
        \<and> (\<exists>h1 h2 hls'. received_handler env hls (client_bytes c w) (ucast (ucast n :: cint)) (h1, iw_queue w)
              = Some (Inr (hls', (h2, iw_queue w'))))
        \<and> (ucast (ucast n :: cint) \<noteq> (of_nat sizeof_Packet :: size_t) \<longrightarrow> iw_queue w' = iw_queue w))"
proof -
  have c2: "cl_state c2 = READ_STATE" "cl_received c2 = Some hls" "wb_len (cl_send c2) = ucast n" "cl_buffer c2 = cl_buffer c"
      "cl_recv c2 = cl_recv c" "iw_heap w2 = iw_heap w" "iw_queue w2 = iw_queue w"
    using assms(2-4) by (auto simp: BeginSend_def BeginRead_def Let_def split: if_splits)
  have ok2: "client_ok c2 w2" and bytes: "client_bytes c2 w2 = client_bytes c w"
    using assms(1,2) c2 by (simp_all add: client_ok_def client_bytes_def)
  have len: "sizeof_Packet \<le> length (client_bytes c w)"
    using assms(1) by (auto simp: client_ok_def buffer_live_def client_bytes_def)
  have same: "q' = q" if "received_handler env hls (client_bytes c w) sz (h1, q) = Some (Inr (hls', (h2, q')))"
    and "sz \<noteq> of_nat sizeof_Packet" for sz h1 q hls' h2 q'
    using received_dropped [OF len, of sz env hls "(h1, q)"] that by simp
  obtain r where r: "CompleteRead env junk (ucast (ucast n :: cint)) c2 w2 = Some r" "case r of
      Inl f \<Rightarrow> f = InvalidParameter
    | Inr (c', w') \<Rightarrow> hp_cells (iw_heap w') = hp_cells (iw_heap w)
        \<and> (\<exists>h1 h2 hls'. received_handler env hls (client_bytes c w) (ucast (ucast n :: cint)) (h1, iw_queue w)
              = Some (Inr (hls', (h2, iw_queue w'))))"
    using CompleteRead_spec [OF ok2, of env junk "ucast (ucast n :: cint)"] c2 bytes
    by (fastforce split: sum.splits)
  show ?thesis
  proof (cases r)
    case (Inl f)
    then show ?thesis using r c2 by (simp add: BeginIOEvent_def)
  next
    case (Inr x)
    then obtain c3 w3 where x: "r = Inr (c3, w3)" by (cases x) auto
    have "BeginRead status c3 w3 = Inr (c3\<lparr>cl_state := READ_STATE\<rparr>,
        w3\<lparr>iw_calls := iw_calls w3 @ [Recv (cl_socket c3) (cl_recv c3)]\<rparr>)"
      using assms(5) by (simp add: BeginRead_def Let_def)
    then show ?thesis using r x c2 same by (auto simp: BeginIOEvent_def)
  qed
qed

text \<open>A client with a two-byte block to send.\<close>

definition demo_heap :: heap where
  "demo_heap = \<lparr> hp_next = 3, hp_cells = [1 \<mapsto> replicate 1036 0, 2 \<mapsto> [7, 8]] \<rparr>"

definition demo_client :: Client where
  "demo_client = \<lparr> cl_socket = 50, cl_buffer = \<lparr> mBuffer = 1, mBufferSize = 1036 \<rparr>,
     cl_recv = \<lparr> wb_len = 1036, wb_buf = 1 \<rparr>, cl_send = \<lparr> wb_len = 0, wb_buf = 0 \<rparr>,
     cl_received = Some [AudioH demo_handler, SettingsH (SettingsHandler_new Settings_default)],
     cl_sent = (\<lambda>_ w. Inr w), cl_state = 0 \<rparr>"

definition demo_io :: io_world where
  "demo_io = \<lparr> iw_heap = demo_heap, iw_queue = \<lparr> mQueue = [] \<rparr>, iw_calls = [] \<rparr>"

lemma demo_client_ok: "client_ok demo_client demo_io"
proof -
  have wf: "heap_wf demo_heap" by (auto simp: heap_wf_def demo_heap_def)
  then show ?thesis using demo_good good_handler_frame
    by (auto simp: client_ok_def demo_client_def demo_io_def buffer_live_def) (simp add: demo_heap_def)
qed

theorem read_completion_witness:
  "\<exists>r. BeginIOEvent demo_env (\<lambda>_. 0) Pending 12 demo_client demo_io = Some r
    \<and> (case r of Inl f \<Rightarrow> f = InvalidParameter | Inr (c', w') \<Rightarrow> cl_state c' = 0 \<and> length (iw_calls w') = 1)"
proof -
  have "\<exists>r. BeginIOEvent demo_env (\<lambda>_. 0) Pending 12 demo_client demo_io = Some r \<and> (case r of
      Inl f \<Rightarrow> f = InvalidParameter
    | Inr (c', w') \<Rightarrow> client_ok c' w' \<and> hp_cells (iw_heap w') = hp_cells (iw_heap demo_io)
        \<and> iw_calls w' = iw_calls demo_io @ [Recv (cl_socket demo_client) (cl_recv demo_client)]
        \<and> cl_state c' = READ_STATE
        \<and> (\<exists>h1 h2 hls'. cl_received c' = Some hls' \<and> hp_cells h2 = hp_cells h1
            \<and> received_handler demo_env [AudioH demo_handler, SettingsH (SettingsHandler_new Settings_default)]
                (client_bytes demo_client demo_io) (ucast (12 :: cint)) (h1, iw_queue demo_io)
              = Some (Inr (hls', (h2, iw_queue w')))))"
    by (rule read_completion [OF demo_client_ok]) (simp_all add: demo_client_def READ_STATE_def)
  then obtain r where r: "BeginIOEvent demo_env (\<lambda>_. 0) Pending 12 demo_client demo_io = Some r"
      "case r of Inl f \<Rightarrow> f = InvalidParameter
      | Inr (c', w') \<Rightarrow> iw_calls w' = iw_calls demo_io @ [Recv (cl_socket demo_client) (cl_recv demo_client)]
          \<and> cl_state c' = READ_STATE"
    by (elim exE conjE) (rule that, assumption, simp split: sum.splits prod.splits)
  then show ?thesis
    by (intro exI [of _ r]) (simp add: demo_io_def READ_STATE_def split: sum.splits prod.splits)
qed

theorem completion_after_send_witness:
  "\<exists>c w w'. BeginSend Pending 2 2 demo_client demo_io = Inr (c, w)
    \<and> BeginIOEvent demo_env (\<lambda>_. 0) Pending 1036 c w = Some (Inr (c, w')) \<and> iw_queue w' = \<lparr> mQueue = [] \<rparr>"
proof -
  obtain c w where s: "BeginSend Pending 2 2 demo_client demo_io = Inr (c, w)"
    by (simp add: BeginSend_def Let_def)
  have h: "iw_heap w = demo_heap" "iw_queue w = \<lparr> mQueue = [] \<rparr>"
    using s by (auto simp: BeginSend_def Let_def demo_io_def)
  have m: "hp_cells demo_heap 2 = Some [7, 8] \<and> unat (ucast (2 :: size_t) :: cint) \<le> length [7, 8 :: byte]"
    by (simp add: demo_heap_def)
  have "heap_wf (iw_heap demo_io)" using demo_client_ok by (simp add: client_ok_def)
  moreover have "cl_sent demo_client = (\<lambda>_ w. Inr w)" by (simp add: demo_client_def)
  moreover have "2 < hp_next (iw_heap demo_io)" by (simp add: demo_io_def demo_heap_def)
  ultimately show ?thesis
    using completion_after_send [OF _ _ _ s, of demo_env "\<lambda>_. 0" Pending 1036] m h s by metis
qed

theorem send_completion_replays_witness:
  "\<exists>c1 w1 c2 w2 r. BeginSend Pending 2 2 demo_client demo_io = Inr (c1, w1) \<and> BeginRead Pending c1 w1 = Inr (c2, w2)
    \<and> BeginIOEvent demo_env (\<lambda>_. 0) Pending (wb_len (cl_send c2)) c2 w2 = Some r
    \<and> (case r of Inl f \<Rightarrow> f = InvalidParameter | Inr (c', w') \<Rightarrow> iw_queue w' = \<lparr> mQueue = [] \<rparr>)"
proof -
  obtain c1 w1 c2 w2 where s: "BeginSend Pending 2 2 demo_client demo_io = Inr (c1, w1)" "BeginRead Pending c1 w1 = Inr (c2, w2)"
    by (simp add: BeginSend_def BeginRead_def Let_def)
  have hls: "cl_received demo_client = Some [AudioH demo_handler, SettingsH (SettingsHandler_new Settings_default)]"
    by (simp add: demo_client_def)
  obtain r where r: "BeginIOEvent demo_env (\<lambda>_. 0) Pending (wb_len (cl_send c2)) c2 w2 = Some r" "case r of
      Inl f \<Rightarrow> f = InvalidParameter
    | Inr (c', w') \<Rightarrow> ucast (ucast (2 :: size_t) :: cint) \<noteq> (of_nat sizeof_Packet :: size_t) \<longrightarrow> iw_queue w' = iw_queue demo_io"
    using send_completion_replays [OF demo_client_ok hls s, of Pending demo_env "\<lambda>_. 0"]
    by (fastforce split: sum.splits)
  moreover have "ucast (ucast (2 :: size_t) :: cint) \<noteq> (of_nat sizeof_Packet :: size_t)" by simp
  ultimately show ?thesis using s by (auto simp: demo_io_def split: sum.splits)
qed

end
