(* ===== verification/ThreadPools.thy ===== *)
theory ThreadPools
  imports ConcQueue
begin

text \<open>
  Server/ThreadPool.h: the number of threads, the loop each of them runs, \<open>EnqueueTask\<close> and
  \<open>JoinAll\<close>. The queue of tasks is used through its operations, each one step. A task is a value;
  what it does and when it returns is left to the environment. The flag \<open>mFinished\<close> and the counter
  \<open>mJobsRemaining\<close> have no initial value in the source, so their initial contents are arguments.
\<close>

section \<open>The number of threads\<close>

definition num_threads :: "cint \<Rightarrow> cint \<Rightarrow> nat" where
  "num_threads numThreads hardware_concurrency =
     (let n = (if sint numThreads < 0 then hardware_concurrency else numThreads)
      in nat (sint n))"

section \<open>The pool\<close>

text \<open>
  A worker is at the test of its loop, at the test inside \<open>nextTask\<close>, in \<open>pop\<close>, about to call what
  it got (\<open>None\<close> is the empty function), inside the task, about to decrement the counter, or it
  has left the loop. Calling the empty function throws \<open>bad_function_call\<close> out of the thread.
\<close>

datatype 'a worker =
    Testing | Fetching | Popping | Calling "'a option" | Running 'a | Counting | Left | Crashed

datatype joiner = NotJoining | JoinTest | Joining nat | Storing | Joined

record 'a ThreadPool =
  mJobsRemaining :: int
  mFinished :: bool
  mThreads :: "'a worker list"
  mTasks :: "'a ConcurrentQueue"
  tp_join :: joiner
  tp_started :: "'a list"     \<comment> \<open>history: tasks taken from the queue\<close>
  tp_queued :: "'a list"      \<comment> \<open>history: tasks enqueued\<close>
  tp_ended :: nat             \<comment> \<open>history: tasks that returned\<close>

definition ThreadPool_new :: "cint \<Rightarrow> cint \<Rightarrow> int \<Rightarrow> bool \<Rightarrow> 'a ThreadPool" where
  "ThreadPool_new numThreads hardware_concurrency junk_jobs junk_finished =
     \<lparr> mJobsRemaining = junk_jobs, mFinished = junk_finished,
       mThreads = replicate (num_threads numThreads hardware_concurrency) Testing,
       mTasks = \<lparr> mQueue = [] \<rparr>, tp_join = NotJoining, tp_started = [], tp_queued = [], tp_ended = 0 \<rparr>"

definition isFinished :: "'a ThreadPool \<Rightarrow> bool" where
  "isFinished p = mFinished p"

definition EnqueueTask :: "'a \<Rightarrow> 'a ThreadPool \<Rightarrow> 'a ThreadPool" where
  "EnqueueTask task p = p\<lparr>mTasks := queue_push task (mTasks p), tp_queued := tp_queued p @ [task]\<rparr>"

definition goto :: "nat \<Rightarrow> 'a worker \<Rightarrow> 'a ThreadPool \<Rightarrow> 'a ThreadPool" where
  "goto t w p = p\<lparr>mThreads := (mThreads p)[t := w]\<rparr>"

definition at :: "'a ThreadPool \<Rightarrow> nat \<Rightarrow> 'a worker \<Rightarrow> bool" where
  "at p t w \<longleftrightarrow> t < length (mThreads p) \<and> mThreads p ! t = w"

text \<open>The steps of \<open>DoTask\<close>. The end of a task is a step of its own, which may never be taken.\<close>

inductive worker_step :: "nat \<Rightarrow> 'a ThreadPool \<Rightarrow> 'a ThreadPool \<Rightarrow> bool" where
  leave: "at p t Testing \<Longrightarrow> isFinished p \<Longrightarrow> worker_step t p (goto t Left p)"
| enter: "at p t Testing \<Longrightarrow> \<not> isFinished p \<Longrightarrow> worker_step t p (goto t Fetching p)"
| no_task: "at p t Fetching \<Longrightarrow> isFinished p \<Longrightarrow> worker_step t p (goto t (Calling None) p)"
| fetch: "at p t Fetching \<Longrightarrow> \<not> isFinished p \<Longrightarrow> worker_step t p (goto t Popping p)"
| take: "at p t Popping \<Longrightarrow> queue_pop (mTasks p) = Some (task, rest) \<Longrightarrow>
    worker_step t p (goto t (Calling (Some task)) (p\<lparr>mTasks := rest, tp_started := tp_started p @ [task]\<rparr>))"
| call_task: "at p t (Calling (Some task)) \<Longrightarrow> worker_step t p (goto t (Running task) p)"
| call_empty: "at p t (Calling None) \<Longrightarrow> worker_step t p (goto t Crashed p)"
| count: "at p t Counting \<Longrightarrow>
    worker_step t p (goto t Testing (p\<lparr>mJobsRemaining := mJobsRemaining p - 1\<rparr>))"

inductive pool_step :: "'a ThreadPool \<Rightarrow> 'a ThreadPool \<Rightarrow> bool" where
  worker: "worker_step t p p' \<Longrightarrow> pool_step p p'"
| task_returns: "at p t (Running task) \<Longrightarrow>
    pool_step p (goto t Counting (p\<lparr>tp_ended := Suc (tp_ended p)\<rparr>))"
| enqueue: "pool_step p (EnqueueTask task p)"
| join_call: "tp_join p = NotJoining \<Longrightarrow> pool_step p (p\<lparr>tp_join := JoinTest\<rparr>)"
| join_skip: "tp_join p = JoinTest \<Longrightarrow> isFinished p \<Longrightarrow> pool_step p (p\<lparr>tp_join := Joined\<rparr>)"
| join_start: "tp_join p = JoinTest \<Longrightarrow> \<not> isFinished p \<Longrightarrow> pool_step p (p\<lparr>tp_join := Joining 0\<rparr>)"
| join_thread: "tp_join p = Joining t \<Longrightarrow> at p t Left \<Longrightarrow> pool_step p (p\<lparr>tp_join := Joining (Suc t)\<rparr>)"
| join_all: "tp_join p = Joining (length (mThreads p)) \<Longrightarrow> pool_step p (p\<lparr>tp_join := Storing\<rparr>)"
| join_store: "tp_join p = Storing \<Longrightarrow> pool_step p (p\<lparr>mFinished := True, tp_join := Joined\<rparr>)"

inductive_cases worker_stepE: "worker_step t p p'"
inductive_cases pool_stepE: "pool_step p p'"

lemma goto_simps [simp]:
  "mJobsRemaining (goto t w p) = mJobsRemaining p" "mFinished (goto t w p) = mFinished p"
  "mTasks (goto t w p) = mTasks p" "tp_join (goto t w p) = tp_join p"
  "tp_started (goto t w p) = tp_started p" "tp_queued (goto t w p) = tp_queued p"
  "tp_ended (goto t w p) = tp_ended p" "mThreads (goto t w p) = (mThreads p)[t := w]"
  by (simp_all add: goto_def)

lemma EnqueueTask_simps [simp]:
  "mJobsRemaining (EnqueueTask x p) = mJobsRemaining p" "mFinished (EnqueueTask x p) = mFinished p"
  "mThreads (EnqueueTask x p) = mThreads p" "tp_join (EnqueueTask x p) = tp_join p"
  "tp_started (EnqueueTask x p) = tp_started p" "tp_queued (EnqueueTask x p) = tp_queued p @ [x]"
  "tp_ended (EnqueueTask x p) = tp_ended p" "mQueue (mTasks (EnqueueTask x p)) = mQueue (mTasks p) @ [x]"
  by (simp_all add: EnqueueTask_def cq.push_contents)

section \<open>Accounting\<close>

text \<open>
  Tasks are started in the order they were enqueued, each once, and the counter only ever goes
  down, by one for each task that returned.
\<close>

definition counting :: "'a ThreadPool \<Rightarrow> nat" where
  "counting p = length (filter (\<lambda>w. w = Counting) (mThreads p))"

definition accounts :: "int \<Rightarrow> nat \<Rightarrow> 'a ThreadPool \<Rightarrow> bool" where
  "accounts jobs n p \<longleftrightarrow> tp_queued p = tp_started p @ mQueue (mTasks p) \<and> length (mThreads p) = n
     \<and> mJobsRemaining p + int (tp_ended p) = jobs + int (counting p)"

lemma length_filter_update:
  assumes "t < length xs"
  shows "length (filter P (xs[t := w])) + (if P (xs ! t) then 1 else 0)
    = length (filter P xs) + (if P w then 1 else 0)"
  using assms
proof (induction xs arbitrary: t)
  case Nil
  then show ?case by simp
next
  case (Cons x xs)
  then show ?case by (cases t) auto
qed

lemma counting_goto:
  "at p t w0 \<Longrightarrow> counting (goto t w p) + (if w0 = Counting then 1 else 0)
     = counting p + (if w = Counting then 1 else 0)"
  using length_filter_update [of t "mThreads p" "\<lambda>w. w = Counting" w]
  by (auto simp: counting_def at_def)

lemma counting_cong: "mThreads p = mThreads p' \<Longrightarrow> counting p = counting p'"
  by (simp add: counting_def)

lemma at_cong: "mThreads p = mThreads p' \<Longrightarrow> at p t w = at p' t w"
  by (simp add: at_def)

lemma accounts_worker:
  assumes "worker_step t p p'" and "accounts jobs n p"
  shows "accounts jobs n p'"
  using assms
proof (induction rule: worker_step.induct)
  case (take p t task rest)
  let ?p = "p\<lparr>mTasks := rest, tp_started := tp_started p @ [task]\<rparr>"
  have "counting (goto t (Calling (Some task)) ?p) = counting p"
    using counting_goto [of ?p t Popping "Calling (Some task)"] take(1) at_cong [of ?p p]
      counting_cong [of ?p p] by simp
  then show ?case using take cq.pop_contents [OF take(2)] by (simp add: accounts_def)
next
  case (count p t)
  let ?p = "p\<lparr>mJobsRemaining := mJobsRemaining p - 1\<rparr>"
  have "Suc (counting (goto t Testing ?p)) = counting p"
    using counting_goto [of ?p t Counting Testing] count(1) at_cong [of ?p p] counting_cong [of ?p p]
    by simp
  then show ?case using count by (simp add: accounts_def)
qed (use counting_goto in \<open>fastforce simp: accounts_def\<close>)+

lemma accounts_step:
  assumes "pool_step p p'" and "accounts jobs n p"
  shows "accounts jobs n p'"
  using assms
proof (induction rule: pool_step.induct)
  case (worker t p p')
  then show ?case using accounts_worker by blast
next
  case (task_returns p t task)
  let ?p = "p\<lparr>tp_ended := Suc (tp_ended p)\<rparr>"
  have "counting (goto t Counting ?p) = Suc (counting p)"
    using counting_goto [of ?p t "Running task" Counting] task_returns(1) at_cong [of ?p p]
      counting_cong [of ?p p] by simp
  then show ?case using task_returns by (simp add: accounts_def)
qed (simp_all add: accounts_def counting_def)

section \<open>A pool whose flag starts false\<close>

text \<open>No thread leaves, and whoever joins waits for the first one.\<close>

definition running_pool :: "'a ThreadPool \<Rightarrow> bool" where
  "running_pool p \<longleftrightarrow> \<not> mFinished p \<and> mThreads p \<noteq> []
     \<and> (\<forall>w \<in> set (mThreads p). w \<noteq> Left \<and> w \<noteq> Crashed \<and> w \<noteq> Calling None)
     \<and> tp_join p \<in> {NotJoining, JoinTest, Joining 0}"

lemma running_goto:
  assumes "running_pool p" and "w \<noteq> Left" and "w \<noteq> Crashed" and "w \<noteq> Calling None"
  shows "running_pool (goto t w p)"
proof -
  have "v = w \<or> v \<in> set (mThreads p)" if "v \<in> set ((mThreads p)[t := w])" for v
    using that set_update_subset_insert [of "mThreads p" t w] by blast
  then show ?thesis using assms by (simp add: running_pool_def) blast
qed

lemma running_at: "running_pool p \<Longrightarrow> at p t w \<Longrightarrow> w \<noteq> Left \<and> w \<noteq> Crashed \<and> w \<noteq> Calling None"
  by (metis at_def nth_mem running_pool_def)

lemma running_cong:
  "mFinished p' = mFinished p \<Longrightarrow> mThreads p' = mThreads p \<Longrightarrow> tp_join p' = tp_join p \<Longrightarrow>
     running_pool p' = running_pool p"
  by (simp add: running_pool_def)

lemma running_worker:
  assumes "worker_step t p p'" and "running_pool p"
  shows "running_pool p'"
  using assms
proof (induction rule: worker_step.induct)
  case (leave p t)
  then show ?case by (simp add: running_pool_def isFinished_def)
next
  case (no_task p t)
  then show ?case by (simp add: running_pool_def isFinished_def)
next
  case (call_empty p t)
  then show ?case using running_at by blast
next
  case (take p t task rest)
  then show ?case
    using running_cong [of "p\<lparr>mTasks := rest, tp_started := tp_started p @ [task]\<rparr>" p]
    by (intro running_goto) simp_all
next
  case (count p t)
  then show ?case using running_cong [of "p\<lparr>mJobsRemaining := mJobsRemaining p - 1\<rparr>" p]
    by (intro running_goto) simp_all
qed (simp_all add: running_goto)

lemma running_step:
  assumes "pool_step p p'" and "running_pool p"
  shows "running_pool p'"
  using assms
proof (induction rule: pool_step.induct)
  case (worker t p p')
  then show ?case using running_worker by blast
next
  case (task_returns p t task)
  then show ?case using running_cong [of "p\<lparr>tp_ended := Suc (tp_ended p)\<rparr>" p]
    by (intro running_goto) simp_all
next
  case (enqueue p task)
  then show ?case using running_cong [of "EnqueueTask task p" p] by simp
next
  case (join_thread p t)
  then show ?case using running_at by blast
qed (auto simp: running_pool_def isFinished_def)

definition pool_init :: "cint \<Rightarrow> cint \<Rightarrow> int \<Rightarrow> 'a ThreadPool \<Rightarrow> bool" where
  "pool_init numThreads hc jobs p \<longleftrightarrow> 0 < num_threads numThreads hc \<and> p = ThreadPool_new numThreads hc jobs False"

definition pool_inv :: "cint \<Rightarrow> cint \<Rightarrow> int \<Rightarrow> 'a ThreadPool \<Rightarrow> bool" where
  "pool_inv numThreads hc jobs p \<longleftrightarrow> running_pool p \<and> accounts jobs (num_threads numThreads hc) p"

interpretation pool: invariant_system "pool_init n hc jobs" pool_step "pool_inv n hc jobs"
proof unfold_locales
  fix s :: "'a ThreadPool" assume "pool_init n hc jobs s"
  then show "pool_inv n hc jobs s"
    by (auto simp: pool_init_def pool_inv_def running_pool_def accounts_def ThreadPool_new_def counting_def)
next
  fix s t :: "'a ThreadPool" assume "pool_inv n hc jobs s" "pool_step s t"
  then show "pool_inv n hc jobs t"
    using running_step accounts_step by (auto simp: pool_inv_def)
qed

text \<open>
  The flag has no initial value in the source. Where it happens to be true, nobody gets past the test of
  the loop.
\<close>

definition idle_pool :: "'a ThreadPool \<Rightarrow> bool" where
  "idle_pool p \<longleftrightarrow> mFinished p \<and> set (mThreads p) \<subseteq> {Testing, Left} \<and> tp_started p = [] \<and> mQueue (mTasks p) = tp_queued p
     \<and> tp_join p \<in> {NotJoining, JoinTest, Joined}"

lemma idle_at: "idle_pool p \<Longrightarrow> at p t w \<Longrightarrow> w = Testing \<or> w = Left"
  by (auto simp: idle_pool_def at_def dest: nth_mem)

lemma idle_step:
  assumes "pool_step p p'" and inv: "idle_pool p"
  shows "idle_pool p'"
  using assms(1)
proof cases
  case (worker t)
  have "p' = goto t Left p"
    using worker inv by cases (auto simp: idle_pool_def isFinished_def dest: idle_at [OF inv])
  then show ?thesis using inv set_update_subset_insert [of "mThreads p" t Left] by (auto simp: idle_pool_def)
qed (use inv in \<open>auto simp: idle_pool_def isFinished_def dest: idle_at [OF inv]\<close>)

definition lucky_init :: "cint \<Rightarrow> cint \<Rightarrow> int \<Rightarrow> 'a ThreadPool \<Rightarrow> bool" where
  "lucky_init numThreads hc jobs p \<longleftrightarrow> p = ThreadPool_new numThreads hc jobs True"

interpretation idle: invariant_system "lucky_init n hc jobs" pool_step idle_pool
proof unfold_locales
  fix s :: "'a ThreadPool" assume "lucky_init n hc jobs s"
  then show "idle_pool s" by (auto simp: lucky_init_def idle_pool_def ThreadPool_new_def)
next
  fix s t :: "'a ThreadPool" assume "idle_pool s" "pool_step s t"
  then show "idle_pool t" using idle_step by blast
qed

section \<open>Properties\<close>

text \<open>
  Joining never returns. In a pool with at least one thread whose flag starts out false, no
  thread ever leaves its loop or calls an empty function, whatever tasks are enqueued and whenever
  they return, and a caller of \<open>JoinAll\<close> gets no further than waiting for the first thread: the
  flag that would let the threads go is stored only after they have gone.
\<close>

theorem join_never_returns:
  assumes "reachable (pool_init n hc jobs) pool_step p"
  shows "\<not> mFinished p \<and> (\<forall>w \<in> set (mThreads p). w \<noteq> Left \<and> w \<noteq> Crashed)
    \<and> tp_join p \<in> {NotJoining, JoinTest, Joining 0}"
  using pool.reachable_inv [OF assms] by (auto simp: pool_inv_def running_pool_def)

lemma demo_pool: "pool_init 2 0 0 (ThreadPool_new 2 0 0 False :: nat ThreadPool)"
  by (simp add: pool_init_def num_threads_def)

theorem join_never_returns_witness:
  "tp_join ((EnqueueTask 7 (ThreadPool_new 2 0 0 False))\<lparr>tp_join := JoinTest\<rparr> :: nat ThreadPool) \<noteq> Joined"
proof -
  let ?p = "EnqueueTask 7 (ThreadPool_new 2 0 0 False) :: nat ThreadPool"
  have "pool_step (ThreadPool_new 2 0 0 False) ?p" by (rule pool_step.enqueue)
  moreover have "pool_step ?p (?p\<lparr>tp_join := JoinTest\<rparr>)"
    by (rule pool_step.join_call) (simp add: ThreadPool_new_def)
  ultimately have "reachable (pool_init 2 0 0) pool_step (?p\<lparr>tp_join := JoinTest\<rparr>)"
    using demo_pool by (meson reachable.start reachable.advance)
  from join_never_returns [OF this] show ?thesis by auto
qed

text \<open>
  C38. The indeterminate flag decides everything. \<open>mFinished\<close> has no initial value. If it happens to be
  false and the pool has a thread, no thread ever leaves its loop and a caller of \<open>JoinAll\<close> never gets past
  the first thread, which only the store behind the joins could release. If it happens to be true, no task
  that is enqueued is ever started: it stays in the queue, every thread leaves at its first test, and
  \<open>JoinAll\<close> comes back without joining.
\<close>

theorem pool_flag_decides:
  assumes "reachable (\<lambda>q. q = ThreadPool_new n hc jobs flag) pool_step p" and "0 < num_threads n hc"
  shows "if flag
    then tp_started p = [] \<and> mQueue (mTasks p) = tp_queued p \<and> (\<forall>w \<in> set (mThreads p). w = Testing \<or> w = Left)
      \<and> (\<forall>t. tp_join p \<noteq> Joining t)
    else (\<forall>w \<in> set (mThreads p). w \<noteq> Left \<and> w \<noteq> Crashed) \<and> tp_join p \<in> {NotJoining, JoinTest, Joining 0}"
proof (cases flag)
  case True
  then have "reachable (lucky_init n hc jobs) pool_step p"
    using assms(1) by (auto simp: lucky_init_def [abs_def])
  from idle.reachable_inv [OF this] show ?thesis using True by (auto simp: idle_pool_def)
next
  case False
  then have "reachable (pool_init n hc jobs) pool_step p"
    using assms by (auto simp: pool_init_def [abs_def])
  from pool.reachable_inv [OF this] show ?thesis using False by (auto simp: pool_inv_def running_pool_def)
qed

theorem pool_flag_decides_witness:
  "tp_started (EnqueueTask 7 (ThreadPool_new 2 0 0 True) :: nat ThreadPool) = []
   \<and> mQueue (mTasks (EnqueueTask 7 (ThreadPool_new 2 0 0 True) :: nat ThreadPool)) = [7]"
proof -
  let ?p = "ThreadPool_new 2 0 0 True :: nat ThreadPool"
  have "reachable (\<lambda>q. q = ?p) pool_step (EnqueueTask 7 ?p)"
    using pool_step.enqueue by (rule reachable.advance [rotated]) (simp add: reachable.start)
  from pool_flag_decides [OF this] show ?thesis by (simp add: num_threads_def) (simp add: ThreadPool_new_def)
qed

text \<open>
  Tasks are started in the order they were enqueued, each at most once, and never more are in
  progress than the pool has threads; the counter of remaining jobs is not increased by enqueueing,
  so it is its initial contents less the tasks that returned and were counted.
\<close>

theorem tasks_start_in_order:
  assumes "reachable (pool_init n hc jobs) pool_step p"
  shows "tp_queued p = tp_started p @ mQueue (mTasks p) \<and> length (mThreads p) = num_threads n hc
    \<and> mJobsRemaining p = jobs - (int (tp_ended p) - int (counting p))"
  using pool.reachable_inv [OF assms] by (auto simp: pool_inv_def accounts_def)

theorem tasks_start_in_order_witness:
  "tp_queued (EnqueueTask 7 (ThreadPool_new 2 0 0 False) :: nat ThreadPool) = [7]
   \<and> mQueue (mTasks (EnqueueTask 7 (ThreadPool_new 2 0 0 False) :: nat ThreadPool)) = [7]"
proof -
  have "reachable (pool_init 2 0 0) pool_step (EnqueueTask 7 (ThreadPool_new 2 0 0 False) :: nat ThreadPool)"
    using demo_pool pool_step.enqueue by (meson reachable.start reachable.advance)
  from tasks_start_in_order [OF this] show ?thesis by (auto simp: ThreadPool_new_def)
qed

text \<open>
  A waiting task is not stuck. As long as some task is queued and some thread is not inside a
  task, a thread can take a step of the pool's own code, so tasks wait only while all threads are
  busy with tasks that have not returned.
\<close>

theorem queued_task_progress:
  assumes "reachable (pool_init n hc jobs) pool_step p" and "mQueue (mTasks p) \<noteq> []"
    and "t < length (mThreads p)" and "\<forall>task. mThreads p ! t \<noteq> Running task"
  shows "\<exists>p'. worker_step t p p' \<and> p' \<noteq> p"
proof -
  have r: "running_pool p" using pool.reachable_inv [OF assms(1)] by (simp add: pool_inv_def)
  have at: "at p t (mThreads p ! t)" using assms(3) by (simp add: at_def)
  have move: "goto t w q \<noteq> p" if "w \<noteq> mThreads p ! t" "mThreads q = mThreads p" for w q
    using that assms(3) by (metis goto_simps(8) nth_list_update_eq)
  have fin: "\<not> isFinished p" using r by (simp add: running_pool_def isFinished_def)
  show ?thesis
  proof (cases "mThreads p ! t")
    case Testing
    then show ?thesis using worker_step.enter [of p t] at fin move by (metis worker.distinct(1))
  next
    case Fetching
    then show ?thesis using worker_step.fetch [of p t] at fin move by (metis worker.distinct(15))
  next
    case Popping
    obtain task rest where q: "queue_pop (mTasks p) = Some (task, rest)"
      using cq.pop_empty [of "mTasks p"] assms(2) by (cases "queue_pop (mTasks p)") auto
    let ?p = "p\<lparr>mTasks := rest, tp_started := tp_started p @ [task]\<rparr>"
    have "worker_step t p (goto t (Calling (Some task)) ?p)"
      using worker_step.take [of p t] at Popping q by simp
    moreover have "goto t (Calling (Some task)) ?p \<noteq> p" using Popping by (intro move) simp_all
    ultimately show ?thesis by blast
  next
    case (Calling c)
    then obtain task where c: "c = Some task" using running_at [OF r at] by (cases c) auto
    have "worker_step t p (goto t (Running task) p)"
      using worker_step.call_task [of p t task] at Calling c by simp
    moreover have "goto t (Running task) p \<noteq> p" using Calling by (intro move) simp_all
    ultimately show ?thesis by blast
  next
    case (Running task)
    then show ?thesis using assms(4) by simp
  next
    case Counting
    let ?p = "p\<lparr>mJobsRemaining := mJobsRemaining p - 1\<rparr>"
    have "worker_step t p (goto t Testing ?p)" using worker_step.count [of p t] at Counting by simp
    moreover have "goto t Testing ?p \<noteq> p" using Counting by (intro move) simp_all
    ultimately show ?thesis by blast
  next
    case Left
    then show ?thesis using running_at [OF r at] by simp
  next
    case Crashed
    then show ?thesis using running_at [OF r at] by simp
  qed
qed

theorem queued_task_progress_witness:
  "\<exists>p'. worker_step 0 (EnqueueTask 7 (ThreadPool_new 2 0 0 False) :: nat ThreadPool) p'"
proof -
  have "reachable (pool_init 2 0 0) pool_step (EnqueueTask 7 (ThreadPool_new 2 0 0 False) :: nat ThreadPool)"
    using demo_pool pool_step.enqueue by (meson reachable.start reachable.advance)
  from queued_task_progress [OF this, of 0] show ?thesis
    by (auto simp: ThreadPool_new_def num_threads_def)
qed

end
