(* ===== verification/ServerManagers.thy ===== *)
theory ServerManagers
  imports Clients ThreadPools
begin

text \<open>
  Server/ServerManager.h and Server/ServerManager.cpp but for \<open>sendTask\<close>, and the start in
  Server/main.cpp: the map of connected clients, accepting and removing them, one pass of the loops
  of \<open>getConnections\<close> and \<open>workerThread\<close>, and the tasks \<open>listen\<close> gives the pool. What the system
  calls answer (completions, the completion port, the event) is an argument of each pass.
\<close>

section \<open>State\<close>

datatype server_task = GetConnections | SendTask | WorkerThread

text \<open>The factory as the manager uses it: from a client's address to the handlers it sets.\<close>

type_synonym factory = "addr \<Rightarrow> heap \<Rightarrow> (InputHandler list \<times> heap) res"

record ServerManager =
  mServerSocket :: ServerSocket
  mIsRunning :: bool
  mSockets :: "addr \<Rightarrow> Client option"
  mClientFactory :: "factory option"
  sm_world :: io_world
  sm_tasks :: "server_task list"
  sm_notified :: nat      \<comment> \<open>history: calls of \<open>notify_all\<close>\<close>
  sm_accepted :: nat      \<comment> \<open>history: clients whose reading was started\<close>
  sm_completed :: nat     \<comment> \<open>history: completions that were processed\<close>

definition ServerManager_new :: "ServerSocket \<Rightarrow> heap \<Rightarrow> ServerManager" where
  "ServerManager_new serPtr h =
     \<lparr> mServerSocket = serPtr, mIsRunning = True, mSockets = Map.empty, mClientFactory = None,
       sm_world = \<lparr> iw_heap = h, iw_queue = \<lparr> mQueue = [] \<rparr>, iw_calls = [] \<rparr>, sm_tasks = [],
       sm_notified = 0, sm_accepted = 0, sm_completed = 0 \<rparr>"

definition pool_size :: "cint \<Rightarrow> nat" where
  "pool_size hardware_concurrency = num_threads (hardware_concurrency * 2) hardware_concurrency"

definition setClientFactory :: "factory \<Rightarrow> ServerManager \<Rightarrow> ServerManager" where
  "setClientFactory f m = m\<lparr>mClientFactory := Some f\<rparr>"

definition getSendQueue :: "ServerManager \<Rightarrow> send_queue" where
  "getSendQueue m = iw_queue (sm_world m)"

section \<open>The map of clients\<close>

definition isPtrToClientValid :: "addr \<Rightarrow> ServerManager \<Rightarrow> bool" where
  "isPtrToClientValid key m \<longleftrightarrow> key \<noteq> 0 \<and> mSockets m key \<noteq> None"

definition isClientConnected :: "addr \<Rightarrow> ServerManager \<Rightarrow> bool" where
  "isClientConnected client m = isPtrToClientValid client m"

definition removeConnection :: "addr \<Rightarrow> ServerManager \<Rightarrow> ServerManager" where
  "removeConnection key m =
     (if key \<noteq> 0 \<and> mSockets m key \<noteq> None then m\<lparr>mSockets := (mSockets m)(key := None)\<rparr> else m)"

text \<open>Removing the client and, with the last pointer to it, releasing the object.\<close>

definition drop_client :: "addr \<Rightarrow> Client \<Rightarrow> ServerManager \<Rightarrow> ServerManager res" where
  "drop_client key client m =
     (let m1 = removeConnection key m in
      res_bind (Client_destroy client (iw_heap (sm_world m1))) (\<lambda>h.
      Inr (m1\<lparr>sm_world := (sm_world m1)\<lparr>iw_heap := h\<rparr>\<rparr>)))"

text \<open>
  \<open>client\<close> is the address of the new object; \<open>insert\<close> keeps an entry that is already there.
\<close>

definition acceptConnection ::
    "addr \<Rightarrow> (nat \<Rightarrow> byte) \<Rightarrow> bool \<Rightarrow> io_status \<Rightarrow> socket \<Rightarrow> ServerManager \<Rightarrow> ServerManager res" where
  "acceptConnection client junk handle status sock m =
     res_bind (Client_new sock sizeof_Packet junk (iw_heap (sm_world m))) (\<lambda>(c, h1).
     if handle then
       res_bind (case mClientFactory m of
           None \<Rightarrow> Inr (c, h1)
         | Some f \<Rightarrow> res_bind (f client h1) (\<lambda>(hls, h2). Inr (SetReceivedHandler hls c, h2))) (\<lambda>(c1, h2).
       res_bind (BeginRead status c1 ((sm_world m)\<lparr>iw_heap := h2\<rparr>)) (\<lambda>(c2, w2).
       Inr (m\<lparr>mSockets := (case mSockets m client of
                None \<Rightarrow> (mSockets m)(client \<mapsto> c2) | Some _ \<Rightarrow> mSockets m),
              sm_world := w2, sm_accepted := Suc (sm_accepted m)\<rparr>)))
     else
       res_bind (Client_destroy c h1) (\<lambda>h2. Inr (m\<lparr>sm_world := (sm_world m)\<lparr>iw_heap := h2\<rparr>\<rparr>)))"

text \<open>One pass of the loop in \<open>getConnections\<close>; the handler catches everything that can be caught.\<close>

definition getConnections_pass ::
    "bool \<Rightarrow> bool \<Rightarrow> winsock \<Rightarrow> addr \<Rightarrow> (nat \<Rightarrow> byte) \<Rightarrow> bool \<Rightarrow> io_status \<Rightarrow> ServerManager \<Rightarrow> ServerManager res"
  where
  "getConnections_pass signalled accept_event ws client junk handle status m =
     (if signalled \<and> accept_event then
        (case res_bind (acceptSocket ws (mServerSocket m)) (\<lambda>(sock, _).
              acceptConnection client junk handle status sock m) of
           Inl f \<Rightarrow> if std_exception f \<or> f = ThrownCString then Inr m else Inl f
         | Inr m' \<Rightarrow> Inr m')
      else Inr m)"

text \<open>One pass of the loop in \<open>workerThread\<close>, for a completion with its status, bytes and key.\<close>

definition worker_pass ::
    "request_env \<Rightarrow> (nat \<Rightarrow> byte) \<Rightarrow> io_status \<Rightarrow> io_status \<Rightarrow> bool \<Rightarrow> cint \<Rightarrow> addr \<Rightarrow> ServerManager \<Rightarrow>
      ServerManager res option" where
  "worker_pass env junk status1 status2 ok bytesTransferred key m =
     (if isPtrToClientValid key m then
        (case mSockets m key of
           None \<Rightarrow> Some (Inl OutOfRange)
         | Some client \<Rightarrow>
             if \<not> ok \<or> (ok \<and> bytesTransferred = 0) then Some (drop_client key client m)
             else map_option (\<lambda>r.
                 case res_bind r (\<lambda>(c1, w1). BeginRead status2 c1 w1) of
                   Inl f \<Rightarrow> if f = RuntimeError then drop_client key client m else Inl f
                 | Inr (c2, w2) \<Rightarrow>
                     Inr (m\<lparr>mSockets := (mSockets m)(key \<mapsto> c2), sm_world := w2,
                            sm_notified := Suc (sm_notified m), sm_completed := Suc (sm_completed m)\<rparr>))
               (BeginIOEvent env junk status1 bytesTransferred client (sm_world m)))
      else Some (Inr m))"

section \<open>Starting\<close>

text \<open>The loop of \<open>listen\<close>; the bound is computed in \<open>unsigned int\<close>, the index is a \<open>size_t\<close>.\<close>

function worker_loop :: "nat \<Rightarrow> nat \<Rightarrow> server_task list" where
  "worker_loop i bound = (if i < bound then WorkerThread # worker_loop (Suc i) bound else [])"
  by pat_completeness auto
termination
  by (relation "measure (\<lambda>(i, bound). bound - i)") auto

declare worker_loop.simps [simp del]

definition listen_tasks :: "cint \<Rightarrow> server_task list" where
  "listen_tasks hardware_concurrency =
     GetConnections # SendTask # worker_loop 2 (unat (hardware_concurrency * 2 - 2))"

definition listen_server :: "winsock \<Rightarrow> bool \<Rightarrow> bool \<Rightarrow> cint \<Rightarrow> ServerManager \<Rightarrow> ServerManager" where
  "listen_server ws event_ok select_ok hardware_concurrency m =
     (let (ok, sock, _) = begin_server ws (mServerSocket m);
          m1 = m\<lparr>mServerSocket := sock\<rparr>
      in if ok \<and> event_ok \<and> select_ok
         then m1\<lparr>sm_tasks := sm_tasks m1 @ listen_tasks hardware_concurrency\<rparr> else m1)"

lemma worker_loop_eq: "worker_loop i bound = replicate (bound - i) WorkerThread"
proof (induction i bound rule: worker_loop.induct)
  case (1 i bound)
  show ?case
  proof (cases "i < bound")
    case True
    then have "bound - i = Suc (bound - Suc i)" by simp
    then show ?thesis using 1 True by (subst worker_loop.simps) simp
  next
    case False
    then show ?thesis by (subst worker_loop.simps) simp
  qed
qed

lemma listen_tasks_eq:
  assumes "unat hc < 1000000"
  shows "listen_tasks hc = [GetConnections, SendTask] @ replicate
      (if hc = 0 then 4294967292 else 2 * unat hc - 4) WorkerThread"
proof -
  have two: "unat (hc * 2) = 2 * unat hc" using assms by (simp add: unat_word_ariths)
  have "unat (hc * 2 - 2) = (if hc = 0 then 4294967294 else 2 * unat hc - 2)"
  proof (cases "hc = 0")
    case True
    then show ?thesis by simp
  next
    case False
    then have "1 \<le> unat hc" by (simp add: unat_gt_0 Suc_le_eq)
    then have "(2 :: cint) \<le> hc * 2" using two by (simp add: word_le_nat_alt)
    then have "unat (hc * 2 - 2) = unat (hc * 2) - unat (2 :: cint)" by (rule unat_sub)
    then show ?thesis using False two by simp
  qed
  then show ?thesis by (simp add: listen_tasks_def worker_loop_eq)
qed

lemma pool_size_eq:
  assumes "unat hc < 1000000"
  shows "pool_size hc = 2 * unat hc"
proof -
  have "hc * 2 = of_nat (2 * unat hc)" by (simp add: mult.commute)
  moreover have "sint (of_nat (2 * unat hc) :: cint) = int (2 * unat hc)"
    using assms by (intro sint_of_nat32) simp
  ultimately have s: "sint (hc * 2) = int (2 * unat hc)" by metis
  have "0 \<le> sint (hc * 2)" "nat (sint (hc * 2)) = 2 * unat hc"
    unfolding s by (simp_all only: nat_int of_nat_0_le_iff)
  then show ?thesis
    by (simp only: pool_size_def num_threads_def Let_def not_less [symmetric] if_False)
qed

text \<open>
  \<open>main\<close>: what happens before the loop that never ends. The server socket is made outside the
  \<open>try\<close> block, so its exception is not caught.
\<close>

datatype main_outcome = Spins ServerManager | Ends fault

definition server_port :: cint where "server_port = 29054"

definition main_server ::
    "winsock \<Rightarrow> bool \<Rightarrow> bool \<Rightarrow> cint \<Rightarrow> factory \<Rightarrow> heap \<Rightarrow> main_outcome" where
  "main_server ws event_ok select_ok hardware_concurrency fac h =
     (case ServerSocket_new ws (str_lit ''localhost'') server_port of
        Inl f \<Rightarrow> Ends (if std_exception f then Terminate else f)
      | Inr (servSocket, _) \<Rightarrow>
          Spins (listen_server ws event_ok select_ok hardware_concurrency
            (setClientFactory fac (ServerManager_new servSocket h))))"

section \<open>The invariant of the manager\<close>

text \<open>
  Every connected client is well-formed, has a key that is not null, a buffer nobody else has, the
  default sent handler, and waits in the read state (the sends are the subject of another theory).
\<close>

definition manager_ok :: "ServerManager \<Rightarrow> bool" where
  "manager_ok m \<longleftrightarrow> heap_wf (iw_heap (sm_world m))
     \<and> (\<forall>k c. mSockets m k = Some c \<longrightarrow> k \<noteq> 0 \<and> client_ok c (sm_world m) \<and> cl_state c = READ_STATE)
     \<and> (\<forall>k k' c c'. mSockets m k = Some c \<and> mSockets m k' = Some c' \<and> mBuffer (cl_buffer c) = mBuffer (cl_buffer c')
          \<longrightarrow> k = k')"

text \<open>The factory gives good handlers and keeps the blocks of the store.\<close>

definition good_factory :: "factory \<Rightarrow> bool" where
  "good_factory f \<longleftrightarrow> (\<forall>client h hls h'. heap_wf h \<longrightarrow> f client h = Inr (hls, h') \<longrightarrow>
     heap_wf h' \<and> hp_cells h \<subseteq>\<^sub>m hp_cells h' \<and> (\<forall>hl \<in> set hls. \<forall>q. good_handler hl (h', q)))"

lemma client_ok_frame:
  assumes "client_ok c w" and "heap_wf (iw_heap w')"
    and "hp_cells (iw_heap w') (mBuffer (cl_buffer c)) = Some m" and "length m = sizeof_Packet"
  shows "client_ok c w'"
  using assms good_handler_frame [of _ "iw_heap w" "iw_queue w" "iw_heap w'" "iw_queue w'"]
  by (auto simp: client_ok_def buffer_live_def)

lemma client_ok_block:
  assumes "client_ok c w"
  obtains m where "hp_cells (iw_heap w) (mBuffer (cl_buffer c)) = Some m" and "length m = sizeof_Packet"
    and "mBuffer (cl_buffer c) \<noteq> 0"
  using assms by (auto simp: client_ok_def buffer_live_def)

lemma client_ok_cells:
  "client_ok c w \<Longrightarrow> heap_wf (iw_heap w') \<Longrightarrow> hp_cells (iw_heap w') = hp_cells (iw_heap w) \<Longrightarrow> client_ok c w'"
  by (metis client_ok_frame client_ok_block)

lemma removeConnection_ok:
  "manager_ok m \<Longrightarrow> manager_ok (removeConnection key m)"
  by (auto simp: manager_ok_def removeConnection_def split: if_splits)

text \<open>The steps of the environment and of the passes, without sends.\<close>

inductive manager_step :: "request_env \<Rightarrow> ServerManager \<Rightarrow> ServerManager \<Rightarrow> bool" for env where
  accept: "mSockets m client = None \<Longrightarrow> client \<noteq> 0 \<Longrightarrow>
    getConnections_pass sig ev ws client junk handle status m = Inr m' \<Longrightarrow> manager_step env m m'"
| deliver: "mSockets m key = Some c \<Longrightarrow> length bytes = sizeof_Packet \<Longrightarrow>
    heap_store (mBuffer (cl_buffer c)) 0 bytes (iw_heap (sm_world m)) = Inr h \<Longrightarrow>
    manager_step env m (m\<lparr>sm_world := (sm_world m)\<lparr>iw_heap := h\<rparr>\<rparr>)"
| complete: "worker_pass env junk st1 st2 ok n key m = Some (Inr m') \<Longrightarrow> manager_step env m m'"

definition manager_init :: "ServerManager \<Rightarrow> bool" where
  "manager_init m \<longleftrightarrow> (\<exists>sock h f. heap_wf h \<and> good_factory f \<and> m = setClientFactory f (ServerManager_new sock h))"

text \<open>The receives that were started and are not completed yet.\<close>

definition receives :: "ServerManager \<Rightarrow> nat" where
  "receives m = length (filter (\<lambda>c. case c of Recv _ _ \<Rightarrow> True | Send _ _ \<Rightarrow> False) (iw_calls (sm_world m)))"

definition manager_inv :: "ServerManager \<Rightarrow> bool" where
  "manager_inv m \<longleftrightarrow> manager_ok m \<and> (\<exists>f. mClientFactory m = Some f \<and> good_factory f)
     \<and> receives m = sm_accepted m + 2 * sm_completed m"

lemma client_destroy_ok:
  assumes "client_ok c w"
  shows "\<exists>h. Client_destroy c (iw_heap w) = Inr h \<and> heap_wf h
    \<and> hp_cells h = (hp_cells (iw_heap w))(mBuffer (cl_buffer c) := None)"
proof -
  have wf: "heap_wf (iw_heap w)" using assms by (simp add: client_ok_def)
  obtain m where m: "hp_cells (iw_heap w) (mBuffer (cl_buffer c)) = Some m" "mBuffer (cl_buffer c) \<noteq> 0"
    using client_ok_block [OF assms] by metis
  show ?thesis
    using hp.release_ok [OF wf m] by (auto simp: Client_destroy_def Disconnect_def Buffer_destroy_def)
qed

lemma drop_client_inv:
  assumes inv: "manager_inv m" and c: "mSockets m key = Some c"
  shows "\<exists>m'. drop_client key c m = Inr m' \<and> manager_inv m' \<and> mSockets m' = (mSockets m)(key := None)
    \<and> iw_calls (sm_world m') = iw_calls (sm_world m)
    \<and> hp_cells (iw_heap (sm_world m')) = (hp_cells (iw_heap (sm_world m)))(mBuffer (cl_buffer c) := None)"
proof -
  have ok: "key \<noteq> 0" "client_ok c (sm_world m)" using inv c by (auto simp: manager_inv_def manager_ok_def)
  obtain h where h: "Client_destroy c (iw_heap (sm_world m)) = Inr h" "heap_wf h"
      "hp_cells h = (hp_cells (iw_heap (sm_world m)))(mBuffer (cl_buffer c) := None)"
    using client_destroy_ok [OF ok(2)] by blast
  let ?m = "m\<lparr>mSockets := (mSockets m)(key := None), sm_world := (sm_world m)\<lparr>iw_heap := h\<rparr>\<rparr>"
  have drop: "drop_client key c m = Inr ?m"
    using ok(1) c h(1) by (simp add: drop_client_def removeConnection_def Let_def)
  have others: "client_ok d ((sm_world m)\<lparr>iw_heap := h\<rparr>)" if "k \<noteq> key" "mSockets m k = Some d" for k d
  proof -
    have d: "client_ok d (sm_world m)" "mBuffer (cl_buffer d) \<noteq> mBuffer (cl_buffer c)"
      using inv that c unfolding manager_inv_def manager_ok_def by metis+
    obtain b where b: "hp_cells (iw_heap (sm_world m)) (mBuffer (cl_buffer d)) = Some b" "length b = sizeof_Packet"
      using client_ok_block [OF d(1)] by metis
    show ?thesis by (rule client_ok_frame [OF d(1)]) (use h b d(2) in auto)
  qed
  have "manager_inv ?m"
    using inv others h(2) by (auto simp: manager_inv_def manager_ok_def receives_def)
  then show ?thesis using drop h(3) by auto
qed

text \<open>A new client: its buffer is a new block, and the others keep theirs.\<close>

lemma accept_effect:
  assumes wf: "heap_wf (iw_heap (sm_world m))" and f: "mClientFactory m = Some f" "good_factory f"
    and new: "mSockets m key = None" and acc: "acceptConnection key junk True status sock m = Inr m'"
  obtains c where "mSockets m' key = Some c" and "client_ok c (sm_world m')" and "cl_sent c = (\<lambda>_ w. Inr w)"
    and "cl_state c = READ_STATE" and "hp_cells (iw_heap (sm_world m)) (mBuffer (cl_buffer c)) = None"
    and "hp_cells (iw_heap (sm_world m)) \<subseteq>\<^sub>m hp_cells (iw_heap (sm_world m'))"
    and "iw_queue (sm_world m') = iw_queue (sm_world m)" and "mSockets m' = (mSockets m)(key \<mapsto> c)"
    and "mClientFactory m' = mClientFactory m" and "receives m' = Suc (receives m)"
    and "sm_accepted m' = Suc (sm_accepted m)" and "sm_completed m' = sm_completed m"
proof -
  let ?w = "sm_world m"
  obtain c h1 where c: "Client_new sock sizeof_Packet junk (iw_heap ?w) = Inr (c, h1)"
      "client_ok c \<lparr> iw_heap = h1, iw_queue = iw_queue ?w, iw_calls = iw_calls ?w \<rparr>"
      "hp_cells (iw_heap ?w) (mBuffer (cl_buffer c)) = None"
      "hp_cells h1 = (hp_cells (iw_heap ?w))(mBuffer (cl_buffer c) \<mapsto> replicate sizeof_Packet 0)"
    using Client_new_ok [OF wf, of sock junk "iw_queue ?w" "iw_calls ?w"] by auto
  have wf1: "heap_wf h1" and sent: "cl_sent c = (\<lambda>_ w. Inr w)"
    using c(1,2) by (auto simp: client_ok_def Client_new_def Let_def res_bind_Inr_iff split: prod.splits)
  obtain hls h2 where h2: "f key h1 = Inr (hls, h2)"
      and m': "m' = m\<lparr>mSockets := (mSockets m)(key \<mapsto> (SetReceivedHandler hls c)\<lparr>cl_state := READ_STATE\<rparr>),
          sm_world := ?w\<lparr>iw_heap := h2, iw_calls := iw_calls ?w @ [Recv (cl_socket c) (cl_recv c)]\<rparr>,
          sm_accepted := Suc (sm_accepted m)\<rparr>"
    using acc f(1) c(1) new
    by (auto simp: acceptConnection_def BeginRead_def Let_def res_bind_Inr_iff SetReceivedHandler_def split: if_splits)
  have g: "heap_wf h2" "hp_cells h1 \<subseteq>\<^sub>m hp_cells h2" "\<forall>hl \<in> set hls. \<forall>q. good_handler hl (h2, q)"
    using f(2) wf1 h2 unfolding good_factory_def by blast+
  let ?c = "(SetReceivedHandler hls c)\<lparr>cl_state := READ_STATE\<rparr>"
  have "client_ok ?c (sm_world m')"
    using c(2) g by (auto simp: m' client_ok_def SetReceivedHandler_def buffer_live_def map_le_def dom_def)
  moreover have "hp_cells (iw_heap ?w) \<subseteq>\<^sub>m hp_cells h2"
    using g(2) c(3,4) by (auto simp: map_le_def dom_def)
  ultimately show thesis
    using that [of ?c] c(3) sent by (simp add: m' SetReceivedHandler_def receives_def)
qed

lemma client_kept:
  assumes ok: "client_ok d w" and wf: "heap_wf (iw_heap w')" and mono: "hp_cells (iw_heap w) \<subseteq>\<^sub>m hp_cells (iw_heap w')"
    and fresh: "hp_cells (iw_heap w) a = None"
  shows "client_ok d w' \<and> mBuffer (cl_buffer d) \<noteq> a"
proof -
  obtain m where m: "hp_cells (iw_heap w) (mBuffer (cl_buffer d)) = Some m" "length m = sizeof_Packet"
    using client_ok_block [OF ok] by metis
  then have "hp_cells (iw_heap w') (mBuffer (cl_buffer d)) = Some m" using mono by (metis domI map_le_def)
  then show ?thesis using client_ok_frame [OF ok wf _ m(2)] m(1) fresh by auto
qed

lemma manager_ok_insert:
  assumes ok: "manager_ok m" and new: "mSockets m key = None" "key \<noteq> 0"
    and c: "client_ok c (sm_world m')" "cl_state c = READ_STATE" "hp_cells (iw_heap (sm_world m)) (mBuffer (cl_buffer c)) = None"
    and m': "mSockets m' = (mSockets m)(key \<mapsto> c)" "hp_cells (iw_heap (sm_world m)) \<subseteq>\<^sub>m hp_cells (iw_heap (sm_world m'))"
  shows "manager_ok m'"
proof -
  have wf: "heap_wf (iw_heap (sm_world m'))" using c(1) by (simp add: client_ok_def)
  have old: "k \<noteq> 0 \<and> client_ok d (sm_world m') \<and> cl_state d = READ_STATE \<and> mBuffer (cl_buffer d) \<noteq> mBuffer (cl_buffer c)"
    if "mSockets m k = Some d" for k d
    using ok that client_kept [OF _ wf m'(2) c(3)] unfolding manager_ok_def by blast
  have cases: "k = key \<and> d = c \<or> k \<noteq> key \<and> mSockets m k = Some d" if "mSockets m' k = Some d" for k d
    using that by (auto simp: m' split: if_splits)
  have uniq: "k = k'" if "mSockets m' k = Some d" "mSockets m' k' = Some d'" "mBuffer (cl_buffer d) = mBuffer (cl_buffer d')"
    for k k' d d'
    using cases [OF that(1)] cases [OF that(2)] that(3) old ok unfolding manager_ok_def by metis
  show ?thesis
    unfolding manager_ok_def using wf uniq cases old c(1,2) new(2) by blast
qed

lemma acceptConnection_inv:
  assumes inv: "manager_inv m" and new: "mSockets m client = None" "client \<noteq> 0"
    and acc: "acceptConnection client junk handle status sock m = Inr m'"
  shows "manager_inv m'" and "handle \<Longrightarrow> isClientConnected client m'"
proof -
  have ok: "manager_ok m" and wf: "heap_wf (iw_heap (sm_world m))" using inv by (simp_all add: manager_inv_def manager_ok_def)
  obtain f where f: "mClientFactory m = Some f" "good_factory f" using inv by (auto simp: manager_inv_def)
  have "manager_inv m' \<and> (handle \<longrightarrow> isClientConnected client m')"
  proof (cases handle)
    case True
    then have "acceptConnection client junk True status sock m = Inr m'" using acc by simp
    from accept_effect [OF wf f new(1) this] obtain c where c: "client_ok c (sm_world m')" "cl_state c = READ_STATE"
        "hp_cells (iw_heap (sm_world m)) (mBuffer (cl_buffer c)) = None"
        "hp_cells (iw_heap (sm_world m)) \<subseteq>\<^sub>m hp_cells (iw_heap (sm_world m'))" "mSockets m' = (mSockets m)(client \<mapsto> c)"
        "mClientFactory m' = mClientFactory m" "receives m' = Suc (receives m)"
        "sm_accepted m' = Suc (sm_accepted m)" "sm_completed m' = sm_completed m"
      by metis
    have "manager_ok m'" by (rule manager_ok_insert [OF ok new c(1,2,3,5,4)])
    then show ?thesis
      using inv c new(2) by (simp add: manager_inv_def isClientConnected_def isPtrToClientValid_def)
  next
    case False
    let ?w = "sm_world m"
    obtain c h1 where c: "Client_new sock sizeof_Packet junk (iw_heap ?w) = Inr (c, h1)"
        "client_ok c \<lparr> iw_heap = h1, iw_queue = iw_queue ?w, iw_calls = iw_calls ?w \<rparr>"
        "hp_cells (iw_heap ?w) (mBuffer (cl_buffer c)) = None"
        "hp_cells h1 = (hp_cells (iw_heap ?w))(mBuffer (cl_buffer c) \<mapsto> replicate sizeof_Packet 0)"
      using Client_new_ok [OF wf, of sock junk "iw_queue ?w" "iw_calls ?w"] by auto
    obtain h2 where h2: "Client_destroy c h1 = Inr h2" "heap_wf h2"
        "hp_cells h2 = (hp_cells h1)(mBuffer (cl_buffer c) := None)"
      using client_destroy_ok [OF c(2)] by auto
    have cells: "hp_cells h2 = hp_cells (iw_heap ?w)" using h2(3) c(3,4) by (auto simp: fun_upd_idem)
    have m': "m' = m\<lparr>sm_world := ?w\<lparr>iw_heap := h2\<rparr>\<rparr>"
      using acc False c(1) h2(1) by (simp add: acceptConnection_def)
    have "client_ok d (?w\<lparr>iw_heap := h2\<rparr>)" if "mSockets m k = Some d" for k d
      using client_ok_cells [of d ?w "?w\<lparr>iw_heap := h2\<rparr>"] ok that h2(2) cells by (auto simp: manager_ok_def)
    then have "manager_ok m'" using ok h2(2) unfolding manager_ok_def m' by auto
    then show ?thesis using inv False by (auto simp: manager_inv_def m' receives_def)
  qed
  then show "manager_inv m'" "handle \<Longrightarrow> isClientConnected client m'" by simp_all
qed

lemma deliver_inv:
  assumes inv: "manager_inv m" and c: "mSockets m key = Some c" and len: "length bytes = sizeof_Packet"
    and st: "heap_store (mBuffer (cl_buffer c)) 0 bytes (iw_heap (sm_world m)) = Inr h"
  shows "manager_inv (m\<lparr>sm_world := (sm_world m)\<lparr>iw_heap := h\<rparr>\<rparr>)"
proof -
  let ?w = "sm_world m"
  have ok: "client_ok c ?w" using inv c by (auto simp: manager_inv_def manager_ok_def)
  have wf: "heap_wf (iw_heap ?w)" using inv by (simp add: manager_inv_def manager_ok_def)
  obtain b where b: "hp_cells (iw_heap ?w) (mBuffer (cl_buffer c)) = Some b" "length b = sizeof_Packet"
    using client_ok_block [OF ok] by metis
  have h: "heap_wf h" "hp_cells h = (hp_cells (iw_heap ?w))(mBuffer (cl_buffer c) \<mapsto> bytes)"
    using hp.put_ok [OF wf b(1), of 0 bytes] st b(2) len by auto
  have "client_ok d (?w\<lparr>iw_heap := h\<rparr>)" if "mSockets m k = Some d" for k d
  proof -
    have dok: "client_ok d ?w" using inv that by (auto simp: manager_inv_def manager_ok_def)
    obtain b' where "hp_cells (iw_heap ?w) (mBuffer (cl_buffer d)) = Some b'" "length b' = sizeof_Packet"
      using client_ok_block [OF dok] by metis
    then have "\<exists>x. hp_cells h (mBuffer (cl_buffer d)) = Some x \<and> length x = sizeof_Packet"
      using h(2) len by auto
    then show ?thesis using client_ok_frame [OF dok, of "?w\<lparr>iw_heap := h\<rparr>"] h(1) by auto
  qed
  then show ?thesis using inv h(1) by (auto simp: manager_inv_def manager_ok_def receives_def)
qed

text \<open>A completion of a connected client in the read state, with two more receives started.\<close>

lemma worker_pass_live:
  assumes inv: "manager_inv m" and c: "mSockets m key = Some c" and n: "n \<noteq> 0"
    and st: "st1 \<noteq> Failed" "st2 \<noteq> Failed"
  shows "\<exists>r. worker_pass env junk st1 st2 True n key m = Some r \<and> (case r of
      Inl f \<Rightarrow> f = InvalidParameter
    | Inr m' \<Rightarrow> manager_inv m' \<and> hp_cells (iw_heap (sm_world m')) = hp_cells (iw_heap (sm_world m))
        \<and> dom (mSockets m') = dom (mSockets m) \<and> sm_completed m' = Suc (sm_completed m)
        \<and> iw_calls (sm_world m') = iw_calls (sm_world m)
            @ [Recv (cl_socket c) (cl_recv c), Recv (cl_socket c) (cl_recv c)])"
proof -
  let ?w = "sm_world m"
  have ok: "key \<noteq> 0" "client_ok c ?w" "cl_state c = READ_STATE"
    using inv c by (auto simp: manager_inv_def manager_ok_def)
  have valid: "isPtrToClientValid key m" using ok(1) c by (simp add: isPtrToClientValid_def)
  obtain r where r: "CompleteRead env junk (ucast n) c ?w = Some r" "case r of
      Inl f \<Rightarrow> f = InvalidParameter
    | Inr (c', w') \<Rightarrow> client_ok c' w' \<and> hp_cells (iw_heap w') = hp_cells (iw_heap ?w)
        \<and> iw_calls w' = iw_calls ?w \<and> (\<exists>rcv. c' = c\<lparr>cl_received := rcv\<rparr>)"
    using CompleteRead_spec [OF ok(2), of env junk "ucast n"] by (fastforce split: sum.splits)
  show ?thesis
  proof (cases r)
    case (Inl f)
    then have "BeginIOEvent env junk st1 n c ?w = Some (Inl f)" "f = InvalidParameter"
      using r ok(3) by (simp_all add: BeginIOEvent_def)
    then show ?thesis using valid c n by (simp add: worker_pass_def)
  next
    case (Inr x)
    then obtain c1 w1 rcv where x: "r = Inr (c1, w1)" "client_ok c1 w1"
        "hp_cells (iw_heap w1) = hp_cells (iw_heap ?w)" "iw_calls w1 = iw_calls ?w" "c1 = c\<lparr>cl_received := rcv\<rparr>"
      using r(2) by (cases x) auto
    let ?c2 = "c1\<lparr>cl_state := READ_STATE\<rparr>" and ?call = "Recv (cl_socket c) (cl_recv c)"
    let ?w2 = "w1\<lparr>iw_calls := iw_calls ?w @ [?call, ?call]\<rparr>"
    let ?m = "m\<lparr>mSockets := (mSockets m)(key \<mapsto> ?c2), sm_world := ?w2,
       sm_notified := Suc (sm_notified m), sm_completed := Suc (sm_completed m)\<rparr>"
    have pass: "worker_pass env junk st1 st2 True n key m = Some (Inr ?m)"
      using valid c n r(1) x(1,4,5) st ok(3)
      by (simp add: worker_pass_def BeginIOEvent_def BeginRead_def Let_def)
    have wf: "heap_wf (iw_heap ?w2)" using x(2) by (simp add: client_ok_def)
    have c2: "client_ok ?c2 ?w2" using x(2) by (simp add: client_ok_def)
    have buf: "mBuffer (cl_buffer ?c2) = mBuffer (cl_buffer c)" using x(5) by simp
    have others: "client_ok d ?w2" if "mSockets m k = Some d" for k d
      using client_ok_cells [of d ?w ?w2] inv that wf x(3) by (auto simp: manager_inv_def manager_ok_def)
    have rest: "k \<noteq> 0 \<and> cl_state d = READ_STATE" if "mSockets m k = Some d" for k d
      using inv that by (auto simp: manager_inv_def manager_ok_def)
    have inj: "k = k'" if "mSockets m k = Some d" "mSockets m k' = Some d'" "mBuffer (cl_buffer d) = mBuffer (cl_buffer d')"
      for k k' d d'
      using inv that unfolding manager_inv_def manager_ok_def by blast
    have "manager_ok ?m"
      unfolding manager_ok_def using wf c2 others rest inj c buf ok(1)
      by (auto split: if_splits)
    then have "manager_inv ?m" using inv by (auto simp: manager_inv_def receives_def)
    then show ?thesis using pass x(3) c by auto
  qed
qed

text \<open>A receive that cannot be started is never mistaken for a message error.\<close>

lemma BeginRead_failed: "BeginRead Failed c w = Inl DebugTrap"
  by (simp add: BeginRead_def)

lemma BeginIOEvent_read_fault:
  assumes "client_ok c w" and "cl_state c = READ_STATE"
  shows "\<exists>r. BeginIOEvent env junk st1 n c w = Some r \<and> (st1 = Failed \<longrightarrow> (\<exists>f. r = Inl f))
    \<and> (\<forall>f. r = Inl f \<longrightarrow> f \<noteq> RuntimeError)
    \<and> (\<forall>f. res_bind r (\<lambda>(c1, w1). BeginRead Failed c1 w1) = Inl f \<longrightarrow> f \<noteq> RuntimeError)
    \<and> (\<exists>f. res_bind r (\<lambda>(c1, w1). BeginRead Failed c1 w1) = Inl f)"
proof -
  obtain r where r: "CompleteRead env junk (ucast n) c w = Some r" "\<And>f. r = Inl f \<Longrightarrow> f = InvalidParameter"
    using CompleteRead_spec [OF assms(1), of env junk "ucast n"] by (fastforce split: sum.splits)
  show ?thesis
  proof (cases r)
    case (Inl f)
    then show ?thesis using r assms(2) by (simp add: BeginIOEvent_def)
  next
    case (Inr x)
    obtain c1 w1 where x: "x = (c1, w1)" by (cases x)
    show ?thesis
    proof (cases "st1 = Failed")
      case True
      then show ?thesis using r Inr x assms(2) by (simp add: BeginIOEvent_def BeginRead_failed)
    next
      case False
      then show ?thesis using r Inr x assms(2)
        by (simp add: BeginIOEvent_def BeginRead_failed) (simp add: BeginRead_def Let_def)
    qed
  qed
qed

lemma worker_pass_inv:
  assumes inv: "manager_inv m" and pass: "worker_pass env junk st1 st2 ok n key m = Some (Inr m')"
  shows "manager_inv m'"
proof (cases "isPtrToClientValid key m")
  case False
  then show ?thesis using inv pass by (simp add: worker_pass_def)
next
  case True
  then obtain c where c: "mSockets m key = Some c" "key \<noteq> 0" by (auto simp: isPtrToClientValid_def)
  show ?thesis
  proof (cases "\<not> ok \<or> n = 0")
    case gone: True
    then have "drop_client key c m = Inr m'" using pass c True by (auto simp: worker_pass_def)
    then show ?thesis using drop_client_inv [OF inv c(1)] by auto
  next
    case False
    have cok: "client_ok c (sm_world m)" "cl_state c = READ_STATE"
      using inv c(1) by (auto simp: manager_inv_def manager_ok_def)
    have w: "worker_pass env junk st1 st2 ok n key m = map_option (\<lambda>r.
        case res_bind r (\<lambda>(c1, w1). BeginRead st2 c1 w1) of
          Inl f \<Rightarrow> if f = RuntimeError then drop_client key c m else Inl f
        | Inr (c2, w2) \<Rightarrow> Inr (m\<lparr>mSockets := (mSockets m)(key \<mapsto> c2), sm_world := w2,
            sm_notified := Suc (sm_notified m), sm_completed := Suc (sm_completed m)\<rparr>))
        (BeginIOEvent env junk st1 n c (sm_world m))"
      using True c False by (simp add: worker_pass_def)
    have st: "st1 \<noteq> Failed" "st2 \<noteq> Failed"
      using pass BeginIOEvent_read_fault [OF cok, of env junk st1 n] unfolding w by auto
    have "ok" "n \<noteq> 0" using False by simp_all
    then show ?thesis using worker_pass_live [OF inv c(1) _ st, of n env junk] pass by auto
  qed
qed

interpretation manager: invariant_system manager_init "manager_step env" manager_inv
proof unfold_locales
  fix m assume "manager_init m"
  then show "manager_inv m"
    by (auto simp: manager_init_def manager_inv_def manager_ok_def setClientFactory_def ServerManager_new_def
        receives_def)
next
  fix m m' assume inv: "manager_inv m" and step: "manager_step env m m'"
  from step show "manager_inv m'"
  proof cases
    case (accept client sig ev ws junk handle status)
    then show ?thesis
      using inv acceptConnection_inv(1) [OF inv accept(1,2)]
      by (auto simp: getConnections_pass_def split: if_splits sum.splits)
         (auto simp: res_bind_Inr_iff)
  next
    case (deliver key c bytes h)
    then show ?thesis using deliver_inv [OF inv] by blast
  next
    case (complete junk st1 st2 ok n key)
    then show ?thesis using worker_pass_inv [OF inv] by blast
  qed
qed

lemma factory_is_good: "good_factory (\<lambda>client h. make_handlers dir fs junk cjunk client h)"
  unfolding good_factory_def by (intro allI impI conjI ballI) (auto dest: make_handlers_good)

section \<open>Properties\<close>


definition demo_factory_fun :: factory where
  "demo_factory_fun = (\<lambda>client h. make_handlers (\<lambda>_. []) (\<lambda>_. None) (\<lambda>_ _. 0) (\<lambda>_ _. 0) client h)"

definition demo_manager0 :: ServerManager where
  "demo_manager0 = setClientFactory demo_factory_fun
     (ServerManager_new \<lparr> mPort = 1, mAddress = [], mSocketFileDesc = 40 \<rparr> heap_empty)"

lemma demo_manager0_init: "manager_init demo_manager0"
  unfolding manager_init_def demo_manager0_def demo_factory_fun_def
  using heap_empty_wf factory_is_good by blast

lemma demo_accept: "\<exists>m. getConnections_pass True True demo_ws 9 (\<lambda>_. 0) True Pending demo_manager0 = Inr m
  \<and> mSockets m 9 \<noteq> None \<and> sm_accepted m = 1 \<and> sm_completed m = 0"
proof -
  obtain c h' where c: "Client_new 50 sizeof_Packet (\<lambda>_. 0) heap_empty = Inr (c, h')"
    using Client_new_ok [OF heap_empty_wf] by blast
  show ?thesis using c
    by (simp add: getConnections_pass_def acceptSocket_def demo_ws_def INVALID_SOCKET_def acceptConnection_def
        demo_manager0_def setClientFactory_def ServerManager_new_def demo_factory_fun_def make_handlers_def
        AudioServerHandler_new_def FileList_new_def populate_def Let_def BeginRead_def del: sizeof_Packet_val)
qed

definition demo_manager :: ServerManager where
  "demo_manager = (case getConnections_pass True True demo_ws 9 (\<lambda>_. 0) True Pending demo_manager0 of
     Inr m \<Rightarrow> m | Inl _ \<Rightarrow> demo_manager0)"

lemma demo_manager_simps:
  "mSockets demo_manager 9 \<noteq> None" "sm_accepted demo_manager = 1" "sm_completed demo_manager = 0"
  using demo_accept by (auto simp: demo_manager_def)

lemma demo_manager_reachable: "reachable manager_init (manager_step env) demo_manager"
proof -
  obtain m where m: "getConnections_pass True True demo_ws 9 (\<lambda>_. 0) True Pending demo_manager0 = Inr m"
    using demo_accept by blast
  then have "demo_manager = m" by (simp add: demo_manager_def)
  moreover have "mSockets demo_manager0 9 = None"
    by (simp add: demo_manager0_def setClientFactory_def ServerManager_new_def)
  ultimately have "manager_step env demo_manager0 demo_manager"
    using manager_step.accept [OF _ _ m] by simp
  then show ?thesis using demo_manager0_init by (meson reachable.start reachable.advance)
qed






text \<open>
  C35. The tasks of the pool. With at least three hardware threads \<open>listen\<close> asks for one accepting
  thread, one sending thread and four workers fewer than twice the hardware threads, so all tasks
  fit the pool. With one or two hardware threads there is no worker at all, and no completion is ever
  processed; when the number is not known (zero) the pool has no thread and the bound wraps around, so
  that more than four thousand million tasks are queued.
\<close>

theorem listen_task_counts:
  assumes "unat hc < 1000000"
  shows "listen_tasks hc = [GetConnections, SendTask] @ replicate
      (if hc = 0 then 4294967292 else 2 * unat hc - 4) WorkerThread
    \<and> (3 \<le> unat hc \<longrightarrow> length (listen_tasks hc) + 2 = pool_size hc)
    \<and> (hc = 1 \<or> hc = 2 \<longrightarrow> WorkerThread \<notin> set (listen_tasks hc))"
proof -
  have "3 \<le> unat hc \<Longrightarrow> hc \<noteq> 0" by auto
  then show ?thesis using listen_tasks_eq [OF assms] pool_size_eq [OF assms] by auto
qed

theorem listen_task_counts_witness:
  "listen_tasks 2 = [GetConnections, SendTask] \<and> listen_tasks 4 = [GetConnections, SendTask] @ replicate 4 WorkerThread"
  using listen_task_counts [of 2] listen_task_counts [of 4] by simp

text \<open>
  What \<open>main\<close> does. A failure to start Winsock ends the program by \<open>terminate\<close> or by reading past
  the message literal. Otherwise it always reaches the loop that never ends, whether or not the server
  could be made to listen; in that case no task was queued, and the program spins without serving.
\<close>

theorem main_outcomes:
  "(ws_startup ws \<noteq> 0 \<longrightarrow> main_server ws ev sel hc f h = Ends Terminate \<or> main_server ws ev sel hc f h = Ends OutOfBounds)
   \<and> (ws_startup ws = 0 \<longrightarrow> (\<exists>m. main_server ws ev sel hc f h = Spins m \<and> mIsRunning m
        \<and> mClientFactory m = Some f \<and> mSockets m = Map.empty
        \<and> sm_tasks m = (if ws_socket ws \<noteq> INVALID_SOCKET \<and> ws_getaddrinfo ws = 0 \<and> 0 \<le> sint (ws_bind ws)
             \<and> ws_listen ws \<noteq> -1 \<and> ev \<and> sel then listen_tasks hc else [])))"
  by (auto simp: main_server_def ServerSocket_new_def listen_server_def begin_server_def Let_def
      setClientFactory_def ServerManager_new_def)

theorem main_outcomes_witness:
  "\<exists>m. main_server demo_ws True True 4 demo_factory_fun heap_empty = Spins m \<and> sm_tasks m = []"
  using main_outcomes [of demo_ws True True 4 demo_factory_fun heap_empty]
  by (auto simp: demo_ws_def)

end
