(* ===== verification/SendTasks.thy ===== *)
theory SendTasks
  imports AudioHandler "HOL-Library.Sublist"
begin

text \<open>
  \<open>ServerManager::sendTask\<close> of Server/ServerManager.cpp with the workers it waits for: the thread
  that takes packets from the send queue, copies each into a new array, starts the send and waits on
  a condition variable until some worker has processed some completion, then deletes the array. The
  wait has no predicate and the notification does not say what it is for, so the interleavings decide
  what happens; they are the steps here.
\<close>

section \<open>Building the array\<close>

definition build_item :: "(nat \<Rightarrow> byte) \<Rightarrow> Packet \<Rightarrow> heap \<Rightarrow> (addr \<times> heap) res" where
  "build_item junk item h =
     (let packetSize = wire_size item; (data, h1) = heap_new (unat packetSize) junk h in
      res_bind (wire_bytes item) (\<lambda>bs.
      res_bind (heap_store data 0 bs h1) (\<lambda>h2.
      Inr (data, h2))))"

lemma build_item_ok:
  assumes wf: "heap_wf h" and pk: "packet_wf item"
  shows "\<exists>data h2 bs. build_item junk item h = Inr (data, h2) \<and> heap_wf h2 \<and> wire_bytes item = Inr bs
    \<and> data \<noteq> 0 \<and> hp_cells h data = None \<and> hp_cells h2 = (hp_cells h)(data \<mapsto> bs)"
proof -
  obtain bs where bs: "wire_bytes item = Inr bs" "length bs = unat (wire_size item)"
    using wire_bytes_eq [OF pk] length_payload [OF pk] unat_wire_size [OF pk] by auto
  obtain a h1 where new: "heap_new (unat (wire_size item)) junk h = (a, h1)" by fastforce
  note a = hp.alloc_fresh [OF wf new] hp.alloc_blocks [OF wf new]
  obtain h2 where "heap_store a 0 bs h1 = Inr h2" "hp_cells h2 = (hp_cells h1)(a \<mapsto> bs)" "heap_wf h2"
    using hp.put_ok [of h1 a "new_bytes (unat (wire_size item)) junk" 0 bs] a bs(2) by auto
  then show ?thesis using a bs(1) new by (auto simp: build_item_def Let_def)
qed

section \<open>The threads\<close>

text \<open>
  Where the sending thread is: about to pop, with the array built, with the send started, waiting on
  the condition, woken and about to delete.
\<close>

datatype sender = AtPop | Built addr ClientPacket | SendStarted addr | Waiting addr | Woken addr

text \<open>A completion: of the send of an array, or of a receive of any client.\<close>

datatype completion = SendDone addr | ReadDone

record send_state =
  ss_heap :: heap
  ss_queue :: send_queue
  ss_at :: sender
  ss_inflight :: "addr list"        \<comment> \<open>sends the system has not finished\<close>
  ss_port :: "completion list"      \<comment> \<open>completions no worker has taken\<close>
  ss_handled :: nat                 \<comment> \<open>workers that processed one and have not notified yet\<close>
  ss_pushed :: "ClientPacket list"  \<comment> \<open>history: packets queued\<close>
  ss_popped :: "ClientPacket list"  \<comment> \<open>history: packets taken\<close>
  ss_base :: "addr \<Rightarrow> byte list option"  \<comment> \<open>history: the blocks of everybody else\<close>
  ss_sent :: "(addr \<times> byte list) list" \<comment> \<open>history: sends started, client and bytes\<close>

text \<open>The steps of the program's own threads.\<close>

inductive server_step :: "send_state \<Rightarrow> send_state \<Rightarrow> bool" where
  pop_invalid: "ss_at s = AtPop \<Longrightarrow> queue_pop (ss_queue s) = Some (cp, rest) \<Longrightarrow>
    pkt_type (snd cp) = type_val INVALID \<Longrightarrow>
    server_step s (s\<lparr>ss_queue := rest, ss_popped := ss_popped s @ [cp]\<rparr>)"
| pop_build: "ss_at s = AtPop \<Longrightarrow> queue_pop (ss_queue s) = Some (cp, rest) \<Longrightarrow>
    pkt_type (snd cp) \<noteq> type_val INVALID \<Longrightarrow> build_item junk (snd cp) (ss_heap s) = Inr (data, h) \<Longrightarrow>
    server_step s (s\<lparr>ss_queue := rest, ss_popped := ss_popped s @ [cp], ss_heap := h, ss_at := Built data cp\<rparr>)"
| begin_send: "ss_at s = Built data cp \<Longrightarrow> heap_load data (unat (wire_size (snd cp))) (ss_heap s) = Inr bs \<Longrightarrow>
    server_step s (s\<lparr>ss_at := SendStarted data, ss_inflight := ss_inflight s @ [data],
      ss_sent := ss_sent s @ [(fst cp, bs)]\<rparr>)"
| client_gone: "ss_at s = Built data cp \<Longrightarrow> server_step s (s\<lparr>ss_at := Woken data\<rparr>)"
| wait: "ss_at s = SendStarted data \<Longrightarrow> server_step s (s\<lparr>ss_at := Waiting data\<rparr>)"
| delete: "ss_at s = Woken data \<Longrightarrow> heap_delete data (ss_heap s) = Inr h \<Longrightarrow>
    server_step s (s\<lparr>ss_heap := h, ss_at := AtPop\<rparr>)"
| worker_takes: "ss_port s = e # es \<Longrightarrow>
    server_step s (s\<lparr>ss_port := es, ss_handled := Suc (ss_handled s)\<rparr>)"
| worker_notifies: "ss_handled s = Suc n \<Longrightarrow>
    server_step s (s\<lparr>ss_handled := n,
      ss_at := (case ss_at s of Waiting data \<Rightarrow> Woken data | p \<Rightarrow> p)\<rparr>)"

text \<open>
  What happens around them: handlers queue well-formed packets, the system finishes a send, and, in a
  \<open>noisy\<close> world, receives complete and the condition variable wakes up for no reason.
\<close>

inductive world_step :: "bool \<Rightarrow> send_state \<Rightarrow> send_state \<Rightarrow> bool" for noisy where
  queued: "packet_wf (snd cp) \<Longrightarrow>
    world_step noisy s (s\<lparr>ss_queue := queue_push cp (ss_queue s), ss_pushed := ss_pushed s @ [cp]\<rparr>)"
| send_finished: "ss_inflight s = xs @ data # ys \<Longrightarrow>
    world_step noisy s (s\<lparr>ss_inflight := xs @ ys, ss_port := ss_port s @ [SendDone data]\<rparr>)"
| read_finished: "noisy \<Longrightarrow> world_step noisy s (s\<lparr>ss_port := ss_port s @ [ReadDone]\<rparr>)"
| spurious: "noisy \<Longrightarrow> ss_at s = Waiting data \<Longrightarrow> world_step noisy s (s\<lparr>ss_at := Woken data\<rparr>)"

definition send_step :: "bool \<Rightarrow> send_state \<Rightarrow> send_state \<Rightarrow> bool" where
  "send_step noisy s t \<longleftrightarrow> server_step s t \<or> world_step noisy s t"

definition send_init :: "send_state \<Rightarrow> bool" where
  "send_init s \<longleftrightarrow> (\<exists>h. heap_wf h \<and> s = \<lparr> ss_heap = h, ss_queue = \<lparr> mQueue = [] \<rparr>, ss_at = AtPop,
     ss_inflight = [], ss_port = [], ss_handled = 0, ss_pushed = [], ss_popped = [],
     ss_base = hp_cells h, ss_sent = [] \<rparr>)"

section \<open>What always holds\<close>

fun held :: "sender \<Rightarrow> addr option" where
  "held AtPop = None"
| "held (Built data cp) = Some data"
| "held (SendStarted data) = Some data"
| "held (Waiting data) = Some data"
| "held (Woken data) = Some data"

definition bytes_of :: "ClientPacket \<Rightarrow> addr \<times> byte list" where
  "bytes_of cp = (fst cp, case wire_bytes (snd cp) of Inr bs \<Rightarrow> bs | Inl _ \<Rightarrow> [])"

text \<open>
  The sending thread holds at most one live block; queue and histories agree; what was sent is a
  subsequence of what was taken, and while the array is built the packet it was built from is the
  last one taken and not among the sent.
\<close>

definition send_inv :: "send_state \<Rightarrow> bool" where
  "send_inv s \<longleftrightarrow> heap_wf (ss_heap s)
     \<and> (case held (ss_at s) of
          None \<Rightarrow> hp_cells (ss_heap s) = ss_base s
        | Some data \<Rightarrow> data \<noteq> 0 \<and> ss_base s data = None \<and> (\<exists>m. hp_cells (ss_heap s) = (ss_base s)(data \<mapsto> m)))
     \<and> ss_pushed s = ss_popped s @ mQueue (ss_queue s) \<and> (\<forall>cp \<in> set (ss_pushed s). packet_wf (snd cp))
     \<and> (case ss_at s of
          Built data cp \<Rightarrow> (\<exists>before. ss_popped s = before @ [cp] \<and> subseq (ss_sent s) (map bytes_of before)
            \<and> hp_cells (ss_heap s) data = Some (snd (bytes_of cp))
            \<and> wire_bytes (snd cp) = Inr (snd (bytes_of cp)))
        | _ \<Rightarrow> subseq (ss_sent s) (map bytes_of (ss_popped s)))"

lemma subseq_snoc_same: "subseq xs ys \<Longrightarrow> subseq (xs @ [x]) (ys @ [x])"
  by (simp add: list_emb_append_mono)

lemma subseq_snoc_skip: "subseq xs ys \<Longrightarrow> subseq xs (ys @ zs)"
  by (rule list_emb_prefix)

lemma wire_bytes_length: "wire_bytes item = Inr bs \<Longrightarrow> length bs = unat (wire_size item)"
  by (auto simp: wire_bytes_def dest: mem_read_length)

lemma send_inv_server:
  assumes "server_step s t" and "send_inv s"
  shows "send_inv t"
  using assms
proof (induction rule: server_step.induct)
  case (pop_invalid s cp rest)
  then show ?case using cq.pop_contents [OF pop_invalid(2)]
    by (auto simp: send_inv_def subseq_snoc_skip)
next
  case (pop_build s cp rest junk data h)
  have q: "mQueue (ss_queue s) = cp # mQueue rest" using cq.pop_contents [OF pop_build(2)] .
  then have wf: "packet_wf (snd cp)" using pop_build(5) by (simp add: send_inv_def)
  have hwf: "heap_wf (ss_heap s)" using pop_build(5) by (simp add: send_inv_def)
  obtain bs where bs: "heap_wf h" "wire_bytes (snd cp) = Inr bs" "data \<noteq> 0" "hp_cells (ss_heap s) data = None"
      "hp_cells h = (hp_cells (ss_heap s))(data \<mapsto> bs)"
    using build_item_ok [OF hwf wf, of junk] pop_build(4) by auto
  then have "bytes_of cp = (fst cp, bs)" by (simp add: bytes_of_def)
  then show ?case using pop_build(1,5) q bs by (auto simp: send_inv_def)
next
  case (begin_send s data cp bs)
  obtain before where b: "ss_popped s = before @ [cp]" "subseq (ss_sent s) (map bytes_of before)"
      "hp_cells (ss_heap s) data = Some (snd (bytes_of cp))" "wire_bytes (snd cp) = Inr (snd (bytes_of cp))"
    using begin_send(1,3) by (auto simp: send_inv_def)
  have "bs = snd (bytes_of cp)"
    using begin_send(2) b(3) wire_bytes_length [OF b(4)] by (simp add: heap_load_ok)
  then have "(fst cp, bs) = bytes_of cp" by (simp add: bytes_of_def)
  then have "subseq (ss_sent s @ [(fst cp, bs)]) (map bytes_of (ss_popped s))"
    using subseq_snoc_same [OF b(2), of "bytes_of cp"] b(1) by simp
  then show ?case using begin_send(1,3) by (auto simp: send_inv_def)
next
  case (client_gone s data cp)
  then show ?case by (auto simp: send_inv_def subseq_snoc_skip)
next
  case (wait s data)
  then show ?case by (auto simp: send_inv_def)
next
  case (delete s data h)
  then obtain m where m: "hp_cells (ss_heap s) = (ss_base s)(data \<mapsto> m)" "data \<noteq> 0" "heap_wf (ss_heap s)"
      "ss_base s data = None"
    by (auto simp: send_inv_def)
  then have "heap_wf h" "hp_cells h = ss_base s"
    using hp.release_ok [of "ss_heap s" data m] delete(2) by (auto simp: fun_upd_idem)
  then show ?case using delete by (auto simp: send_inv_def)
next
  case (worker_takes s e es)
  then show ?case by (cases "ss_at s") (auto simp: send_inv_def)
next
  case (worker_notifies s n)
  then show ?case by (cases "ss_at s") (auto simp: send_inv_def)
qed

lemma send_inv_world:
  assumes "world_step noisy s t" and "send_inv s"
  shows "send_inv t"
  using assms
proof (induction rule: world_step.induct)
  case (queued cp s)
  then show ?case by (auto simp: send_inv_def cq.push_contents split: sender.splits)
qed (auto simp: send_inv_def split: sender.splits)

interpretation send: invariant_system send_init "send_step noisy" send_inv
proof unfold_locales
  fix s assume "send_init s"
  then show "send_inv s" by (auto simp: send_init_def send_inv_def)
next
  fix s t assume "send_inv s" "send_step noisy s t"
  then show "send_inv t" using send_inv_server send_inv_world by (auto simp: send_step_def)
qed

section \<open>Without noise\<close>

text \<open>
  When only sends complete and nothing wakes up for no reason, at most one completion is under way,
  that of the send the thread has started, and none once the thread has been woken.
\<close>

definition under_way :: "send_state \<Rightarrow> nat" where
  "under_way s = length (ss_inflight s) + length (ss_port s) + ss_handled s"

definition quiet_inv :: "send_state \<Rightarrow> bool" where
  "quiet_inv s \<longleftrightarrow> send_inv s \<and> (case ss_at s of
       SendStarted data \<Rightarrow> under_way s \<le> 1 \<and> set (ss_inflight s) \<subseteq> {data}
     | Waiting data \<Rightarrow> under_way s \<le> 1 \<and> set (ss_inflight s) \<subseteq> {data}
     | _ \<Rightarrow> under_way s = 0)"

lemma quiet_inv_step:
  assumes inv: "quiet_inv s" and step: "send_step False s t"
  shows "quiet_inv t"
proof -
  have "send_inv t" using send.inv_step inv step unfolding quiet_inv_def by blast
  moreover have "case ss_at t of
       SendStarted data \<Rightarrow> under_way t \<le> 1 \<and> set (ss_inflight t) \<subseteq> {data}
     | Waiting data \<Rightarrow> under_way t \<le> 1 \<and> set (ss_inflight t) \<subseteq> {data}
     | _ \<Rightarrow> under_way t = 0"
  proof (cases "server_step s t")
    case True
    then show ?thesis using inv
      by (induction rule: server_step.induct)
        (auto simp: quiet_inv_def under_way_def split: sender.splits)
  next
    case False
    then have "world_step False s t" using step by (simp add: send_step_def)
    then show ?thesis using inv
      by (induction rule: world_step.induct)
        (auto simp: quiet_inv_def under_way_def split: sender.splits)
  qed
  ultimately show ?thesis by (simp add: quiet_inv_def)
qed

interpretation quiet: invariant_system send_init "send_step False" quiet_inv
  by unfold_locales
    (auto simp: quiet_inv_step, auto simp: quiet_inv_def send.inv_init, auto simp: send_init_def under_way_def)

section \<open>Two runs\<close>

lemma advance_server:
  "reachable send_init (send_step noisy) s \<Longrightarrow> server_step s t \<Longrightarrow> reachable send_init (send_step noisy) t"
  by (erule reachable.advance) (simp add: send_step_def)

lemma advance_world:
  "reachable send_init (send_step noisy) s \<Longrightarrow> world_step noisy s t \<Longrightarrow> reachable send_init (send_step noisy) t"
  by (erule reachable.advance) (simp add: send_step_def)

text \<open>Two packets are queued, the first is taken and its send started.\<close>

lemma run_to_send:
  assumes wf: "packet_wf (snd cp)" and ty: "pkt_type (snd cp) \<noteq> type_val INVALID"
  shows "\<exists>s data. reachable send_init (send_step noisy) s \<and> ss_at s = SendStarted data
    \<and> ss_inflight s = [data] \<and> ss_port s = [] \<and> ss_handled s = 0 \<and> mQueue (ss_queue s) = [cp]"
proof -
  let ?s0 = "\<lparr> ss_heap = heap_empty, ss_queue = \<lparr> mQueue = [] \<rparr>, ss_at = AtPop, ss_inflight = [], ss_port = [],
     ss_handled = 0, ss_pushed = [], ss_popped = [], ss_base = hp_cells heap_empty, ss_sent = [] \<rparr>"
  have r0: "reachable send_init (send_step noisy) ?s0"
    using heap_empty_wf by (intro reachable.start) (auto simp: send_init_def)
  let ?s1 = "?s0\<lparr>ss_queue := queue_push cp (ss_queue ?s0), ss_pushed := ss_pushed ?s0 @ [cp]\<rparr>"
  let ?s2 = "?s1\<lparr>ss_queue := queue_push cp (ss_queue ?s1), ss_pushed := ss_pushed ?s1 @ [cp]\<rparr>"
  have r2: "reachable send_init (send_step noisy) ?s2"
    by (rule advance_world [OF advance_world [OF r0 world_step.queued [OF wf]] world_step.queued [OF wf]])
  obtain data h bs where b: "build_item (\<lambda>_. 0) (snd cp) heap_empty = Inr (data, h)"
      "wire_bytes (snd cp) = Inr bs" "hp_cells h data = Some bs"
    using build_item_ok [OF heap_empty_wf wf, of "\<lambda>_. 0"] by auto
  let ?s3 = "?s2\<lparr>ss_queue := \<lparr> mQueue = [cp] \<rparr>, ss_popped := ss_popped ?s2 @ [cp], ss_heap := h, ss_at := Built data cp\<rparr>"
  have p3: "server_step ?s2 ?s3"
    by (rule server_step.pop_build) (use b(1) ty in \<open>simp_all add: queue_pop_def queue_push_def\<close>)
  have ld: "heap_load data (unat (wire_size (snd cp))) (ss_heap ?s3) = Inr bs"
    using b(3) wire_bytes_length [OF b(2)] by (simp add: heap_load_ok)
  let ?s4 = "?s3\<lparr>ss_at := SendStarted data, ss_inflight := ss_inflight ?s3 @ [data],
      ss_sent := ss_sent ?s3 @ [(fst cp, bs)]\<rparr>"
  have p4: "server_step ?s3 ?s4" by (rule server_step.begin_send [OF _ ld]) simp
  have "reachable send_init (send_step noisy) ?s4"
    by (rule advance_server [OF advance_server [OF r2 p3] p4])
  then show ?thesis by (intro exI [of _ ?s4] exI [of _ data]) simp
qed

definition demo_cp :: ClientPacket where
  "demo_cp = (5, Packet_default\<lparr>pkt_type := 8\<rparr>)"

lemma demo_cp_ok: "packet_wf (snd demo_cp)" "pkt_type (snd demo_cp) \<noteq> type_val INVALID"
  by (simp_all add: demo_cp_def packet_wf_def Packet_default_def)

section \<open>Properties\<close>

text \<open>
  C15. What always holds of the sending thread, whatever the interleaving and however noisy the world:
  packets are taken in the order they were queued; the sends started are, in this order, the wire
  bytes of packets taken, each at most once; and the thread owns at most one array, which is live
  until it deletes it, so that it neither leaks nor deletes twice.
\<close>

theorem sends_in_order:
  assumes "reachable send_init (send_step noisy) s"
  shows "ss_pushed s = ss_popped s @ mQueue (ss_queue s)
    \<and> subseq (ss_sent s) (map bytes_of (ss_popped s))
    \<and> (case held (ss_at s) of
         None \<Rightarrow> hp_cells (ss_heap s) = ss_base s
       | Some data \<Rightarrow> (\<exists>m. hp_cells (ss_heap s) = (ss_base s)(data \<mapsto> m)) \<and> ss_base s data = None
           \<and> (\<exists>h. heap_delete data (ss_heap s) = Inr h \<and> hp_cells h = ss_base s))"
proof -
  have inv: "send_inv s" by (rule send.reachable_inv [OF assms])
  have "subseq (ss_sent s) (map bytes_of (ss_popped s))"
    using inv by (auto simp: send_inv_def subseq_snoc_skip split: sender.splits)
  moreover have "\<exists>h. heap_delete data (ss_heap s) = Inr h \<and> hp_cells h = ss_base s"
    if holds: "held (ss_at s) = Some data" for data
  proof -
    obtain m where m: "hp_cells (ss_heap s) = (ss_base s)(data \<mapsto> m)" "data \<noteq> 0" "heap_wf (ss_heap s)"
        "ss_base s data = None"
      using inv holds by (auto simp: send_inv_def)
    then show ?thesis using hp.release_ok [of "ss_heap s" data m] by (auto simp: fun_upd_idem)
  qed
  ultimately show ?thesis using inv by (auto simp: send_inv_def split: option.splits)
qed

theorem sends_in_order_witness:
  "\<exists>(s :: send_state) data. ss_at s = SendStarted data \<and> ss_pushed s = ss_popped s @ mQueue (ss_queue s)
    \<and> (\<exists>h. heap_delete data (ss_heap s) = Inr h)"
proof -
  obtain s data where s: "reachable send_init (send_step True) s" "ss_at s = SendStarted data"
    using run_to_send [OF demo_cp_ok, of True] by blast
  from sends_in_order [OF s(1)] show ?thesis
    using s(2) by (intro exI [of _ s] exI [of _ data]) auto
qed



text \<open>
  When it is not. With several clients a completed receive of any of them wakes the sending thread
  as well: there is a run in which it deletes the array while the system is still sending from it.
\<close>

theorem array_deleted_while_sending:
  "\<exists>s data. reachable send_init (send_step True) s \<and> data \<in> set (ss_inflight s)
     \<and> hp_cells (ss_heap s) data = None"
proof -
  obtain s data where s: "reachable send_init (send_step True) s" "ss_at s = SendStarted data"
      "ss_inflight s = [data]" "ss_port s = []" "ss_handled s = 0"
    using run_to_send [OF demo_cp_ok, of True] by blast
  let ?s1 = "s\<lparr>ss_at := Waiting data\<rparr>"
  let ?s2 = "?s1\<lparr>ss_port := ss_port ?s1 @ [ReadDone]\<rparr>"
  let ?s3 = "?s2\<lparr>ss_port := [], ss_handled := Suc (ss_handled ?s2)\<rparr>"
  let ?s4 = "?s3\<lparr>ss_handled := 0, ss_at := (case ss_at ?s3 of Waiting data \<Rightarrow> Woken data | p \<Rightarrow> p)\<rparr>"
  have p1: "server_step s ?s1" by (rule server_step.wait [OF s(2)])
  have p2: "world_step True ?s1 ?s2" by (rule world_step.read_finished) simp
  have p3: "server_step ?s2 ?s3" by (rule server_step.worker_takes [of _ ReadDone]) (simp add: s(4))
  have p4: "server_step ?s3 ?s4" by (rule server_step.worker_notifies) (simp add: s(5))
  have r4: "reachable send_init (send_step True) ?s4"
    by (rule advance_server [OF advance_server [OF advance_world [OF advance_server [OF s(1) p1] p2] p3] p4])
  then have inv: "send_inv ?s4" by (rule send.reachable_inv)
  obtain m where m: "hp_cells (ss_heap s) = (ss_base s)(data \<mapsto> m)" "data \<noteq> 0" "heap_wf (ss_heap s)"
    using inv by (auto simp: send_inv_def)
  obtain h where h: "heap_delete data (ss_heap s) = Inr h" "hp_cells h = (hp_cells (ss_heap s))(data := None)"
    using hp.release_ok [OF m(3), of data m] m(1,2) by auto
  have p5: "server_step ?s4 (?s4\<lparr>ss_heap := h, ss_at := AtPop\<rparr>)"
    by (rule server_step.delete [of _ data]) (simp_all add: h(1))
  have "reachable send_init (send_step True) (?s4\<lparr>ss_heap := h, ss_at := AtPop\<rparr>)"
    by (rule advance_server [OF r4 p5])
  then show ?thesis
    by (intro exI [of _ "?s4\<lparr>ss_heap := h, ss_at := AtPop\<rparr>"] exI [of _ data]) (simp add: s(3) h(2))
qed

text \<open>A thread that waits while nothing is under way stays where it is.\<close>

lemma waiting_stuck: "ss_at s = Waiting data \<Longrightarrow> under_way s = 0 \<Longrightarrow> \<not> server_step s t"
  by (rule notI, erule server_step.cases) (simp_all add: under_way_def)

lemma stuck_stays:
  assumes "(send_step False)\<^sup>*\<^sup>* s t" and "ss_at s = Waiting data" and "under_way s = 0"
  shows "ss_at t = Waiting data \<and> under_way t = 0 \<and> ss_sent t = ss_sent s"
  using assms
proof (induction rule: rtranclp_induct)
  case base
  then show ?case by simp
next
  case (step t u)
  then have t: "ss_at t = Waiting data" "under_way t = 0" "ss_sent t = ss_sent s" by simp_all
  have "ss_at u = ss_at t \<and> under_way u = 0 \<and> ss_sent u = ss_sent t"
  proof (cases "server_step t u")
    case True
    then show ?thesis using t(1,2)
      by (induction rule: server_step.induct) (auto simp: under_way_def)
  next
    case False
    then have "world_step False t u" using step(2) by (simp add: send_step_def)
    then show ?thesis using t(1,2)
      by (induction rule: world_step.induct) (auto simp: under_way_def)
  qed
  then show ?case using t by simp
qed


end
