(* ===== verification/ServerRuns.thy ===== *)
theory ServerRuns
  imports ServerManagers SendTasks
begin

text \<open>
  The running server: the workers and the sending thread of Server/ServerManager.cpp and the clients of
  Server/Client.cpp they share, in one step relation. A worker's pass and an item of \<open>sendTask\<close> are cut
  where another thread can come between: at the lock of the map, at each call on the client, at the
  notification, and where a shared pointer is released. Client objects live as long as the map or some
  thread has a pointer to them.
\<close>

section \<open>State\<close>

text \<open>
  A worker is at the completion port, has taken a completion and is about to look its key up, has found
  it and is about to fetch the pointer, holds the pointer, has run the received handler and is about to
  read again inside \<open>BeginIOEvent\<close>, is about to read again in \<open>workerThread\<close>, to notify, to remove the
  client, or to release the pointer.
\<close>

datatype worker_point =
    AtPort
  | Completed bool cint addr
  | Tested bool cint addr
  | Holding bool cint addr
  | Rearming addr
  | Again addr
  | Notifying addr
  | Removing addr
  | Releasing addr

text \<open>
  The sending thread is about to pop, has built the array, has locked the weak pointer, has started the
  send, waits, is woken, or is about to delete the array.
\<close>

datatype sender_point =
    NextItem
  | ItemBuilt addr ClientPacket
  | ItemLocked addr ClientPacket
  | ItemSent addr addr
  | ItemWaits addr addr
  | ItemWoken addr addr
  | ItemDone addr

record run_state =
  rs_objects :: "addr \<Rightarrow> Client option"     \<comment> \<open>the clients that are alive\<close>
  rs_sockets :: "addr set"                    \<comment> \<open>the keys of the map; each is mapped to its object\<close>
  rs_factory :: factory
  rs_world :: io_world
  rs_workers :: "worker_point list"
  rs_sender :: sender_point
  rs_recvs :: "addr \<Rightarrow> nat"                 \<comment> \<open>receives the system has not finished, by key\<close>
  rs_sends :: "(addr \<times> cint) list"           \<comment> \<open>sends the system has not finished: key and bytes\<close>
  rs_port :: "(bool \<times> cint \<times> addr) list"    \<comment> \<open>completions no worker has taken\<close>
  rs_fault :: "fault option"                   \<comment> \<open>what ended the process\<close>

fun worker_holds :: "worker_point \<Rightarrow> addr option" where
  "worker_holds (Holding ok n key) = Some key"
| "worker_holds (Rearming key) = Some key"
| "worker_holds (Again key) = Some key"
| "worker_holds (Notifying key) = Some key"
| "worker_holds (Removing key) = Some key"
| "worker_holds (Releasing key) = Some key"
| "worker_holds AtPort = None"
| "worker_holds (Completed ok n key) = None"
| "worker_holds (Tested ok n key) = None"

fun sender_holds :: "sender_point \<Rightarrow> addr option" where
  "sender_holds (ItemLocked data cp) = Some (fst cp)"
| "sender_holds (ItemSent data key) = Some key"
| "sender_holds (ItemWaits data key) = Some key"
| "sender_holds (ItemWoken data key) = Some key"
| "sender_holds NextItem = None"
| "sender_holds (ItemBuilt data cp) = None"
| "sender_holds (ItemDone data) = None"

fun sender_data :: "sender_point \<Rightarrow> addr option" where
  "sender_data NextItem = None"
| "sender_data (ItemBuilt data cp) = Some data"
| "sender_data (ItemLocked data cp) = Some data"
| "sender_data (ItemSent data key) = Some data"
| "sender_data (ItemWaits data key) = Some data"
| "sender_data (ItemWoken data key) = Some data"
| "sender_data (ItemDone data) = Some data"

definition held_clients :: "run_state \<Rightarrow> addr set" where
  "held_clients s = {key. Some key \<in> worker_holds ` set (rs_workers s) \<or> sender_holds (rs_sender s) = Some key}"

definition at_point :: "run_state \<Rightarrow> nat \<Rightarrow> worker_point \<Rightarrow> bool" where
  "at_point s t p \<longleftrightarrow> t < length (rs_workers s) \<and> rs_workers s ! t = p"

definition go :: "nat \<Rightarrow> worker_point \<Rightarrow> run_state \<Rightarrow> run_state" where
  "go t p s = s\<lparr>rs_workers := (rs_workers s)[t := p]\<rparr>"

definition put_client :: "addr \<Rightarrow> Client \<Rightarrow> io_world \<Rightarrow> run_state \<Rightarrow> run_state" where
  "put_client key c w s = s\<lparr>rs_objects := (rs_objects s)(key \<mapsto> c), rs_world := w\<rparr>"

definition kill :: "fault \<Rightarrow> run_state \<Rightarrow> run_state" where
  "kill f s = s\<lparr>rs_fault := Some f\<rparr>"

text \<open>
  The clients a weak pointer names, in the queue or in the item the sending thread has built. The client
  and its counts are one allocation of \<open>make_shared\<close>, which stays until the last weak pointer has gone.
\<close>

definition weak_clients :: "run_state \<Rightarrow> addr set" where
  "weak_clients s = fst ` set (mQueue (iw_queue (rs_world s)))
     \<union> (case rs_sender s of ItemBuilt data cp \<Rightarrow> {fst cp} | _ \<Rightarrow> {})"

text \<open>The end of a scope that held a pointer: the last pointer destroys the client.\<close>

definition release_client :: "addr \<Rightarrow> run_state \<Rightarrow> run_state res" where
  "release_client key s =
     (if key \<in> rs_sockets s \<or> key \<in> held_clients s then Inr s
      else (case rs_objects s key of
          None \<Rightarrow> Inl UseAfterFree
        | Some c \<Rightarrow>
            res_bind (Client_destroy c (iw_heap (rs_world s))) (\<lambda>h.
            Inr (s\<lparr>rs_objects := (rs_objects s)(key := None), rs_world := (rs_world s)\<lparr>iw_heap := h\<rparr>\<rparr>))))"

text \<open>The manager as the other theory has it: its map and what the clients share.\<close>

definition manager_of :: "run_state \<Rightarrow> ServerManager" where
  "manager_of s = \<lparr> mServerSocket = \<lparr> mPort = server_port, mAddress = [], mSocketFileDesc = 0 \<rparr>, mIsRunning = True,
     mSockets = (\<lambda>k. if k \<in> rs_sockets s then rs_objects s k else None), mClientFactory = Some (rs_factory s),
     sm_world = rs_world s, sm_tasks = [], sm_notified = 0, sm_accepted = 0, sm_completed = 0 \<rparr>"

section \<open>Steps\<close>

text \<open>One step of the worker \<open>t\<close>.\<close>

inductive worker_moves :: "request_env \<Rightarrow> nat \<Rightarrow> run_state \<Rightarrow> run_state \<Rightarrow> bool" for env t where
  take: "at_point s t AtPort \<Longrightarrow> rs_port s = (ok, n, key) # rest \<Longrightarrow>
    worker_moves env t s (go t (Completed ok n key) (s\<lparr>rs_port := rest\<rparr>))"
| test: "at_point s t (Completed ok n key) \<Longrightarrow>
    worker_moves env t s (go t (if key \<noteq> 0 \<and> key \<in> rs_sockets s then Tested ok n key else AtPort) s)"
| fetch: "at_point s t (Tested ok n key) \<Longrightarrow> key \<in> rs_sockets s \<Longrightarrow>
    worker_moves env t s (go t (Holding ok n key) s)"
| fetch_missing: "at_point s t (Tested ok n key) \<Longrightarrow> key \<notin> rs_sockets s \<Longrightarrow>
    worker_moves env t s (kill Terminate s)"
| closed: "at_point s t (Holding ok n key) \<Longrightarrow> \<not> ok \<or> n = 0 \<Longrightarrow> worker_moves env t s (go t (Removing key) s)"
| read_done: "at_point s t (Holding ok n key) \<Longrightarrow> ok \<Longrightarrow> n \<noteq> 0 \<Longrightarrow> rs_objects s key = Some c \<Longrightarrow>
    cl_state c = READ_STATE \<Longrightarrow> CompleteRead env junk (ucast n) c (rs_world s) = Some (Inr (c1, w1)) \<Longrightarrow>
    worker_moves env t s (go t (Rearming key) (put_client key c1 w1 s))"
| read_fault: "at_point s t (Holding ok n key) \<Longrightarrow> ok \<Longrightarrow> n \<noteq> 0 \<Longrightarrow> rs_objects s key = Some c \<Longrightarrow>
    cl_state c = READ_STATE \<Longrightarrow> CompleteRead env junk (ucast n) c (rs_world s) = Some (Inl f) \<Longrightarrow>
    worker_moves env t s (if f = RuntimeError then go t (Removing key) s else kill f s)"
| send_done: "at_point s t (Holding ok n key) \<Longrightarrow> ok \<Longrightarrow> n \<noteq> 0 \<Longrightarrow> rs_objects s key = Some c \<Longrightarrow>
    cl_state c = SEND_STATE \<Longrightarrow> CompleteSend junk c (rs_world s) = Inr (c1, w1) \<Longrightarrow>
    worker_moves env t s (go t (Again key) (put_client key c1 w1 s))"
| send_fault: "at_point s t (Holding ok n key) \<Longrightarrow> ok \<Longrightarrow> n \<noteq> 0 \<Longrightarrow> rs_objects s key = Some c \<Longrightarrow>
    cl_state c = SEND_STATE \<Longrightarrow> CompleteSend junk c (rs_world s) = Inl f \<Longrightarrow>
    worker_moves env t s (if f = RuntimeError then go t (Removing key) s else kill f s)"
| other_done: "at_point s t (Holding ok n key) \<Longrightarrow> ok \<Longrightarrow> n \<noteq> 0 \<Longrightarrow> rs_objects s key = Some c \<Longrightarrow>
    cl_state c \<noteq> READ_STATE \<Longrightarrow> cl_state c \<noteq> SEND_STATE \<Longrightarrow> worker_moves env t s (go t (Again key) s)"
| rearm: "at_point s t (Rearming key) \<Longrightarrow> rs_objects s key = Some c \<Longrightarrow>
    BeginRead status c (rs_world s) = Inr (c1, w1) \<Longrightarrow>
    worker_moves env t s (go t (Again key)
      (put_client key c1 w1 (s\<lparr>rs_recvs := (rs_recvs s)(key := Suc (rs_recvs s key))\<rparr>)))"
| again: "at_point s t (Again key) \<Longrightarrow> rs_objects s key = Some c \<Longrightarrow>
    BeginRead status c (rs_world s) = Inr (c1, w1) \<Longrightarrow>
    worker_moves env t s (go t (Notifying key)
      (put_client key c1 w1 (s\<lparr>rs_recvs := (rs_recvs s)(key := Suc (rs_recvs s key))\<rparr>)))"
| trap: "at_point s t (Rearming key) \<or> at_point s t (Again key) \<Longrightarrow> rs_objects s key = Some c \<Longrightarrow>
    BeginRead status c (rs_world s) = Inl f \<Longrightarrow> worker_moves env t s (kill f s)"
| notify: "at_point s t (Notifying key) \<Longrightarrow>
    worker_moves env t s (go t (Releasing key) (s\<lparr>rs_sender :=
      (case rs_sender s of ItemWaits data k \<Rightarrow> ItemWoken data k | p \<Rightarrow> p)\<rparr>))"
| remove: "at_point s t (Removing key) \<Longrightarrow>
    worker_moves env t s (go t (Releasing key) (s\<lparr>rs_sockets := rs_sockets s - {key}\<rparr>))"
| release: "at_point s t (Releasing key) \<Longrightarrow> release_client key (go t AtPort s) = Inr s' \<Longrightarrow>
    worker_moves env t s s'"

text \<open>One step of the sending thread.\<close>

inductive sender_moves :: "run_state \<Rightarrow> run_state \<Rightarrow> bool" where
  skip: "rs_sender s = NextItem \<Longrightarrow> queue_pop (iw_queue (rs_world s)) = Some (cp, rest) \<Longrightarrow>
    pkt_type (snd cp) = type_val INVALID \<Longrightarrow>
    sender_moves s (s\<lparr>rs_world := (rs_world s)\<lparr>iw_queue := rest\<rparr>\<rparr>)"
| build: "rs_sender s = NextItem \<Longrightarrow> queue_pop (iw_queue (rs_world s)) = Some (cp, rest) \<Longrightarrow>
    pkt_type (snd cp) \<noteq> type_val INVALID \<Longrightarrow> build_item junk (snd cp) (iw_heap (rs_world s)) = Inr (data, h) \<Longrightarrow>
    sender_moves s (s\<lparr>rs_world := (rs_world s)\<lparr>iw_heap := h, iw_queue := rest\<rparr>, rs_sender := ItemBuilt data cp\<rparr>)"
| lock: "rs_sender s = ItemBuilt data cp \<Longrightarrow> rs_objects s (fst cp) \<noteq> None \<Longrightarrow>
    sender_moves s (s\<lparr>rs_sender := ItemLocked data cp\<rparr>)"
| lock_expired: "rs_sender s = ItemBuilt data cp \<Longrightarrow> rs_objects s (fst cp) = None \<Longrightarrow>
    sender_moves s (s\<lparr>rs_sender := ItemDone data\<rparr>)"
| begin_send: "rs_sender s = ItemLocked data cp \<Longrightarrow> rs_objects s (fst cp) = Some c \<Longrightarrow>
    BeginSend status data (wire_size (snd cp)) c (rs_world s) = Inr (c1, w1) \<Longrightarrow>
    sender_moves s (put_client (fst cp) c1 w1 (s\<lparr>rs_sender := ItemSent data (fst cp),
      rs_sends := rs_sends s @ [(fst cp, wb_len (cl_send c1))]\<rparr>))"
| begin_send_trap: "rs_sender s = ItemLocked data cp \<Longrightarrow> rs_objects s (fst cp) = Some c \<Longrightarrow>
    BeginSend status data (wire_size (snd cp)) c (rs_world s) = Inl f \<Longrightarrow> sender_moves s (kill f s)"
| wait: "rs_sender s = ItemSent data key \<Longrightarrow> sender_moves s (s\<lparr>rs_sender := ItemWaits data key\<rparr>)"
| unlock: "rs_sender s = ItemWoken data key \<Longrightarrow> release_client key (s\<lparr>rs_sender := ItemDone data\<rparr>) = Inr s' \<Longrightarrow>
    sender_moves s s'"
| delete: "rs_sender s = ItemDone data \<Longrightarrow> heap_delete data (iw_heap (rs_world s)) = Inr h \<Longrightarrow>
    sender_moves s (s\<lparr>rs_world := (rs_world s)\<lparr>iw_heap := h\<rparr>, rs_sender := NextItem\<rparr>)"

text \<open>
  What the system does: a new connection, an accept that ends the process, the bytes of a message arriving in the buffer of a client, a
  receive or a send that finishes, and a spurious wake-up. Accepting is one step, since no completion has
  the key of a client before its first receive is started, the last thing \<open>acceptConnection\<close> does. Bytes
  do not arrive for a client that is gone: its connection has ended, and its receives end without any.
  The address of a new client may be that of one that is gone, if no weak pointer names it any more. The
  \<open>catch (...)\<close> of \<open>getConnections\<close> stops what is thrown, and the state stays as it is; a trap goes past it.
\<close>

inductive system_moves :: "run_state \<Rightarrow> run_state \<Rightarrow> bool" where
  accept: "key \<noteq> 0 \<Longrightarrow> rs_objects s key = None \<Longrightarrow> key \<notin> rs_sockets s \<Longrightarrow>
    acceptConnection key junk True status sock (manager_of s) = Inr m' \<Longrightarrow> key \<notin> weak_clients s \<Longrightarrow>
    system_moves s (s\<lparr>rs_objects := (rs_objects s)(key := mSockets m' key), rs_sockets := insert key (rs_sockets s),
      rs_world := sm_world m', rs_recvs := (rs_recvs s)(key := Suc (rs_recvs s key))\<rparr>)"
| accept_fault: "key \<noteq> 0 \<Longrightarrow> rs_objects s key = None \<Longrightarrow> key \<notin> rs_sockets s \<Longrightarrow>
    acceptConnection key junk True status sock (manager_of s) = Inl f \<Longrightarrow> \<not> std_exception f \<Longrightarrow> f \<noteq> ThrownCString \<Longrightarrow>
    system_moves s (kill f s)"
| arrived: "rs_objects s key = Some c \<Longrightarrow> 0 < rs_recvs s key \<Longrightarrow> length bytes = sizeof_Packet \<Longrightarrow>
    heap_store (mBuffer (cl_buffer c)) 0 bytes (iw_heap (rs_world s)) = Inr h \<Longrightarrow> 0 < n \<Longrightarrow>
    system_moves s (s\<lparr>rs_world := (rs_world s)\<lparr>iw_heap := h\<rparr>,
      rs_recvs := (rs_recvs s)(key := rs_recvs s key - 1), rs_port := rs_port s @ [(True, n, key)]\<rparr>)"
| disconnected: "0 < rs_recvs s key \<Longrightarrow>
    system_moves s (s\<lparr>rs_recvs := (rs_recvs s)(key := rs_recvs s key - 1), rs_port := rs_port s @ [(ok, 0, key)]\<rparr>)"
| sent: "rs_sends s = xs @ (key, n) # ys \<Longrightarrow>
    system_moves s (s\<lparr>rs_sends := xs @ ys, rs_port := rs_port s @ [(ok, n, key)]\<rparr>)"
| spurious: "rs_sender s = ItemWaits data key \<Longrightarrow> system_moves s (s\<lparr>rs_sender := ItemWoken data key\<rparr>)"

definition run_step :: "request_env \<Rightarrow> run_state \<Rightarrow> run_state \<Rightarrow> bool" where
  "run_step env s s' \<longleftrightarrow> rs_fault s = None \<and>
     ((\<exists>t. worker_moves env t s s') \<or> sender_moves s s' \<or> system_moves s s')"

definition run_init :: "run_state \<Rightarrow> bool" where
  "run_init s \<longleftrightarrow> heap_wf (iw_heap (rs_world s)) \<and> good_factory (rs_factory s) \<and> iw_queue (rs_world s) = \<lparr> mQueue = [] \<rparr>
     \<and> rs_objects s = Map.empty \<and> rs_sockets s = {} \<and> set (rs_workers s) \<subseteq> {AtPort} \<and> rs_sender s = NextItem
     \<and> rs_recvs s = (\<lambda>_. 0) \<and> rs_sends s = [] \<and> rs_port s = [] \<and> rs_fault s = None"

inductive_cases worker_movesE: "worker_moves env t s s'"
inductive_cases sender_movesE: "sender_moves s s'"
inductive_cases system_movesE: "system_moves s s'"

section \<open>Who holds what\<close>

lemma set_update_others: "\<exists>others. \<forall>p. t < length xs \<longrightarrow> set (xs[t := p]) = insert p others"
proof (intro exI allI impI)
  fix p assume "t < length xs"
  then show "set (xs[t := p]) = insert p ((\<lambda>i. xs ! i) ` ({..<length xs} - {t}))"
    by (auto simp: set_conv_nth nth_list_update image_iff)
qed

lemma held_go:
  assumes "at_point s t q"
  obtains others where "held_clients s = {k. worker_holds q = Some k} \<union> others"
    and "\<And>p. held_clients (go t p s) = {k. worker_holds p = Some k} \<union> others"
proof -
  have t: "t < length (rs_workers s)" "rs_workers s ! t = q" using assms by (simp_all add: at_point_def)
  obtain ws where ws: "\<And>p. set ((rs_workers s)[t := p]) = insert p ws"
    using set_update_others [of t "rs_workers s"] t(1) by blast
  have "set (rs_workers s) = insert q ws" using ws [of q] t by (metis list_update_id)
  then have set: "set (rs_workers s) = insert q ws" .
  let ?o = "{k. Some k \<in> worker_holds ` ws \<or> sender_holds (rs_sender s) = Some k}"
  have "held_clients s = {k. worker_holds q = Some k} \<union> ?o"
    unfolding held_clients_def set by (auto simp: eq_commute [of "Some _" "worker_holds q"])
  moreover have "held_clients (go t p s) = {k. worker_holds p = Some k} \<union> ?o" for p
    unfolding held_clients_def by (auto simp: go_def ws eq_commute [of "Some _" "worker_holds p"])
  ultimately show thesis by (rule that)
qed

lemma held_go_same: "at_point s t q \<Longrightarrow> worker_holds p = worker_holds q \<Longrightarrow> held_clients (go t p s) = held_clients s"
  by (metis held_go)

lemma held_go_take:
  "at_point s t q \<Longrightarrow> worker_holds q = None \<Longrightarrow> worker_holds p = Some k \<Longrightarrow>
     held_clients (go t p s) = insert k (held_clients s)"
  by (rule held_go [of s t q]) auto

lemma held_go_leave:
  "at_point s t q \<Longrightarrow> worker_holds q = Some k \<Longrightarrow> worker_holds p = None \<Longrightarrow>
     held_clients s = insert k (held_clients (go t p s))"
  by (rule held_go [of s t q]) auto

lemma holder_held: "at_point s t q \<Longrightarrow> worker_holds q = Some k \<Longrightarrow> k \<in> held_clients s"
  by (rule held_go [of s t q]) auto

lemma held_cong: "rs_workers s' = rs_workers s \<Longrightarrow> rs_sender s' = rs_sender s \<Longrightarrow> held_clients s' = held_clients s"
  by (simp add: held_clients_def)

lemma go_simps [simp]:
  "rs_objects (go t p s) = rs_objects s" "rs_sockets (go t p s) = rs_sockets s" "rs_world (go t p s) = rs_world s"
  "rs_sender (go t p s) = rs_sender s" "rs_factory (go t p s) = rs_factory s" "rs_recvs (go t p s) = rs_recvs s"
  "rs_sends (go t p s) = rs_sends s" "rs_port (go t p s) = rs_port s" "rs_fault (go t p s) = rs_fault s"
  "length (rs_workers (go t p s)) = length (rs_workers s)"
  by (simp_all add: go_def)

lemma put_client_simps [simp]:
  "rs_objects (put_client k c w s) = (rs_objects s)(k \<mapsto> c)" "rs_sockets (put_client k c w s) = rs_sockets s"
  "rs_world (put_client k c w s) = w" "rs_sender (put_client k c w s) = rs_sender s"
  "rs_factory (put_client k c w s) = rs_factory s" "rs_workers (put_client k c w s) = rs_workers s"
  "rs_recvs (put_client k c w s) = rs_recvs s" "rs_sends (put_client k c w s) = rs_sends s"
  "rs_port (put_client k c w s) = rs_port s" "rs_fault (put_client k c w s) = rs_fault s"
  by (simp_all add: put_client_def)

lemma held_put_client [simp]: "held_clients (put_client k c w s) = held_clients s"
  by (rule held_cong) simp_all

section \<open>The store the clients and the sending thread share\<close>

text \<open>
  Every client that is alive has a key, its own live buffer and the default sent handler; the array of
  the sending thread is live and nobody's buffer.
\<close>

definition store_inv :: "(addr \<Rightarrow> Client option) \<Rightarrow> io_world \<Rightarrow> addr option \<Rightarrow> bool" where
  "store_inv objs w d \<longleftrightarrow> heap_wf (iw_heap w)
     \<and> (\<forall>k c. objs k = Some c \<longrightarrow> k \<noteq> 0 \<and> client_ok c w \<and> cl_sent c = (\<lambda>_ w. Inr w))
     \<and> (\<forall>k k' c c'. objs k = Some c \<and> objs k' = Some c' \<and> mBuffer (cl_buffer c) = mBuffer (cl_buffer c') \<longrightarrow> k = k')
     \<and> (\<forall>data. d = Some data \<longrightarrow> data \<noteq> 0 \<and> hp_cells (iw_heap w) data \<noteq> None
          \<and> (\<forall>k c. objs k = Some c \<longrightarrow> mBuffer (cl_buffer c) \<noteq> data))"

lemma store_inv_client:
  "store_inv objs w d \<Longrightarrow> objs k = Some c \<Longrightarrow> client_ok c w"
  by (auto simp: store_inv_def)

lemma store_invI:
  assumes "heap_wf (iw_heap w)"
    and "\<And>k c. objs k = Some c \<Longrightarrow> k \<noteq> 0 \<and> client_ok c w \<and> cl_sent c = (\<lambda>_ w. Inr w)"
    and "\<And>k k' c c'. objs k = Some c \<Longrightarrow> objs k' = Some c' \<Longrightarrow> mBuffer (cl_buffer c) = mBuffer (cl_buffer c') \<Longrightarrow> k = k'"
    and "\<And>data. d = Some data \<Longrightarrow> data \<noteq> 0 \<and> hp_cells (iw_heap w) data \<noteq> None
          \<and> (\<forall>k c. objs k = Some c \<longrightarrow> mBuffer (cl_buffer c) \<noteq> data)"
  shows "store_inv objs w d"
  unfolding store_inv_def using assms by blast

lemma store_invD:
  assumes "store_inv objs w d"
  shows "heap_wf (iw_heap w)"
    and "objs k = Some c \<Longrightarrow> k \<noteq> 0 \<and> client_ok c w \<and> cl_sent c = (\<lambda>_ w. Inr w)"
    and "objs k = Some c \<Longrightarrow> objs k' = Some c' \<Longrightarrow> mBuffer (cl_buffer c) = mBuffer (cl_buffer c') \<Longrightarrow> k = k'"
    and "d = Some data \<Longrightarrow> data \<noteq> 0 \<and> hp_cells (iw_heap w) data \<noteq> None
          \<and> (\<forall>k c. objs k = Some c \<longrightarrow> mBuffer (cl_buffer c) \<noteq> data)"
  using assms unfolding store_inv_def by blast+

lemma store_inv_cells:
  assumes inv: "store_inv objs w d" and wf: "heap_wf (iw_heap w')" and cells: "hp_cells (iw_heap w') = hp_cells (iw_heap w)"
  shows "store_inv objs w' d"
proof (rule store_invI)
  fix k c assume "objs k = Some c"
  then show "k \<noteq> 0 \<and> client_ok c w' \<and> cl_sent c = (\<lambda>_ w. Inr w)"
    using store_invD(2) [OF inv] client_ok_cells [OF _ wf cells] by blast
next
  fix data assume "d = Some data"
  then show "data \<noteq> 0 \<and> hp_cells (iw_heap w') data \<noteq> None \<and> (\<forall>k c. objs k = Some c \<longrightarrow> mBuffer (cl_buffer c) \<noteq> data)"
    using store_invD(4) [OF inv] unfolding cells by blast
qed (fact wf, rule store_invD(3) [OF inv])

lemma store_inv_put:
  assumes inv: "store_inv objs w d" and k: "objs k = Some c" and c1: "client_ok c1 w1" "cl_sent c1 = cl_sent c"
    "cl_buffer c1 = cl_buffer c" and cells: "hp_cells (iw_heap w1) = hp_cells (iw_heap w)"
  shows "store_inv (objs(k \<mapsto> c1)) w1 d"
proof -
  have wf: "heap_wf (iw_heap w1)" using c1(1) by (simp add: client_ok_def)
  note i = store_inv_cells [OF inv wf cells]
  have old: "\<exists>y. objs a = Some y \<and> cl_buffer y = cl_buffer x \<and> cl_sent y = cl_sent x" if "(objs(k \<mapsto> c1)) a = Some x" for a x
    using that k c1 by (cases "a = k") auto
  show ?thesis
  proof (rule store_invI)
    fix a x assume x: "(objs(k \<mapsto> c1)) a = Some x"
    have "client_ok x w1" using x c1(1) store_invD(2) [OF i] by (cases "a = k") auto
    then show "a \<noteq> 0 \<and> client_ok x w1 \<and> cl_sent x = (\<lambda>_ w. Inr w)"
      using old [OF x] store_invD(2) [OF inv] by metis
  next
    fix a b x y
    assume "(objs(k \<mapsto> c1)) a = Some x" "(objs(k \<mapsto> c1)) b = Some y" "mBuffer (cl_buffer x) = mBuffer (cl_buffer y)"
    then show "a = b" using old store_invD(3) [OF inv] by metis
  next
    fix data assume "d = Some data"
    then show "data \<noteq> 0 \<and> hp_cells (iw_heap w1) data \<noteq> None
        \<and> (\<forall>a x. (objs(k \<mapsto> c1)) a = Some x \<longrightarrow> mBuffer (cl_buffer x) \<noteq> data)"
      using store_invD(4) [OF i] old by metis
  qed (fact wf)
qed

lemma store_inv_drop:
  assumes inv: "store_inv objs w d" and c: "objs k = Some c" and h: "Client_destroy c (iw_heap w) = Inr h"
  shows "store_inv (objs(k := None)) (w\<lparr>iw_heap := h\<rparr>) d"
proof -
  have h': "heap_wf h" "hp_cells h = (hp_cells (iw_heap w))(mBuffer (cl_buffer c) := None)"
    using client_destroy_ok [OF store_inv_client [OF inv c]] h by auto
  have each: "client_ok x (w\<lparr>iw_heap := h\<rparr>)" if x: "objs a = Some x" "a \<noteq> k" for a x
  proof -
    have ok: "client_ok x w" using store_inv_client [OF inv x(1)] .
    have "mBuffer (cl_buffer x) \<noteq> mBuffer (cl_buffer c)" using inv x c unfolding store_inv_def by metis
    moreover obtain m where "hp_cells (iw_heap w) (mBuffer (cl_buffer x)) = Some m" "length m = sizeof_Packet"
      using client_ok_block [OF ok] by metis
    ultimately show ?thesis by (intro client_ok_frame [OF ok]) (use h' in auto)
  qed
  have inj: "a = b" if "objs a = Some x" "objs b = Some y" "mBuffer (cl_buffer x) = mBuffer (cl_buffer y)" for a b x y
    using inv that unfolding store_inv_def by blast
  have "data \<noteq> 0 \<and> hp_cells h data \<noteq> None \<and> (\<forall>a x. objs a = Some x \<longrightarrow> mBuffer (cl_buffer x) \<noteq> data)" if "d = Some data" for data
    using inv that c h'(2) by (auto simp: store_inv_def)
  then show ?thesis
    using h'(1) each inv inj by (auto simp: store_inv_def)
qed

lemma store_inv_new_data:
  assumes inv: "store_inv objs w d" and new: "build_item junk item (iw_heap w) = Inr (data, h)"
  shows "store_inv objs (w\<lparr>iw_heap := h, iw_queue := q\<rparr>) (Some data)"
proof -
  have wf: "heap_wf (iw_heap w)" using inv by (simp add: store_inv_def)
  obtain a h1 where a: "heap_new (unat (wire_size item)) junk (iw_heap w) = (a, h1)" by fastforce
  note f = hp.alloc_fresh [OF wf a] hp.alloc_blocks [OF wf a]
  obtain bs where bs: "data = a" "heap_store a 0 bs h1 = Inr h"
    using new a by (auto simp: build_item_def Let_def res_bind_Inr_iff)
  obtain m' where h: "heap_wf h" "hp_cells h = (hp_cells (iw_heap w))(a \<mapsto> m')"
    using bs(2) f heap_wf_update [of h1 a] by (auto simp: heap_store_def res_bind_Inr_iff)
  have other: "mBuffer (cl_buffer x) \<noteq> a \<and> client_ok x (w\<lparr>iw_heap := h, iw_queue := q\<rparr>)" if x: "objs k = Some x" for k x
  proof -
    have ok: "client_ok x w" using store_inv_client [OF inv x] .
    obtain m where m: "hp_cells (iw_heap w) (mBuffer (cl_buffer x)) = Some m" "length m = sizeof_Packet"
      using client_ok_block [OF ok] by metis
    then have "mBuffer (cl_buffer x) \<noteq> a" using f by auto
    then show ?thesis using client_ok_frame [OF ok, of "w\<lparr>iw_heap := h, iw_queue := q\<rparr>" m] h m by simp
  qed
  show ?thesis using inv f h bs(1) other by (auto simp: store_inv_def)
qed

lemma store_inv_delete:
  assumes inv: "store_inv objs w (Some data)" and del: "heap_delete data (iw_heap w) = Inr h"
  shows "store_inv objs (w\<lparr>iw_heap := h\<rparr>) None"
proof -
  obtain m where m: "hp_cells (iw_heap w) data = Some m" "data \<noteq> 0" "heap_wf (iw_heap w)"
    using inv by (auto simp: store_inv_def)
  have h: "heap_wf h" "hp_cells h = (hp_cells (iw_heap w))(data := None)"
    using hp.release_ok [OF m(3,1,2)] del by auto
  have each: "client_ok x (w\<lparr>iw_heap := h\<rparr>)" if x: "objs k = Some x" for k x
  proof -
    have ok: "client_ok x w" using store_inv_client [OF inv x] .
    obtain b where b: "hp_cells (iw_heap w) (mBuffer (cl_buffer x)) = Some b" "length b = sizeof_Packet"
      using client_ok_block [OF ok] by metis
    moreover have "mBuffer (cl_buffer x) \<noteq> data" using store_invD(4) [OF inv refl] x by blast
    ultimately show ?thesis using client_ok_frame [OF ok, of "w\<lparr>iw_heap := h\<rparr>" b] h by simp
  qed
  show ?thesis
  proof (rule store_invI)
    fix k x assume "objs k = Some x"
    then show "k \<noteq> 0 \<and> client_ok x (w\<lparr>iw_heap := h\<rparr>) \<and> cl_sent x = (\<lambda>_ w. Inr w)"
      using each store_invD(2) [OF inv] by blast
  qed (use h store_invD(3) [OF inv] in auto)
qed

lemma store_inv_arrived:
  assumes inv: "store_inv objs w d" and c: "objs k = Some c" and len: "length bytes = sizeof_Packet"
    and st: "heap_store (mBuffer (cl_buffer c)) 0 bytes (iw_heap w) = Inr h"
  shows "store_inv objs (w\<lparr>iw_heap := h\<rparr>) d"
proof -
  have wf: "heap_wf (iw_heap w)" using inv by (simp add: store_inv_def)
  obtain b where b: "hp_cells (iw_heap w) (mBuffer (cl_buffer c)) = Some b" "length b = sizeof_Packet"
    using client_ok_block [OF store_inv_client [OF inv c]] by metis
  have h: "heap_wf h" "hp_cells h = (hp_cells (iw_heap w))(mBuffer (cl_buffer c) \<mapsto> bytes)"
    using hp.put_ok [OF wf b(1), of 0 bytes] st b(2) len by auto
  have each: "client_ok x (w\<lparr>iw_heap := h\<rparr>)" if x: "objs a = Some x" for a x
  proof -
    have ok: "client_ok x w" using store_inv_client [OF inv x] .
    obtain m where "hp_cells (iw_heap w) (mBuffer (cl_buffer x)) = Some m" "length m = sizeof_Packet"
      using client_ok_block [OF ok] by metis
    then have "\<exists>m. hp_cells h (mBuffer (cl_buffer x)) = Some m \<and> length m = sizeof_Packet" using h(2) len by auto
    then show ?thesis using client_ok_frame [OF ok, of "w\<lparr>iw_heap := h\<rparr>"] h(1) by auto
  qed
  show ?thesis
  proof (rule store_invI)
    fix k x assume "objs k = Some x"
    then show "k \<noteq> 0 \<and> client_ok x (w\<lparr>iw_heap := h\<rparr>) \<and> cl_sent x = (\<lambda>_ w. Inr w)"
      using each store_invD(2) [OF inv] by blast
  next
    fix data assume "d = Some data"
    then show "data \<noteq> 0 \<and> hp_cells (iw_heap (w\<lparr>iw_heap := h\<rparr>)) data \<noteq> None
        \<and> (\<forall>k x. objs k = Some x \<longrightarrow> mBuffer (cl_buffer x) \<noteq> data)"
      using store_invD(4) [OF inv] h(2) by auto
  qed (use h(1) store_invD(3) [OF inv] in auto)
qed

text \<open>A send completion copies the array and releases the copy, whatever it reads.\<close>

lemma Buffer_from_effect:
  assumes wf: "heap_wf h" and run: "Buffer_from a n junk h = Inr (b, h')"
  shows "heap_wf h' \<and> mBuffer b \<noteq> 0 \<and> hp_cells h (mBuffer b) = None
    \<and> (\<exists>m. hp_cells h' = (hp_cells h)(mBuffer b \<mapsto> m))"
proof -
  obtain c h1 where new: "heap_new n junk h = (c, h1)" by fastforce
  note f = hp.alloc_fresh [OF wf new] hp.alloc_blocks [OF wf new]
  obtain bs where bs: "heap_store c 0 bs h1 = Inr h'" "b = \<lparr> mBuffer = c, mBufferSize = n \<rparr>"
    using run new by (auto simp: Buffer_from_def res_bind_Inr_iff)
  then show ?thesis using f heap_wf_update [of h1 c] by (auto simp: heap_store_def res_bind_Inr_iff)
qed

lemma CompleteSend_effect:
  assumes wf: "heap_wf (iw_heap w)" and default: "cl_sent c = (\<lambda>_ w. Inr w)"
    and run: "CompleteSend junk c w = Inr (c1, w1)"
  shows "c1 = c \<and> (\<exists>h. w1 = w\<lparr>iw_heap := h\<rparr> \<and> heap_wf h \<and> hp_cells h = hp_cells (iw_heap w))"
proof -
  obtain b h1 h3 where b: "Buffer_from (wb_buf (cl_send c)) (unat (wb_len (cl_send c))) junk (iw_heap w) = Inr (b, h1)"
      "Buffer_destroy b h1 = Inr h3" "c1 = c" "w1 = w\<lparr>iw_heap := h3\<rparr>"
    using run default by (auto simp: CompleteSend_def res_bind_Inr_iff)
  obtain m where m: "heap_wf h1" "mBuffer b \<noteq> 0" "hp_cells (iw_heap w) (mBuffer b) = None"
      "hp_cells h1 = (hp_cells (iw_heap w))(mBuffer b \<mapsto> m)"
    using Buffer_from_effect [OF wf b(1)] by blast
  have "heap_wf h3" "hp_cells h3 = hp_cells (iw_heap w)"
    using hp.release_ok [OF m(1), of "mBuffer b" m] b(2) m by (auto simp: Buffer_destroy_def fun_upd_idem)
  then show ?thesis using b by blast
qed

text \<open>A new client.\<close>

lemma store_inv_accept:
  assumes inv: "store_inv objs w d" and wf: "heap_wf (iw_heap w')" and new: "objs key = None" "key \<noteq> 0"
    and c: "client_ok c w'" "cl_sent c = (\<lambda>_ w. Inr w)" "hp_cells (iw_heap w) (mBuffer (cl_buffer c)) = None"
    and mono: "hp_cells (iw_heap w) \<subseteq>\<^sub>m hp_cells (iw_heap w')"
  shows "store_inv (objs(key \<mapsto> c)) w' d"
proof -
  have old: "client_ok x w' \<and> mBuffer (cl_buffer x) \<noteq> mBuffer (cl_buffer c)" if "objs a = Some x" for a x
    using client_kept [OF store_inv_client [OF inv that] wf mono c(3)] .
  have cases: "a = key \<and> x = c \<or> a \<noteq> key \<and> objs a = Some x" if "(objs(key \<mapsto> c)) a = Some x" for a x
    using that by (auto split: if_splits)
  show ?thesis
  proof (rule store_invI)
    fix a x assume "(objs(key \<mapsto> c)) a = Some x"
    then show "a \<noteq> 0 \<and> client_ok x w' \<and> cl_sent x = (\<lambda>_ w. Inr w)"
      using cases old c new store_invD(2) [OF inv] by metis
  next
    fix a b x y
    assume "(objs(key \<mapsto> c)) a = Some x" "(objs(key \<mapsto> c)) b = Some y" "mBuffer (cl_buffer x) = mBuffer (cl_buffer y)"
    then show "a = b" using cases old store_invD(3) [OF inv] by metis
  next
    fix data assume d: "d = Some data"
    have "hp_cells (iw_heap w') data \<noteq> None" using store_invD(4) [OF inv d] mono by (metis domIff map_le_def)
    moreover have "mBuffer (cl_buffer x) \<noteq> data" if "(objs(key \<mapsto> c)) a = Some x" for a x
      using cases [OF that] store_invD(4) [OF inv d] c(3) by metis
    ultimately show "data \<noteq> 0 \<and> hp_cells (iw_heap w') data \<noteq> None
        \<and> (\<forall>a x. (objs(key \<mapsto> c)) a = Some x \<longrightarrow> mBuffer (cl_buffer x) \<noteq> data)"
      using store_invD(4) [OF inv d] by blast
  qed (fact wf)
qed

end
