(* ===== verification/ServerSafety.thy ===== *)
theory ServerSafety
  imports ServerRuns
begin

text \<open>
  What always holds of the running server: every client a thread has a pointer to is alive and
  well-formed, clients die exactly when the last pointer goes, and a thread that is inside a pass can
  always take its next step.
\<close>

section \<open>The invariant\<close>

definition run_inv :: "run_state \<Rightarrow> bool" where
  "run_inv s \<longleftrightarrow> store_inv (rs_objects s) (rs_world s) (sender_data (rs_sender s)) \<and> good_factory (rs_factory s)
     \<and> dom (rs_objects s) = rs_sockets s \<union> held_clients s"

lemma run_inv_kill [simp]: "run_inv (kill f s) = run_inv s"
  by (simp add: run_inv_def kill_def held_clients_def)

text \<open>A step of a worker that keeps the pointer it has.\<close>

lemma run_inv_go:
  assumes "run_inv s" and "at_point s t q" and "worker_holds p = worker_holds q"
  shows "run_inv (go t p s)"
  using assms held_go_same [OF assms(2,3)] by (simp add: run_inv_def)

lemma run_inv_put:
  assumes inv: "run_inv s" and k: "rs_objects s key = Some c" and c1: "client_ok c1 w1" "cl_sent c1 = cl_sent c"
    "cl_buffer c1 = cl_buffer c" and cells: "hp_cells (iw_heap w1) = hp_cells (iw_heap (rs_world s))"
  shows "run_inv (put_client key c1 w1 s)"
  using inv store_inv_put [where objs = "rs_objects s", OF _ k c1 cells] k by (auto simp: run_inv_def)

lemma run_inv_wf: "run_inv s \<Longrightarrow> heap_wf (iw_heap (rs_world s))"
  unfolding run_inv_def by (blast dest: store_invD(1))

lemma client_ok_same:
  assumes "client_ok c w" and "iw_heap w' = iw_heap w" and "cl_buffer c' = cl_buffer c" and "cl_recv c' = cl_recv c"
    and "cl_received c' = cl_received c"
  shows "client_ok c' w'"
  using assms good_handler_frame [where h = "iw_heap w" and h' = "iw_heap w" and q = "iw_queue w" and q' = "iw_queue w'"]
  unfolding client_ok_def by simp

lemma run_inv_recvs [simp]: "run_inv (s\<lparr>rs_recvs := r\<rparr>) = run_inv s" "run_inv (s\<lparr>rs_port := p\<rparr>) = run_inv s"
  "run_inv (s\<lparr>rs_sends := x\<rparr>) = run_inv s"
  by (simp_all add: run_inv_def held_clients_def)

lemma at_point_recvs [simp]:
  "at_point (s\<lparr>rs_recvs := r\<rparr>) t q = at_point s t q" "at_point (s\<lparr>rs_port := p\<rparr>) t q = at_point s t q"
  "at_point (put_client k c w s) t q = at_point s t q" "at_point (s\<lparr>rs_sender := x\<rparr>) t q = at_point s t q"
  "at_point (s\<lparr>rs_sockets := ks\<rparr>) t q = at_point s t q"
  by (simp_all add: at_point_def)

lemma run_inv_client: "run_inv s \<Longrightarrow> rs_objects s key = Some c \<Longrightarrow> client_ok c (rs_world s)"
  by (auto simp: run_inv_def intro: store_inv_client)

lemma run_inv_holder:
  assumes "run_inv s" and "key \<in> rs_sockets s \<or> key \<in> held_clients s"
  obtains c where "rs_objects s key = Some c" and "client_ok c (rs_world s)"
proof -
  have "key \<in> dom (rs_objects s)" using assms by (auto simp: run_inv_def)
  then show thesis using that run_inv_client [OF assms(1)] by blast
qed

lemma BeginRead_put:
  assumes inv: "run_inv s" and k: "rs_objects s key = Some c" and r: "BeginRead status c (rs_world s) = Inr (c1, w1)"
  shows "run_inv (put_client key c1 w1 (s\<lparr>rs_recvs := x\<rparr>))"
proof -
  have c: "c1 = c\<lparr>cl_state := READ_STATE\<rparr>" "iw_heap w1 = iw_heap (rs_world s)"
    using r by (auto simp: BeginRead_def Let_def split: if_splits)
  have "client_ok c1 w1" by (rule client_ok_same [OF run_inv_client [OF inv k]]) (use c in simp_all)
  then show ?thesis using run_inv_put [of "s\<lparr>rs_recvs := x\<rparr>" key c c1 w1] inv k c by simp
qed

lemma BeginSend_put:
  assumes inv: "run_inv s" and k: "rs_objects s key = Some c" and r: "BeginSend status data n c (rs_world s) = Inr (c1, w1)"
  shows "run_inv (put_client key c1 w1 s)"
proof -
  have c: "c1 = c\<lparr>cl_send := cl_send c1, cl_state := SEND_STATE\<rparr>" "iw_heap w1 = iw_heap (rs_world s)"
    using r by (auto simp: BeginSend_def Let_def split: if_splits)
  have f: "cl_buffer c1 = cl_buffer c" "cl_sent c1 = cl_sent c" "cl_recv c1 = cl_recv c" "cl_received c1 = cl_received c"
    by (subst c(1), simp)+
  have "client_ok c1 w1" by (rule client_ok_same [OF run_inv_client [OF inv k]]) (use c(2) f in simp_all)
  then show ?thesis using run_inv_put [OF inv k] f c(2) by simp
qed

lemma CompleteRead_put:
  assumes inv: "run_inv s" and k: "rs_objects s key = Some c"
    and r: "CompleteRead env junk n c (rs_world s) = Some (Inr (c1, w1))"
  shows "run_inv (put_client key c1 w1 s)"
proof -
  have "client_ok c1 w1 \<and> hp_cells (iw_heap w1) = hp_cells (iw_heap (rs_world s)) \<and> (\<exists>rcv. c1 = c\<lparr>cl_received := rcv\<rparr>)"
    using CompleteRead_spec [OF run_inv_client [OF inv k], of env junk n] r by auto
  then show ?thesis using run_inv_put [OF inv k] by auto
qed

lemma CompleteSend_put:
  assumes inv: "run_inv s" and k: "rs_objects s key = Some c" and r: "CompleteSend junk c (rs_world s) = Inr (c1, w1)"
  shows "run_inv (put_client key c1 w1 s)"
proof -
  have wf: "heap_wf (iw_heap (rs_world s))" "cl_sent c = (\<lambda>_ w. Inr w)"
    using inv k store_invD [of "rs_objects s"] unfolding run_inv_def by blast+
  obtain h where h: "c1 = c" "w1 = (rs_world s)\<lparr>iw_heap := h\<rparr>" "heap_wf h" "hp_cells h = hp_cells (iw_heap (rs_world s))"
    using CompleteSend_effect [OF wf r] by blast
  have "client_ok c w1" using client_ok_cells [OF run_inv_client [OF inv k], of w1] h by simp
  then show ?thesis using run_inv_put [OF inv k] h by simp
qed

text \<open>Releasing a pointer that keeps at most this client alive.\<close>

lemma release_spec:
  assumes st: "store_inv (rs_objects s) (rs_world s) (sender_data (rs_sender s))" and f: "good_factory (rs_factory s)"
    and dom: "dom (rs_objects s) = rs_sockets s \<union> insert key (held_clients s)"
  shows "\<exists>s'. release_client key s = Inr s' \<and> run_inv s'"
proof (cases "key \<in> rs_sockets s \<or> key \<in> held_clients s")
  case True
  then have "release_client key s = Inr s" "dom (rs_objects s) = rs_sockets s \<union> held_clients s"
    using dom by (auto simp: release_client_def)
  then show ?thesis using st f by (auto simp: run_inv_def)
next
  case False
  obtain c where c: "rs_objects s key = Some c" using dom by blast
  obtain h where h: "Client_destroy c (iw_heap (rs_world s)) = Inr h"
    using client_destroy_ok [OF store_inv_client [OF st c]] by blast
  let ?s = "s\<lparr>rs_objects := (rs_objects s)(key := None), rs_world := (rs_world s)\<lparr>iw_heap := h\<rparr>\<rparr>"
  have "release_client key s = Inr ?s" using False c h by (simp add: release_client_def)
  moreover have "dom (rs_objects ?s) = rs_sockets ?s \<union> held_clients ?s"
    using dom False held_cong [of ?s s] by auto
  ultimately show ?thesis using store_inv_drop [OF st c h] f by (auto simp: run_inv_def)
qed

lemma release_worker:
  assumes inv: "run_inv s" and at: "at_point s t (Releasing key)"
  shows "\<exists>s'. release_client key (go t AtPort s) = Inr s' \<and> run_inv s'"
proof -
  have "held_clients s = insert key (held_clients (go t AtPort s))" by (rule held_go_leave [OF at]) simp_all
  then show ?thesis using release_spec [of "go t AtPort s" key] inv by (simp add: run_inv_def)
qed

lemma release_sender:
  assumes inv: "run_inv s" and at: "rs_sender s = ItemWoken data key"
  shows "\<exists>s'. release_client key (s\<lparr>rs_sender := ItemDone data\<rparr>) = Inr s' \<and> run_inv s'"
proof -
  have "held_clients s = insert key (held_clients (s\<lparr>rs_sender := ItemDone data\<rparr>))"
    using at by (auto simp: held_clients_def)
  then show ?thesis using release_spec [of "s\<lparr>rs_sender := ItemDone data\<rparr>" key] inv at by (simp add: run_inv_def)
qed

section \<open>Every step keeps it\<close>

lemma worker_keeps_inv:
  assumes "worker_moves env t s s'" and inv: "run_inv s"
  shows "run_inv s'"
  using assms(1)
proof cases
  case (take ok n key rest)
  have "at_point (s\<lparr>rs_port := rest\<rparr>) t AtPort" using take by simp
  then show ?thesis unfolding take(1) by (rule run_inv_go [rotated]) (use inv in simp_all)
next
  case (test ok n key)
  then show ?thesis using run_inv_go [OF inv test(2)] by auto
next
  case (fetch ok n key)
  have "held_clients (go t (Holding ok n key) s) = insert key (held_clients s)"
    by (rule held_go_take [OF fetch(2)]) simp_all
  then show ?thesis using inv fetch by (auto simp: run_inv_def)
next
  case (closed ok n key)
  then show ?thesis using run_inv_go [OF inv closed(2)] by simp
next
  case (read_done ok n key c junk c1 w1)
  have at: "at_point (put_client key c1 w1 s) t (Holding ok n key)" using read_done by simp
  show ?thesis unfolding read_done(1)
    by (rule run_inv_go [OF CompleteRead_put [OF inv read_done(5,7)] at]) simp
next
  case (read_fault ok n key c junk f)
  then show ?thesis using run_inv_go [OF inv read_fault(2)] inv by auto
next
  case (send_done ok n key c junk c1 w1)
  have at: "at_point (put_client key c1 w1 s) t (Holding ok n key)" using send_done by simp
  show ?thesis unfolding send_done(1)
    by (rule run_inv_go [OF CompleteSend_put [OF inv send_done(5,7)] at]) simp
next
  case (send_fault ok n key c junk f)
  then show ?thesis using run_inv_go [OF inv send_fault(2)] inv by auto
next
  case (other_done ok n key c)
  then show ?thesis using run_inv_go [OF inv other_done(2)] by simp
next
  case (rearm key c status c1 w1)
  note i = BeginRead_put [OF inv rearm(3,4), of "(rs_recvs s)(key := Suc (rs_recvs s key))"]
  show ?thesis unfolding rearm(1) by (rule run_inv_go [OF i, of t "Rearming key"]) (use rearm in simp_all)
next
  case (again key c status c1 w1)
  note i = BeginRead_put [OF inv again(3,4), of "(rs_recvs s)(key := Suc (rs_recvs s key))"]
  show ?thesis unfolding again(1) by (rule run_inv_go [OF i, of t "Again key"]) (use again in simp_all)
next
  case (notify key)
  let ?s = "s\<lparr>rs_sender := (case rs_sender s of ItemWaits data k \<Rightarrow> ItemWoken data k | p \<Rightarrow> p)\<rparr>"
  have "run_inv ?s" using inv by (cases "rs_sender s") (auto simp: run_inv_def held_clients_def)
  then show ?thesis unfolding notify(1) by (rule run_inv_go [of _ t "Notifying key"]) (use notify in simp_all)
next
  case (remove key)
  have "key \<in> held_clients s" by (rule holder_held [OF remove(2)]) simp
  then have "run_inv (s\<lparr>rs_sockets := rs_sockets s - {key}\<rparr>)"
    using inv by (auto simp: run_inv_def held_clients_def)
  then show ?thesis unfolding remove(1) by (rule run_inv_go [of _ t "Removing key"]) (use remove in simp_all)
next
  case (release key)
  then show ?thesis using release_worker [OF inv release(1)] by auto
qed (use inv in simp_all)

lemma sender_keeps_inv:
  assumes "sender_moves s s'" and inv: "run_inv s"
  shows "run_inv s'"
  using assms(1)
proof cases
  case (skip cp rest)
  have "store_inv (rs_objects s) ((rs_world s)\<lparr>iw_queue := rest\<rparr>) (sender_data (rs_sender s))"
    by (rule store_inv_cells [of _ "rs_world s"]) (use inv run_inv_wf [OF inv] in \<open>simp_all add: run_inv_def\<close>)
  then show ?thesis using inv by (simp add: skip run_inv_def held_clients_def)
next
  case (build cp rest junk data h)
  have "store_inv (rs_objects s) ((rs_world s)\<lparr>iw_heap := h, iw_queue := rest\<rparr>) (Some data)"
    using store_inv_new_data [OF _ build(5)] inv by (auto simp: run_inv_def)
  then show ?thesis using inv by (simp add: build run_inv_def held_clients_def)
next
  case (lock data cp)
  then show ?thesis using inv by (auto simp: run_inv_def held_clients_def)
next
  case (lock_expired data cp)
  then show ?thesis using inv by (auto simp: run_inv_def held_clients_def)
next
  case (begin_send data cp c status c1 w1)
  have "run_inv (s\<lparr>rs_sender := ItemSent data (fst cp), rs_sends := x\<rparr>)" for x
    using inv begin_send(2) by (simp add: run_inv_def held_clients_def)
  then show ?thesis unfolding begin_send(1) by (rule BeginSend_put) (use begin_send in simp_all)
next
  case (wait data key)
  then show ?thesis using inv by (simp add: run_inv_def held_clients_def)
next
  case (unlock data key)
  then show ?thesis using release_sender [OF inv unlock(1)] by auto
next
  case (delete data h)
  have "store_inv (rs_objects s) ((rs_world s)\<lparr>iw_heap := h\<rparr>) None"
    using store_inv_delete [OF _ delete(3)] inv delete(2) by (simp add: run_inv_def)
  then show ?thesis using inv delete by (simp add: run_inv_def held_clients_def)
qed (use inv in simp_all)

lemma system_keeps_inv:
  assumes "system_moves s s'" and inv: "run_inv s"
  shows "run_inv s'"
  using assms(1)
proof cases
  case (accept key junk status sock m')
  have w: "sm_world (manager_of s) = rs_world s" "mClientFactory (manager_of s) = Some (rs_factory s)"
      "mSockets (manager_of s) key = None"
    using accept(4) by (simp_all add: manager_of_def)
  have wf: "heap_wf (iw_heap (sm_world (manager_of s)))" using run_inv_wf [OF inv] w(1) by simp
  obtain c where c: "mSockets m' key = Some c" "client_ok c (sm_world m')" "cl_sent c = (\<lambda>_ w. Inr w)"
      "hp_cells (iw_heap (rs_world s)) (mBuffer (cl_buffer c)) = None"
      "hp_cells (iw_heap (rs_world s)) \<subseteq>\<^sub>m hp_cells (iw_heap (sm_world m'))"
    using accept_effect [OF wf w(2) _ w(3) accept(5)] inv w(1) by (metis run_inv_def)
  have wf': "heap_wf (iw_heap (sm_world m'))" using c(2) by (simp add: client_ok_def)
  have "store_inv ((rs_objects s)(key \<mapsto> c)) (sm_world m') (sender_data (rs_sender s))"
    using store_inv_accept [where objs = "rs_objects s", OF _ wf' accept(3,2) c(2,3,4,5)] inv by (simp add: run_inv_def)
  then show ?thesis using inv c(1) by (auto simp: accept(1) run_inv_def held_clients_def)
next
  case (arrived key c bytes h n)
  have "store_inv (rs_objects s) ((rs_world s)\<lparr>iw_heap := h\<rparr>) (sender_data (rs_sender s))"
    using store_inv_arrived [where objs = "rs_objects s", OF _ arrived(2,4,5)] inv by (simp add: run_inv_def)
  then show ?thesis using inv by (simp add: arrived(1) run_inv_def held_clients_def)
next
  case (spurious data key)
  then show ?thesis using inv by (simp add: run_inv_def held_clients_def)
qed (use inv in simp_all)

interpretation server: invariant_system run_init "run_step env" run_inv
proof unfold_locales
  fix s assume "run_init s"
  then show "run_inv s"
    by (auto simp: run_init_def run_inv_def held_clients_def intro!: store_invI)
next
  fix s s' assume "run_inv s" "run_step env s s'"
  then show "run_inv s'"
    using worker_keeps_inv sender_keeps_inv system_keeps_inv unfolding run_step_def by blast
qed

section \<open>No thread is stuck inside a pass\<close>

lemma holding_progress:
  assumes inv: "run_inv s" and at: "at_point s t (Holding ok n key)"
  shows "\<exists>s'. worker_moves env t s s'"
proof -
  obtain c where c: "rs_objects s key = Some c" "client_ok c (rs_world s)"
    using run_inv_holder [OF inv, of key] holder_held [OF at] by auto
  show ?thesis
  proof (cases "\<not> ok \<or> n = 0")
    case True
    then show ?thesis using worker_moves.closed [OF at] by blast
  next
    case False
    consider "cl_state c = READ_STATE" | "cl_state c = SEND_STATE" | "cl_state c \<noteq> READ_STATE" "cl_state c \<noteq> SEND_STATE"
      by blast
    then show ?thesis
    proof cases
      case 1
      obtain r where r: "CompleteRead env (\<lambda>_. 0) (ucast n) c (rs_world s) = Some r"
        using CompleteRead_spec [OF c(2), of env "\<lambda>_. 0" "ucast n"] by blast
      show ?thesis
      proof (cases r)
        case (Inl f)
        then have "CompleteRead env (\<lambda>_. 0) (ucast n) c (rs_world s) = Some (Inl f)" using r by simp
        then show ?thesis using worker_moves.read_fault [OF at _ _ c(1) 1] False by blast
      next
        case (Inr x)
        then have "CompleteRead env (\<lambda>_. 0) (ucast n) c (rs_world s) = Some (Inr (fst x, snd x))" using r by simp
        then show ?thesis using worker_moves.read_done [OF at _ _ c(1) 1] False by blast
      qed
    next
      case 2
      show ?thesis
      proof (cases "CompleteSend (\<lambda>_. 0) c (rs_world s)")
        case (Inl f)
        then show ?thesis using worker_moves.send_fault [OF at _ _ c(1) 2] False by blast
      next
        case (Inr x)
        then have "CompleteSend (\<lambda>_. 0) c (rs_world s) = Inr (fst x, snd x)" by simp
        then show ?thesis using worker_moves.send_done [OF at _ _ c(1) 2] False by blast
      qed
    next
      case 3
      then show ?thesis using worker_moves.other_done [OF at _ _ c(1)] False by blast
    qed
  qed
qed

lemma worker_progress:
  assumes inv: "run_inv s" and t: "t < length (rs_workers s)" and busy: "rs_workers s ! t \<noteq> AtPort"
  shows "\<exists>s'. worker_moves env t s s'"
proof (cases "rs_workers s ! t")
  case (Completed ok n key)
  then show ?thesis using t worker_moves.test [of s t ok n key env] by (auto simp: at_point_def)
next
  case (Tested ok n key)
  then show ?thesis using t worker_moves.fetch [of s t ok n key env] worker_moves.fetch_missing [of s t ok n key env]
    by (cases "key \<in> rs_sockets s") (auto simp: at_point_def)
next
  case (Holding ok n key)
  then show ?thesis using holding_progress [OF inv] t by (simp add: at_point_def)
next
  case (Rearming key)
  then have at: "at_point s t (Rearming key)" using t by (simp add: at_point_def)
  obtain c where c: "rs_objects s key = Some c"
    using run_inv_holder [OF inv, of key] holder_held [OF at] by auto
  then show ?thesis using worker_moves.trap [OF disjI1 [OF at] c, of Failed] by (auto simp: BeginRead_failed)
next
  case (Again key)
  then have at: "at_point s t (Again key)" using t by (simp add: at_point_def)
  obtain c where c: "rs_objects s key = Some c"
    using run_inv_holder [OF inv, of key] holder_held [OF at] by auto
  then show ?thesis using worker_moves.trap [OF disjI2 [OF at] c, of Failed] by (auto simp: BeginRead_failed)
next
  case (Notifying key)
  then show ?thesis using t worker_moves.notify [of s t key env] by (auto simp: at_point_def)
next
  case (Removing key)
  then show ?thesis using t worker_moves.remove [of s t key env] by (auto simp: at_point_def)
next
  case (Releasing key)
  then have at: "at_point s t (Releasing key)" using t by (simp add: at_point_def)
  then show ?thesis using release_worker [OF inv at] worker_moves.release [OF at] by blast
qed (use busy in simp)

lemma sender_progress:
  assumes inv: "run_inv s" and busy: "rs_sender s \<noteq> NextItem" "\<And>data key. rs_sender s \<noteq> ItemWaits data key"
  shows "\<exists>s'. sender_moves s s'"
proof (cases "rs_sender s")
  case (ItemBuilt data cp)
  then show ?thesis using sender_moves.lock sender_moves.lock_expired by (cases "rs_objects s (fst cp)") blast+
next
  case (ItemLocked data cp)
  then have "fst cp \<in> held_clients s" by (simp add: held_clients_def)
  then obtain c where c: "rs_objects s (fst cp) = Some c" using run_inv_holder [OF inv] by metis
  show ?thesis
    using sender_moves.begin_send_trap [OF ItemLocked c, of Failed] by (auto simp: BeginSend_def Let_def)
next
  case (ItemSent data key)
  then show ?thesis using sender_moves.wait by blast
next
  case (ItemWoken data key)
  then show ?thesis using release_sender [OF inv ItemWoken] sender_moves.unlock by blast
next
  case (ItemDone data)
  have st: "store_inv (rs_objects s) (rs_world s) (Some data)" using inv ItemDone by (simp add: run_inv_def)
  obtain m where "hp_cells (iw_heap (rs_world s)) data = Some m" "data \<noteq> 0"
    using store_invD(4) [OF st] by auto
  then obtain h where "heap_delete data (iw_heap (rs_world s)) = Inr h"
    using hp.release_ok [OF run_inv_wf [OF inv]] by blast
  then show ?thesis using sender_moves.delete [OF ItemDone] by blast
qed (use busy in simp_all)

section \<open>Running into a state\<close>

text \<open>What a run from the start to a connected client, its message and its completion looks like.\<close>

lemma accept_moves:
  assumes inv: "run_inv s" and key: "key \<noteq> 0" "rs_objects s key = None"
    and factory: "\<And>h. heap_wf h \<Longrightarrow> \<exists>x. rs_factory s key h = Inr x" and weak: "key \<notin> weak_clients s"
  obtains c w hls h0 h1 wb where "system_moves s (s\<lparr>rs_objects := (rs_objects s)(key \<mapsto> c), rs_sockets := insert key (rs_sockets s),
      rs_world := w, rs_recvs := (rs_recvs s)(key := Suc (rs_recvs s key))\<rparr>)" and "cl_state c = READ_STATE"
    and "cl_socket c = sock" and "cl_received c = Some hls" and "rs_factory s key h0 = Inr (hls, h1)" and "heap_wf h0"
    and "iw_queue w = iw_queue (rs_world s)" and "iw_calls w = iw_calls (rs_world s) @ [Recv sock wb]"
proof -
  let ?w = "rs_world s"
  obtain c h1 where c: "Client_new sock sizeof_Packet (\<lambda>_. 0) (iw_heap ?w) = Inr (c, h1)" "cl_socket c = sock" "heap_wf h1"
    using Client_new_ok [OF run_inv_wf [OF inv], of sock "\<lambda>_. 0" "iw_queue ?w" "iw_calls ?w"] by (force simp: client_ok_def)
  obtain hls h2 where h2: "rs_factory s key h1 = Inr (hls, h2)" using factory [OF c(3)] by auto
  have free: "key \<notin> rs_sockets s" using inv key(2) by (auto simp: run_inv_def)
  let ?c = "(SetReceivedHandler hls c)\<lparr>cl_state := READ_STATE\<rparr>"
  obtain m where m: "acceptConnection key (\<lambda>_. 0) True Pending sock (manager_of s) = Inr m" "mSockets m key = Some ?c"
      "sm_world m = ?w\<lparr>iw_heap := h2, iw_calls := iw_calls ?w @ [Recv (cl_socket c) (cl_recv c)]\<rparr>"
    using c(1) h2 free by (simp add: acceptConnection_def manager_of_def BeginRead_def Let_def SetReceivedHandler_def)
  have "system_moves s (s\<lparr>rs_objects := (rs_objects s)(key := mSockets m key), rs_sockets := insert key (rs_sockets s),
      rs_world := sm_world m, rs_recvs := (rs_recvs s)(key := Suc (rs_recvs s key))\<rparr>)"
    by (rule system_moves.accept [OF key free m(1) weak])
  then show thesis
    using that [of "sm_world m" ?c hls h1 h2 "cl_recv c"] m(2,3) c(2,3) h2 by (simp add: SetReceivedHandler_def)
qed

lemma accept_runs:
  assumes inv: "run_inv s" and ok: "rs_fault s = None" and key: "key \<noteq> 0" "rs_objects s key = None"
    and factory: "\<And>h. heap_wf h \<Longrightarrow> \<exists>x. rs_factory s key h = Inr x" and weak: "key \<notin> weak_clients s"
  obtains c w where "run_step env s (s\<lparr>rs_objects := (rs_objects s)(key \<mapsto> c), rs_sockets := insert key (rs_sockets s),
      rs_world := w, rs_recvs := (rs_recvs s)(key := Suc (rs_recvs s key))\<rparr>)" and "cl_state c = READ_STATE"
    and "iw_queue w = iw_queue (rs_world s)"
  by (rule accept_moves [OF inv key factory weak, of 50]) (use that ok in \<open>auto simp: run_step_def\<close>)

text \<open>A few bytes arrive.\<close>

lemma arrive_runs:
  assumes inv: "run_inv s" and ok: "rs_fault s = None" and c: "rs_objects s key = Some c"
    and r: "rs_recvs s key = Suc r" and n: "0 < n"
  obtains w where "run_step env s (s\<lparr>rs_world := w, rs_recvs := (rs_recvs s)(key := r), rs_port := rs_port s @ [(True, n, key)]\<rparr>)"
    and "iw_queue w = iw_queue (rs_world s)"
proof -
  obtain b where b: "hp_cells (iw_heap (rs_world s)) (mBuffer (cl_buffer c)) = Some b" "length b = sizeof_Packet"
    using client_ok_block [OF run_inv_client [OF inv c]] by metis
  obtain h where h: "heap_store (mBuffer (cl_buffer c)) 0 b (iw_heap (rs_world s)) = Inr h"
    using hp.put_ok [OF run_inv_wf [OF inv] b(1), of 0 b] b(2) by auto
  have "system_moves s (s\<lparr>rs_world := (rs_world s)\<lparr>iw_heap := h\<rparr>, rs_recvs := (rs_recvs s)(key := rs_recvs s key - 1),
      rs_port := rs_port s @ [(True, n, key)]\<rparr>)"
    using system_moves.arrived [OF c _ b(2) h n] r by simp
  then show thesis using that [of "(rs_world s)\<lparr>iw_heap := h\<rparr>"] ok r by (auto simp: run_step_def)
qed

definition demo_run0 :: run_state where
  "demo_run0 = \<lparr> rs_objects = Map.empty, rs_sockets = {}, rs_factory = demo_factory_fun,
     rs_world = \<lparr> iw_heap = heap_empty, iw_queue = \<lparr> mQueue = [] \<rparr>, iw_calls = [] \<rparr>, rs_workers = [AtPort, AtPort],
     rs_sender = NextItem, rs_recvs = (\<lambda>_. 0), rs_sends = [], rs_port = [], rs_fault = None \<rparr>"

lemma demo_run0_init: "run_init demo_run0"
  using heap_empty_wf factory_is_good by (simp add: run_init_def demo_run0_def demo_factory_fun_def)

lemma server_advance: "reachable run_init (run_step env) s \<Longrightarrow> run_step env s t \<Longrightarrow> reachable run_init (run_step env) t"
  by (rule reachable.advance)

lemma demo_run0_reachable: "reachable run_init (run_step env) demo_run0"
  by (rule reachable.start, rule demo_run0_init)

lemma demo_factory_makes: "\<exists>x. demo_factory_fun key h = Inr x"
  by (simp add: demo_factory_fun_def make_handlers_def AudioServerHandler_new_def FileList_new_def populate_def Let_def)

section \<open>Properties\<close>

text \<open>
  C7. The clients as shared objects, in every state the running server reaches, under every interleaving
  of accepting, the workers, the sending thread and the system. The client objects that are alive are
  exactly those that are in the map or that a thread has a pointer to, so no pointer dangles; each has its
  own live receive buffer and good handlers; and no thread gets stuck inside its pass: a worker that is
  not waiting at the port, and a sending thread that is not waiting for an item or for the notification,
  has a next step.
\<close>

theorem shared_clients_are_alive:
  assumes "reachable run_init (run_step env) s"
  shows "dom (rs_objects s) = rs_sockets s \<union> held_clients s
    \<and> (\<forall>k c. rs_objects s k = Some c \<longrightarrow> k \<noteq> 0 \<and> client_ok c (rs_world s))
    \<and> (\<forall>k k' c c'. rs_objects s k = Some c \<and> rs_objects s k' = Some c'
         \<and> mBuffer (cl_buffer c) = mBuffer (cl_buffer c') \<longrightarrow> k = k')
    \<and> (\<forall>t < length (rs_workers s). rs_workers s ! t \<noteq> AtPort \<longrightarrow> (\<exists>s'. worker_moves env t s s'))
    \<and> (rs_sender s \<noteq> NextItem \<and> (\<forall>data key. rs_sender s \<noteq> ItemWaits data key) \<longrightarrow> (\<exists>s'. sender_moves s s'))"
proof -
  note inv = server.reachable_inv [OF assms]
  then have st: "store_inv (rs_objects s) (rs_world s) (sender_data (rs_sender s))"
    and dom: "dom (rs_objects s) = rs_sockets s \<union> held_clients s" by (simp_all add: run_inv_def)
  show ?thesis
    using dom store_invD(2,3) [OF st] worker_progress [OF inv] sender_progress [OF inv] by blast
qed

theorem shared_clients_are_alive_witness:
  "\<exists>s. reachable run_init (run_step demo_env) s \<and> rs_sockets s = {9} \<and> dom (rs_objects s) = rs_sockets s \<union> held_clients s"
proof -
  have inv: "run_inv demo_run0" by (rule server.inv_init [OF demo_run0_init])
  obtain c w where "run_step demo_env demo_run0 (demo_run0\<lparr>rs_objects := (rs_objects demo_run0)(9 \<mapsto> c),
      rs_sockets := insert 9 (rs_sockets demo_run0), rs_world := w,
      rs_recvs := (rs_recvs demo_run0)(9 := Suc (rs_recvs demo_run0 9))\<rparr>)"
    using demo_factory_makes by (rule_tac accept_runs [OF inv, of 9]) (auto simp: demo_run0_def weak_clients_def)
  then have "reachable run_init (run_step demo_env) (demo_run0\<lparr>rs_objects := (rs_objects demo_run0)(9 \<mapsto> c),
      rs_sockets := insert 9 (rs_sockets demo_run0), rs_world := w,
      rs_recvs := (rs_recvs demo_run0)(9 := Suc (rs_recvs demo_run0 9))\<rparr>)"
    by (rule reachable.advance [rotated]) (rule reachable.start, rule demo_run0_init)
  from shared_clients_are_alive [OF this] this show ?thesis
    by (intro exI [of _ "demo_run0\<lparr>rs_objects := (rs_objects demo_run0)(9 \<mapsto> c),
      rs_sockets := insert 9 (rs_sockets demo_run0), rs_world := w,
      rs_recvs := (rs_recvs demo_run0)(9 := Suc (rs_recvs demo_run0 9))\<rparr>"]) (simp add: demo_run0_def)
qed

end
