(* ===== verification/ServerTraffic.thy ===== *)
theory ServerTraffic
  imports ServerSafety
begin

text \<open>
  What goes over the connections of the running server: which packets the handlers answer to the client
  on which socket, and which bytes are handed to \<open>WSASend\<close> on which socket. Both are histories that an
  observer of the steps of \<open>ServerRuns\<close> writes; the steps themselves do not know of them.
\<close>

section \<open>The observer\<close>

record traffic =
  tr_run :: run_state
  tr_answered :: "(socket \<times> Packet) list"      \<comment> \<open>packets queued, and the socket of the client whose message was handled\<close>
  tr_sent :: "(socket \<times> byte list) list"       \<comment> \<open>calls of \<open>WSASend\<close> and the bytes they point to\<close>

text \<open>The client whose handlers a worker runs.\<close>

definition asker :: "run_state \<Rightarrow> nat \<Rightarrow> Client option" where
  "asker s t = (case rs_workers s ! t of Holding ok n key \<Rightarrow> rs_objects s key | _ \<Rightarrow> None)"

definition queued :: "run_state \<Rightarrow> ClientPacket list" where
  "queued s = mQueue (iw_queue (rs_world s))"

definition answers :: "run_state \<Rightarrow> nat \<Rightarrow> run_state \<Rightarrow> (socket \<times> Packet) list" where
  "answers s t s' = (case asker s t of
      None \<Rightarrow> []
    | Some c \<Rightarrow> map (\<lambda>cp. (cl_socket c, snd cp)) (drop (length (queued s)) (queued s')))"

definition pointed_to :: "io_world \<Rightarrow> WSABUF \<Rightarrow> byte list" where
  "pointed_to w wb = (case heap_load (wb_buf wb) (unat (wb_len wb)) (iw_heap w) of Inr bs \<Rightarrow> bs | Inl _ \<Rightarrow> [])"

fun call_sends :: "io_world \<Rightarrow> io_call \<Rightarrow> (socket \<times> byte list) list" where
  "call_sends w (Send sock wb) = [(sock, pointed_to w wb)]"
| "call_sends w (Recv sock wb) = []"

definition sends :: "run_state \<Rightarrow> run_state \<Rightarrow> (socket \<times> byte list) list" where
  "sends s s' = concat (map (call_sends (rs_world s')) (drop (length (iw_calls (rs_world s))) (iw_calls (rs_world s'))))"

inductive traffic_step :: "request_env \<Rightarrow> traffic \<Rightarrow> traffic \<Rightarrow> bool" for env where
  works: "rs_fault (tr_run x) = None \<Longrightarrow> worker_moves env t (tr_run x) s' \<Longrightarrow>
    traffic_step env x \<lparr> tr_run = s', tr_answered = tr_answered x @ answers (tr_run x) t s',
      tr_sent = tr_sent x @ sends (tr_run x) s' \<rparr>"
| sends_on: "rs_fault (tr_run x) = None \<Longrightarrow> sender_moves (tr_run x) s' \<Longrightarrow>
    traffic_step env x \<lparr> tr_run = s', tr_answered = tr_answered x, tr_sent = tr_sent x @ sends (tr_run x) s' \<rparr>"
| around: "rs_fault (tr_run x) = None \<Longrightarrow> system_moves (tr_run x) s' \<Longrightarrow>
    traffic_step env x \<lparr> tr_run = s', tr_answered = tr_answered x, tr_sent = tr_sent x @ sends (tr_run x) s' \<rparr>"

inductive_cases traffic_stepE: "traffic_step env x y"

text \<open>The factory gives a client handlers that hold this client's weak pointer.\<close>

definition own_factory :: "factory \<Rightarrow> bool" where
  "own_factory f \<longleftrightarrow> (\<forall>client h hls h'. f client h = Inr (hls, h') \<longrightarrow> (\<forall>hl \<in> set hls. serves client hl))"

definition traffic_init :: "traffic \<Rightarrow> bool" where
  "traffic_init x \<longleftrightarrow> run_init (tr_run x) \<and> own_factory (rs_factory (tr_run x)) \<and> tr_answered x = [] \<and> tr_sent x = []"

lemma make_handlers_own: "own_factory (\<lambda>client h. make_handlers dir fs junk cjunk client h)"
  by (auto simp: own_factory_def make_handlers_def AudioServerHandler_new_def Let_def res_bind_Inr_iff split: prod.splits)

text \<open>The observer sees every run, and only runs.\<close>

lemma traffic_runs: "reachable traffic_init (traffic_step env) x \<Longrightarrow> reachable run_init (run_step env) (tr_run x)"
proof (induction rule: reachable.induct)
  case (start x)
  then show ?case by (simp add: traffic_init_def reachable.start)
next
  case (advance x y)
  have "run_step env (tr_run x) (tr_run y)" using advance.hyps(2) by cases (auto simp: run_step_def)
  then show ?case by (rule server_advance [OF advance.IH])
qed

lemma traffic_follows:
  assumes "run_step env (tr_run x) s'"
  shows "\<exists>y. traffic_step env x y \<and> tr_run y = s'"
  using assms traffic_step.works [of x env _ s'] traffic_step.sends_on [of x s' env] traffic_step.around [of x s' env]
  unfolding run_step_def by fastforce

section \<open>The invariant\<close>

definition on_wire :: "socket \<times> Packet \<Rightarrow> socket \<times> byte list" where
  "on_wire x = (fst x, case wire_bytes (snd x) of Inr bs \<Rightarrow> bs | Inl _ \<Rightarrow> [])"

lemma fst_on_wire [simp]: "fst (on_wire x) = fst x"
  by (simp add: on_wire_def)

text \<open>An entry of the queue is the answer \<open>x\<close>: if its client is still there, it is the one that asked.\<close>

definition asked :: "run_state \<Rightarrow> socket \<times> Packet \<Rightarrow> ClientPacket \<Rightarrow> bool" where
  "asked s x cp \<longleftrightarrow> snd x = snd cp \<and> packet_wf (snd cp) \<and> (\<forall>c. rs_objects s (fst cp) = Some c \<longrightarrow> cl_socket c = fst x)"

fun sender_item :: "sender_point \<Rightarrow> (addr \<times> ClientPacket) option" where
  "sender_item (ItemBuilt data cp) = Some (data, cp)"
| "sender_item (ItemLocked data cp) = Some (data, cp)"
| "sender_item NextItem = None"
| "sender_item (ItemSent data key) = None"
| "sender_item (ItemWaits data key) = None"
| "sender_item (ItemWoken data key) = None"
| "sender_item (ItemDone data) = None"

definition traffic_ok :: "run_state \<Rightarrow> (socket \<times> Packet) list \<Rightarrow> (socket \<times> byte list) list \<Rightarrow> bool" where
  "traffic_ok s answered sent \<longleftrightarrow> (\<exists>taken pending. answered = taken @ pending \<and> list_all2 (asked s) pending (queued s)
     \<and> (case sender_item (rs_sender s) of
          None \<Rightarrow> subseq sent (map on_wire taken)
        | Some (data, cp) \<Rightarrow> \<exists>before x. taken = before @ [x] \<and> asked s x cp \<and> subseq sent (map on_wire before)
            \<and> hp_cells (iw_heap (rs_world s)) data = Some (snd (on_wire x))))"

definition served :: "run_state \<Rightarrow> bool" where
  "served s \<longleftrightarrow> (\<forall>k c hls. rs_objects s k = Some c \<longrightarrow> cl_received c = Some hls \<longrightarrow> (\<forall>hl \<in> set hls. serves k hl))"

definition traffic_inv :: "traffic \<Rightarrow> bool" where
  "traffic_inv x \<longleftrightarrow> run_inv (tr_run x) \<and> own_factory (rs_factory (tr_run x)) \<and> served (tr_run x)
     \<and> traffic_ok (tr_run x) (tr_answered x) (tr_sent x) \<and> (\<forall>a \<in> set (tr_answered x). packet_wf (snd a))"

section \<open>Steps nobody hears\<close>

definition same_sockets :: "addr set \<Rightarrow> run_state \<Rightarrow> run_state \<Rightarrow> bool" where
  "same_sockets ks s s' \<longleftrightarrow> (\<forall>k \<in> ks. \<forall>c'. rs_objects s' k = Some c' \<longrightarrow>
     (\<exists>c. rs_objects s k = Some c \<and> cl_socket c = cl_socket c'))"

definition named :: "run_state \<Rightarrow> addr set" where
  "named s = fst ` set (queued s) \<union> (case sender_item (rs_sender s) of None \<Rightarrow> {} | Some (data, cp) \<Rightarrow> {fst cp})"

text \<open>What every step but the pushes, the pops and the sends does to the traffic: nothing.\<close>

definition kept :: "addr set \<Rightarrow> run_state \<Rightarrow> run_state \<Rightarrow> bool" where
  "kept ks s s' \<longleftrightarrow> rs_factory s' = rs_factory s \<and> (served s \<longrightarrow> served s') \<and> same_sockets ks s s' \<and> sends s s' = []
     \<and> (\<forall>data. sender_data (rs_sender s) = Some data \<longrightarrow> hp_cells (iw_heap (rs_world s')) data = hp_cells (iw_heap (rs_world s)) data)"

lemma keptI:
  assumes "rs_factory s' = rs_factory s" and "served s \<Longrightarrow> served s'" and "same_sockets ks s s'" and "sends s s' = []"
    and "\<And>data. sender_data (rs_sender s) = Some data \<Longrightarrow>
      hp_cells (iw_heap (rs_world s')) data = hp_cells (iw_heap (rs_world s)) data"
  shows "kept ks s s'"
  using assms by (simp add: kept_def)

lemma sends_no_calls: "iw_calls (rs_world s') = iw_calls (rs_world s) \<Longrightarrow> sends s s' = []"
  by (simp add: sends_def)

lemma sends_recv: "iw_calls (rs_world s') = iw_calls (rs_world s) @ [Recv sock wb] \<Longrightarrow> sends s s' = []"
  by (simp add: sends_def)

lemma kept_same:
  assumes "rs_objects s' = rs_objects s" and "rs_world s' = rs_world s" and "rs_factory s' = rs_factory s"
  shows "kept ks s s'"
proof (rule keptI)
  show "served s'" if "served s" using that by (simp only: served_def assms(1))
  show "same_sockets ks s s'" unfolding same_sockets_def assms(1) by blast
  show "sends s s' = []" by (rule sends_no_calls) (simp only: assms(2))
qed (simp_all only: assms)

lemma kept_put:
  assumes c: "rs_objects s key = Some c" "cl_socket c1 = cl_socket c"
    and hls: "\<And>hls. served s \<Longrightarrow> cl_received c1 = Some hls \<Longrightarrow> \<forall>hl \<in> set hls. serves key hl"
    and s': "rs_objects s' = (rs_objects s)(key \<mapsto> c1)" "rs_factory s' = rs_factory s"
    and calls: "iw_calls (rs_world s') = iw_calls (rs_world s) \<or> (\<exists>sock wb. iw_calls (rs_world s') = iw_calls (rs_world s) @ [Recv sock wb])"
    and cells: "hp_cells (iw_heap (rs_world s')) = hp_cells (iw_heap (rs_world s))"
  shows "kept ks s s'"
proof (rule keptI)
  show "same_sockets ks s s'" using c s' by (auto simp: same_sockets_def)
  show "served s'" if "served s" using that hls [OF that] s' by (auto simp: served_def split: if_splits)
  show "sends s s' = []" using calls sends_no_calls sends_recv by metis
qed (use s' cells in simp_all)

lemma release_kept:
  assumes inv: "store_inv (rs_objects s) (rs_world s) (sender_data (rs_sender s))" and r: "release_client key s = Inr s'"
  shows "kept ks s s' \<and> queued s' = queued s \<and> rs_sender s' = rs_sender s \<and> rs_workers s' = rs_workers s"
proof -
  show ?thesis
  proof (cases "key \<in> rs_sockets s \<or> key \<in> held_clients s")
    case True
    then have "s' = s" using r by (simp add: release_client_def)
    then show ?thesis using kept_same [of s s ks] by simp
  next
    case False
    obtain c where c: "rs_objects s key = Some c" using r False by (cases "rs_objects s key") (simp_all add: release_client_def)
    obtain h where h: "Client_destroy c (iw_heap (rs_world s)) = Inr h"
        "hp_cells h = (hp_cells (iw_heap (rs_world s)))(mBuffer (cl_buffer c) := None)"
      using client_destroy_ok [OF store_inv_client [OF inv c]] by blast
    have s': "s' = s\<lparr>rs_objects := (rs_objects s)(key := None), rs_world := (rs_world s)\<lparr>iw_heap := h\<rparr>\<rparr>"
      using r False c h(1) by (simp add: release_client_def)
    have "mBuffer (cl_buffer c) \<noteq> data" if "sender_data (rs_sender s) = Some data" for data
      using store_invD(4) [OF inv that] c by blast
    then have "kept ks s s'"
      unfolding s' by (intro keptI sends_no_calls) (auto simp: h(2) served_def same_sockets_def split: if_splits)
    then show ?thesis using s' by (simp add: queued_def)
  qed
qed

lemma BeginRead_calls:
  "BeginRead status c w = Inr (c1, w1) \<Longrightarrow> c1 = c\<lparr>cl_state := READ_STATE\<rparr>
     \<and> w1 = w\<lparr>iw_calls := iw_calls w @ [Recv (cl_socket c) (cl_recv c)]\<rparr>"
  by (auto simp: BeginRead_def Let_def split: if_splits)

section \<open>The workers\<close>

text \<open>A worker keeps everything, but where it handles a message it queues the answers for the client that sent it.\<close>

definition silent :: "run_state \<Rightarrow> nat \<Rightarrow> run_state \<Rightarrow> bool" where
  "silent s t s' \<longleftrightarrow> queued s' = queued s \<and> answers s t s' = []"

lemma silentI: "queued s' = queued s \<Longrightarrow> silent s t s'"
  by (simp add: silent_def answers_def split: option.split)

lemma worker_traffic:
  assumes step: "worker_moves env t s s'" and inv: "run_inv s" and own: "served s"
  shows "kept ks s s' \<and> sender_item (rs_sender s') = sender_item (rs_sender s)
    \<and> (silent s t s' \<or> (\<exists>key c pks. rs_objects s key = Some c \<and> queued s' = queued s @ map (Pair key) pks
         \<and> answers s t s' = map (Pair (cl_socket c)) pks \<and> (\<forall>pk \<in> set pks. packet_wf pk)))"
  using step
proof cases
  case (read_done ok n key c junk c1 w1)
  have good: "client_ok c (rs_world s)" by (rule run_inv_client [OF inv read_done(5)])
  let ?m = "client_bytes c (rs_world s)"
  have len: "sizeof_Packet \<le> length ?m" using good by (auto simp: client_ok_def buffer_live_def client_bytes_def)
  have sp: "hp_cells (iw_heap w1) = hp_cells (iw_heap (rs_world s))" "iw_calls w1 = iw_calls (rs_world s)"
      "\<exists>rcv. c1 = c\<lparr>cl_received := rcv\<rparr>"
    using CompleteRead_spec [OF good, of env junk "ucast n"] read_done(7) by auto
  have "\<exists>pks. queued s' = queued s @ map (Pair key) pks \<and> (\<forall>pk \<in> set pks. packet_wf pk)
      \<and> (\<forall>hls. cl_received c1 = Some hls \<longrightarrow> (\<forall>hl \<in> set hls. serves key hl))"
  proof (cases "cl_received c")
    case None
    then have "cl_received c1 = None \<and> iw_queue w1 = iw_queue (rs_world s)"
      using CompleteRead_spec [OF good, of env junk "ucast n"] read_done(7) by auto
    then show ?thesis using read_done(1) by (intro exI [of _ "[]"]) (simp add: queued_def)
  next
    case (Some hls)
    then obtain h1 h2 hls' where r: "heap_wf h1" "cl_received c1 = Some hls'"
        "received_handler env hls ?m (ucast n) (h1, iw_queue (rs_world s)) = Some (Inr (hls', (h2, iw_queue w1)))"
      using CompleteRead_spec [OF good, of env junk "ucast n"] read_done(7) by auto
    have "good_handler hl (h1, iw_queue (rs_world s)) \<and> serves key hl" if "hl \<in> set hls" for hl
      using good Some that own read_done(5) r(1) good_handler_frame by (auto simp: client_ok_def served_def)
    then show ?thesis
      using received_serves [OF len _ r(3), of key] r(2) read_done(1) by (auto simp: pushes_for_def queued_def)
  qed
  then obtain pks where pks: "queued s' = queued s @ map (Pair key) pks" "\<forall>pk \<in> set pks. packet_wf pk"
      "\<And>hls. cl_received c1 = Some hls \<Longrightarrow> \<forall>hl \<in> set hls. serves key hl" by blast
  have "kept ks s s'"
    by (rule kept_put [OF read_done(5)]) (use sp pks(3) read_done(1) in auto)
  moreover have "answers s t s' = map (Pair (cl_socket c)) pks"
    using read_done(2,5) pks(1) by (simp add: answers_def asker_def at_point_def)
  moreover have "sender_item (rs_sender s') = sender_item (rs_sender s)" using read_done(1) by simp
  ultimately show ?thesis using pks(1,2) read_done(5) by blast
next
  case (release key)
  have "store_inv (rs_objects (go t AtPort s)) (rs_world (go t AtPort s)) (sender_data (rs_sender (go t AtPort s)))"
    using inv by (simp add: run_inv_def)
  note r = release_kept [OF this release(2)]
  have "kept ks s s'" using r by (auto simp: kept_def served_def same_sockets_def sends_def)
  then show ?thesis using r by (auto intro!: silentI simp: queued_def)
next
  case (send_done ok n key c junk c1 w1)
  have wf: "heap_wf (iw_heap (rs_world s))" "cl_sent c = (\<lambda>_ w. Inr w)"
    using inv send_done(5) store_invD [of "rs_objects s"] unfolding run_inv_def by blast+
  obtain h where h: "c1 = c" "w1 = (rs_world s)\<lparr>iw_heap := h\<rparr>" "hp_cells h = hp_cells (iw_heap (rs_world s))"
    using CompleteSend_effect [OF wf send_done(7)] by blast
  have "kept ks s s'"
    by (rule kept_put [OF send_done(5)]) (use h send_done(1,5) in \<open>auto simp: served_def\<close>)
  then show ?thesis using h send_done(1) by (auto intro!: silentI simp: queued_def)
next
  case (rearm key c status c1 w1)
  note b = BeginRead_calls [OF rearm(4)]
  have "kept ks s s'"
    by (rule kept_put [OF rearm(3)]) (use b rearm(1,3) in \<open>auto simp: served_def\<close>)
  then show ?thesis using b rearm(1) by (auto intro!: silentI simp: queued_def)
next
  case (again key c status c1 w1)
  note b = BeginRead_calls [OF again(4)]
  have "kept ks s s'"
    by (rule kept_put [OF again(3)]) (use b again(1,3) in \<open>auto simp: served_def\<close>)
  then show ?thesis using b again(1) by (auto intro!: silentI simp: queued_def)
qed (auto intro!: kept_same silentI simp: queued_def kill_def split: sender_point.splits)

section \<open>The invariant is kept\<close>

lemma asked_kept:
  "asked s x cp \<Longrightarrow> fst cp \<in> ks \<Longrightarrow> same_sockets ks s s' \<Longrightarrow> asked s' x cp"
  by (fastforce simp: asked_def same_sockets_def)

lemma sender_item_data: "sender_item p = Some (data, cp) \<Longrightarrow> sender_data p = Some data"
  by (cases p) auto

lemma named_queue: "cp \<in> set (queued s) \<Longrightarrow> fst cp \<in> named s"
  by (simp add: named_def)

lemma named_item: "sender_item (rs_sender s) = Some (data, cp) \<Longrightarrow> fst cp \<in> named s"
  by (simp add: named_def)

lemma traffic_ok_grow:
  assumes ok: "traffic_ok s a b" and keep: "kept ks s s'" "named s \<subseteq> ks" and item: "sender_item (rs_sender s') = sender_item (rs_sender s)"
    and q: "queued s' = queued s @ cps" and new: "list_all2 (asked s') xs cps"
  shows "traffic_ok s' (a @ xs) b"
proof -
  have socks: "same_sockets ks s s'" and data: "\<And>data. sender_data (rs_sender s) = Some data \<Longrightarrow>
      hp_cells (iw_heap (rs_world s')) data = hp_cells (iw_heap (rs_world s)) data"
    using keep(1) by (simp_all add: kept_def)
  obtain taken pending where t: "a = taken @ pending" "list_all2 (asked s) pending (queued s)"
      "case sender_item (rs_sender s) of None \<Rightarrow> subseq b (map on_wire taken)
       | Some (data, cp) \<Rightarrow> \<exists>before x. taken = before @ [x] \<and> asked s x cp \<and> subseq b (map on_wire before)
            \<and> hp_cells (iw_heap (rs_world s)) data = Some (snd (on_wire x))"
    using ok unfolding traffic_ok_def by blast
  have "list_all2 (asked s') pending (queued s)"
    by (rule list.rel_mono_strong [OF t(2)]) (use named_queue keep(2) asked_kept [OF _ _ socks] in blast)
  then have "list_all2 (asked s') (pending @ xs) (queued s')" using new q by (simp add: list_all2_appendI)
  moreover have "case sender_item (rs_sender s') of None \<Rightarrow> subseq b (map on_wire taken)
       | Some (data, cp) \<Rightarrow> \<exists>before x. taken = before @ [x] \<and> asked s' x cp \<and> subseq b (map on_wire before)
            \<and> hp_cells (iw_heap (rs_world s')) data = Some (snd (on_wire x))"
  proof (cases "sender_item (rs_sender s)")
    case (Some y)
    obtain d cp where y: "y = (d, cp)" by (cases y)
    have ks: "fst cp \<in> ks" using named_item [of s d cp] Some y keep(2) by auto
    obtain before x where x: "taken = before @ [x]" "asked s x cp" "subseq b (map on_wire before)"
        "hp_cells (iw_heap (rs_world s)) d = Some (snd (on_wire x))"
      using t(3) Some y by auto
    have "asked s' x cp" by (rule asked_kept [OF x(2) ks socks])
    moreover have "hp_cells (iw_heap (rs_world s')) d = Some (snd (on_wire x))"
      using data [of d] sender_item_data [of "rs_sender s" d cp] Some y x(4) by simp
    ultimately show ?thesis using x Some y item by simp
  qed (use t(3) item in simp)
  ultimately show ?thesis
    unfolding traffic_ok_def using t(1) by (intro exI [of _ taken] exI [of _ "pending @ xs"]) simp
qed

lemma traffic_ok_kept:
  assumes "traffic_ok s a b" and "kept ks s s'" "named s \<subseteq> ks" and "sender_item (rs_sender s') = sender_item (rs_sender s)"
    and "queued s' = queued s"
  shows "traffic_ok s' a b"
  using traffic_ok_grow [OF assms(1-4), of "[]" "[]"] assms(5) by simp

lemma worker_ok:
  assumes step: "worker_moves env t s s'" and inv: "run_inv s" "served s" and ok: "traffic_ok s a b"
  shows "traffic_ok s' (a @ answers s t s') (b @ sends s s') \<and> served s' \<and> rs_factory s' = rs_factory s"
proof -
  note w = worker_traffic [OF step inv, of UNIV]
  have k: "kept UNIV s s'" and item: "sender_item (rs_sender s') = sender_item (rs_sender s)" using w by simp_all
  have rest: "served s'" "rs_factory s' = rs_factory s" "sends s s' = []" using k inv(2) by (simp_all add: kept_def)
  consider "silent s t s'"
    | key c pks where "rs_objects s key = Some c" "queued s' = queued s @ map (Pair key) pks"
      "answers s t s' = map (Pair (cl_socket c)) pks" "\<forall>pk \<in> set pks. packet_wf pk"
    using w by blast
  then have "traffic_ok s' (a @ answers s t s') b"
  proof cases
    case 1
    then show ?thesis using traffic_ok_kept [OF ok k _ item] by (simp add: silent_def)
  next
    case (2 key c pks)
    have "asked s' (cl_socket c, pk) (key, pk)" if "pk \<in> set pks" for pk
      using that 2(1,4) k by (fastforce simp: asked_def kept_def same_sockets_def)
    then have "list_all2 (asked s') (map (Pair (cl_socket c)) pks) (map (Pair key) pks)"
      by (simp add: list_all2_conv_all_nth)
    then show ?thesis unfolding 2(3) using traffic_ok_grow [OF ok k _ item 2(2)] by simp
  qed
  then show ?thesis using rest by simp
qed


text \<open>The step of a thread that neither pops nor sends.\<close>

definition still :: "run_state \<Rightarrow> run_state \<Rightarrow> (socket \<times> Packet) list \<Rightarrow> (socket \<times> byte list) list \<Rightarrow> bool" where
  "still s s' a b \<longleftrightarrow> traffic_ok s' a (b @ sends s s') \<and> served s' \<and> rs_factory s' = rs_factory s"

lemma stillI:
  assumes "traffic_ok s a b" and "served s" and "kept ks s s'" "named s \<subseteq> ks"
    and "sender_item (rs_sender s') = sender_item (rs_sender s)" and "queued s' = queued s"
  shows "still s s' a b"
  using traffic_ok_kept [OF assms(1,3,4,5,6)] assms(2,3) by (simp add: still_def kept_def)

lemma still_none:
  assumes "sender_item (rs_sender s') = None" and "served s'" and "rs_factory s' = rs_factory s" and "sends s s' = []"
    and "a = taken @ pending" and "list_all2 (asked s') pending (queued s')" and "subseq b (map on_wire taken)"
  shows "still s s' a b"
  using assms by (auto simp: still_def traffic_ok_def)

lemma asked_cong: "rs_objects s' = rs_objects s \<Longrightarrow> asked s' = asked s"
  by (simp add: asked_def fun_eq_iff)

lemma traffic_pop:
  assumes ok: "traffic_ok s a b" and at: "rs_sender s = NextItem"
    and pop: "queue_pop (iw_queue (rs_world s)) = Some (cp, rest)"
  obtains before x pending where "a = (before @ [x]) @ pending" and "asked s x cp"
    and "list_all2 (asked s) pending (mQueue rest)" and "subseq b (map on_wire before)"
proof -
  have q: "queued s = cp # mQueue rest" using pop by (auto simp: queued_def queue_pop_def split: list.splits)
  obtain before pending where t: "a = before @ pending" "list_all2 (asked s) pending (queued s)" "subseq b (map on_wire before)"
    using ok at unfolding traffic_ok_def by auto
  obtain x ps where "pending = x # ps" "asked s x cp" "list_all2 (asked s) ps (mQueue rest)"
    using t(2) unfolding q list_all2_Cons2 by blast
  then show thesis using that [of before x ps] t by simp
qed

lemma wire_len:
  assumes "packet_wf pk" and "wire_bytes pk = Inr bs"
  shows "unat (ucast (wire_size pk) :: cint) = length bs \<and> bs \<noteq> []"
proof -
  have "unat (wire_size pk) < 2 ^ 32" "0 < length bs"
    using unat_wire_size [OF assms(1)] packet_wf_size [OF assms(1)] wire_bytes_length [OF assms(2)] by simp_all
  then show ?thesis using wire_bytes_length [OF assms(2)] by (auto simp: unsigned_ucast_eq take_bit_nat_eq_self)
qed

text \<open>What \<open>BeginSend\<close> hands to \<open>WSASend\<close> are the bytes of the packet on the wire.\<close>

lemma BeginSend_sends:
  assumes r: "BeginSend status data (wire_size pk) c (rs_world s) = Inr (c1, rs_world s')" and wf: "packet_wf pk"
    and cell: "hp_cells (iw_heap (rs_world s)) data = Some (snd (on_wire (k, pk)))"
  shows "sends s s' = [on_wire (cl_socket c, pk)]"
proof -
  have w: "rs_world s' = (rs_world s)\<lparr>iw_calls := iw_calls (rs_world s)
      @ [Send (cl_socket c) \<lparr> wb_len = ucast (wire_size pk), wb_buf = data \<rparr>]\<rparr>"
    using r by (simp add: BeginSend_def Let_def split: if_splits)
  obtain bs where bs: "wire_bytes pk = Inr bs" using wire_bytes_eq [OF wf] by blast
  have "unat (ucast (wire_size pk) :: cint) = length bs" using wire_len [OF wf bs] by simp
  moreover have "hp_cells (iw_heap (rs_world s)) data = Some bs" using cell bs by (simp add: on_wire_def)
  ultimately have "heap_load data (unat (ucast (wire_size pk) :: cint)) (iw_heap (rs_world s)) = Inr bs"
    by (simp add: heap_load_ok)
  then show ?thesis using bs by (simp add: sends_def w pointed_to_def on_wire_def)
qed

lemma build_ok:
  assumes build: "s' = s\<lparr>rs_world := (rs_world s)\<lparr>iw_heap := h, iw_queue := rest\<rparr>, rs_sender := ItemBuilt data cp\<rparr>"
    "rs_sender s = NextItem" "queue_pop (iw_queue (rs_world s)) = Some (cp, rest)" "pkt_type (snd cp) \<noteq> type_val INVALID"
    "build_item junk (snd cp) (iw_heap (rs_world s)) = Inr (data, h)"
    and inv: "run_inv s" "served s" and ok: "traffic_ok s a b"
  shows "still s s' a b"
proof -
  obtain before x pending where p: "a = (before @ [x]) @ pending" "asked s x cp" "list_all2 (asked s) pending (mQueue rest)"
      "subseq b (map on_wire before)"
    using traffic_pop [OF ok build(2,3)] by metis
  have x: "snd x = snd cp" "packet_wf (snd cp)" using p(2) by (simp_all add: asked_def)
  obtain bs where bs: "wire_bytes (snd cp) = Inr bs" "hp_cells h data = Some bs"
    using build_item_ok [OF run_inv_wf [OF inv(1)] x(2), of junk] build(5) by auto
  have "hp_cells (iw_heap (rs_world s')) data = Some (snd (on_wire x))" using bs x(1) by (simp add: build(1) on_wire_def)
  moreover have "sends s s' = []" by (rule sends_no_calls) (simp add: build)
  moreover have "asked s' = asked s" "queued s' = mQueue rest" by (rule asked_cong) (simp_all add: build queued_def)
  moreover have "sender_item (rs_sender s') = Some (data, cp)" by (simp add: build)
  ultimately have "traffic_ok s' a (b @ sends s s')"
    unfolding traffic_ok_def using p by (intro exI [of _ "before @ [x]"] exI [of _ pending]) auto
  then show ?thesis using inv(2) build(1) by (simp add: still_def served_def)
qed

lemma begin_send_ok:
  assumes begin_send: "s' = put_client (fst cp) c1 w1 (s\<lparr>rs_sender := ItemSent data (fst cp),
      rs_sends := rs_sends s @ [(fst cp, wb_len (cl_send c1))]\<rparr>)" "rs_sender s = ItemLocked data cp"
    "rs_objects s (fst cp) = Some c" "BeginSend status data (wire_size (snd cp)) c (rs_world s) = Inr (c1, w1)"
    and inv: "run_inv s" "served s" and ok: "traffic_ok s a b"
  shows "still s s' a b"
proof -
  obtain taken pending before x where t: "a = taken @ pending" "list_all2 (asked s) pending (queued s)"
      "taken = before @ [x]" "asked s x cp" "subseq b (map on_wire before)"
      "hp_cells (iw_heap (rs_world s)) data = Some (snd (on_wire x))"
    using ok begin_send(2) unfolding traffic_ok_def by auto
  have x: "x = (cl_socket c, snd cp)" "packet_wf (snd cp)"
    using t(4) begin_send(3) by (auto simp: asked_def prod_eq_iff)
  have w1: "c1 = c\<lparr>cl_send := cl_send c1, cl_state := SEND_STATE\<rparr>" "iw_queue w1 = iw_queue (rs_world s)" "rs_world s' = w1"
    using begin_send(1,4) by (auto simp: BeginSend_def Let_def split: if_splits)
  have c1: "cl_socket c1 = cl_socket c" "cl_received c1 = cl_received c" by (subst w1(1), simp)+
  have sent: "sends s s' = [on_wire x]"
    unfolding x(1) by (rule BeginSend_sends [where k = "cl_socket c"])
      (use begin_send(4) w1(3) t(6) x in auto)
  have same: "same_sockets UNIV s s'" using begin_send(1,3) c1 by (auto simp: same_sockets_def)
  have "list_all2 (asked s') pending (queued s)"
    by (rule list.rel_mono_strong [OF t(2)]) (rule asked_kept [OF _ UNIV_I same])
  moreover have "subseq (b @ [on_wire x]) (map on_wire taken)" using subseq_snoc_same [OF t(5)] t(3) by simp
  moreover have "queued s' = queued s" using w1 by (simp add: queued_def)
  moreover have "sender_item (rs_sender s') = None" using begin_send(1) by simp
  ultimately have "traffic_ok s' a (b @ sends s s')" using t(1) sent unfolding traffic_ok_def by auto
  moreover have "served s'" using inv(2) begin_send(1,3) c1 by (auto simp: served_def split: if_splits)
  ultimately show ?thesis using begin_send(1) by (simp add: still_def)
qed

lemma sender_ok:
  assumes step: "sender_moves s s'" and inv: "run_inv s" "served s" and ok: "traffic_ok s a b"
  shows "still s s' a b"
  using step
proof cases
  case (skip cp rest)
  obtain before x pending where p: "a = (before @ [x]) @ pending" "list_all2 (asked s) pending (mQueue rest)"
      "subseq b (map on_wire before)"
    using traffic_pop [OF ok skip(2,3)] by metis
  have "subseq b (map on_wire (before @ [x]))" using subseq_snoc_skip [OF p(3)] by simp
  moreover have "sends s s' = []" by (rule sends_no_calls) (simp add: skip)
  moreover have "asked s' = asked s" "queued s' = mQueue rest" by (rule asked_cong) (simp_all add: skip queued_def)
  moreover have "sender_item (rs_sender s') = None" "served s'" "rs_factory s' = rs_factory s"
    using skip(1,2) inv(2) by (simp_all add: served_def)
  ultimately show ?thesis using p(1,2) still_none [of s'] by metis
next
  case (build cp rest junk data h)
  then show ?thesis by (rule build_ok [OF _ _ _ _ _ inv ok])
next
  case (lock data cp)
  have "kept UNIV s s'" by (rule kept_same) (simp_all add: lock)
  then show ?thesis by (rule stillI [OF ok inv(2)]) (simp_all add: lock queued_def)
next
  case (lock_expired data cp)
  obtain taken pending before x where t: "a = taken @ pending" "list_all2 (asked s) pending (queued s)"
      "taken = before @ [x]" "subseq b (map on_wire before)"
    using ok lock_expired(2) unfolding traffic_ok_def by auto
  have "subseq b (map on_wire taken)" using subseq_snoc_skip [OF t(4)] t(3) by simp
  moreover have "sends s s' = []" by (rule sends_no_calls) (simp add: lock_expired)
  moreover have "asked s' = asked s" "queued s' = queued s" by (rule asked_cong) (simp_all add: lock_expired queued_def)
  moreover have "sender_item (rs_sender s') = None" "served s'" "rs_factory s' = rs_factory s"
    using lock_expired(1) inv(2) by (simp_all add: served_def)
  ultimately show ?thesis using t(1,2) still_none [of s'] by metis
next
  case (begin_send data cp c status c1 w1)
  then show ?thesis by (rule begin_send_ok [OF _ _ _ _ inv ok])
next
  case (begin_send_trap data cp c status f)
  have "kept UNIV s s'" by (rule kept_same) (simp_all add: begin_send_trap kill_def)
  then show ?thesis by (rule stillI [OF ok inv(2)]) (simp_all add: begin_send_trap queued_def kill_def)
next
  case (wait data key)
  have "kept UNIV s s'" by (rule kept_same) (simp_all add: wait)
  then show ?thesis by (rule stillI [OF ok inv(2)]) (simp_all add: wait queued_def)
next
  case (unlock data key)
  let ?s = "s\<lparr>rs_sender := ItemDone data\<rparr>"
  have "store_inv (rs_objects ?s) (rs_world ?s) (sender_data (rs_sender ?s))"
    using inv(1) unlock(1) by (simp add: run_inv_def)
  note r = release_kept [OF this unlock(2), of UNIV]
  have "kept UNIV s s'" using r unlock(1) by (auto simp: kept_def served_def same_sockets_def sends_def)
  then show ?thesis by (rule stillI [OF ok inv(2)]) (use r unlock(1) in \<open>simp_all add: queued_def\<close>)
next
  case (delete data h)
  have "sends s s' = []" by (rule sends_no_calls) (simp add: delete)
  moreover have "asked s' = asked s" "queued s' = queued s" by (rule asked_cong) (simp_all add: delete queued_def)
  ultimately show ?thesis using ok inv(2) delete(1,2) by (simp add: still_def traffic_ok_def served_def)
qed


lemma accept_serves:
  assumes own: "own_factory f" "mClientFactory m = Some f" and new: "mSockets m key = None"
    and acc: "acceptConnection key junk True status sock m = Inr m'" and c: "mSockets m' key = Some c" "cl_received c = Some hls"
  shows "\<forall>hl \<in> set hls. serves key hl"
proof -
  obtain c0 h1 h2 hls0 where f: "f key h1 = Inr (hls0, h2)" "c = (SetReceivedHandler hls0 c0)\<lparr>cl_state := READ_STATE\<rparr>"
    using acc own(2) new c(1)
    by (auto simp: acceptConnection_def BeginRead_def Let_def res_bind_Inr_iff split: if_splits)
  then have "hls0 = hls" using c(2) by (simp add: SetReceivedHandler_def)
  then show ?thesis using own(1) f(1) unfolding own_factory_def by blast
qed

lemma accept_calls:
  assumes "mClientFactory m = Some f" and "mSockets m key = None" and "acceptConnection key junk True status sock m = Inr m'"
  shows "\<exists>sk wb. iw_calls (sm_world m') = iw_calls (sm_world m) @ [Recv sk wb]"
  using assms by (auto simp: acceptConnection_def BeginRead_def Let_def res_bind_Inr_iff split: if_splits)

lemma named_alive:
  assumes "run_inv s" and "key \<notin> weak_clients s" and "rs_objects s key = None"
  shows "key \<notin> named s"
proof -
  have "key \<notin> held_clients s" using assms(1,3) by (auto simp: run_inv_def)
  then show ?thesis
    using assms(2) by (cases "rs_sender s") (auto simp: named_def weak_clients_def queued_def held_clients_def)
qed

lemma system_ok:
  assumes step: "system_moves s s'" and inv: "run_inv s" "served s" "own_factory (rs_factory s)" and ok: "traffic_ok s a b"
  shows "still s s' a b"
  using step
proof cases
  case (accept key junk status sock m')
  have w: "sm_world (manager_of s) = rs_world s" "mClientFactory (manager_of s) = Some (rs_factory s)"
      "mSockets (manager_of s) key = None"
    using accept(4) by (simp_all add: manager_of_def)
  have wf: "heap_wf (iw_heap (sm_world (manager_of s)))" using run_inv_wf [OF inv(1)] w(1) by simp
  have f: "good_factory (rs_factory s)" using inv(1) by (simp add: run_inv_def)
  obtain c where c: "mSockets m' key = Some c" "iw_queue (sm_world m') = iw_queue (sm_world (manager_of s))"
      "hp_cells (iw_heap (sm_world (manager_of s))) \<subseteq>\<^sub>m hp_cells (iw_heap (sm_world m'))"
    using accept_effect [OF wf w(2) f w(3) accept(5)] by metis
  have new: "key \<notin> named s" by (rule named_alive [OF inv(1) accept(6,3)])
  have kept: "kept (named s) s s'"
  proof (rule keptI)
    show "served s'" using accept_serves [OF inv(3) w(2,3) accept(5) c(1)] inv(2) accept(1) c(1)
      by (auto simp: served_def split: if_splits)
    show "same_sockets (named s) s s'" using new accept(1) by (auto simp: same_sockets_def)
    show "sends s s' = []" using accept_calls [OF w(2,3) accept(5)] sends_recv [of s' s] accept(1) w(1) by auto
    fix data assume "sender_data (rs_sender s) = Some data"
    then have "data \<in> dom (hp_cells (iw_heap (rs_world s)))"
      using inv(1) store_invD(4) unfolding run_inv_def by blast
    then show "hp_cells (iw_heap (rs_world s')) data = hp_cells (iw_heap (rs_world s)) data"
      using c(3) accept(1) w(1) by (simp add: map_le_def)
  qed (simp add: accept(1))
  show ?thesis by (rule stillI [OF ok inv(2) kept]) (use c(2) accept(1) w(1) in \<open>simp_all add: queued_def\<close>)
next
  case (arrived key c bytes h n)
  obtain m where h: "hp_cells h = (hp_cells (iw_heap (rs_world s)))(mBuffer (cl_buffer c) \<mapsto> m)"
    using arrived(5) by (auto simp: heap_store_def res_bind_Inr_iff split: option.splits)
  have "mBuffer (cl_buffer c) \<noteq> data" if "sender_data (rs_sender s) = Some data" for data
    using inv(1) store_invD(4) that arrived(2) unfolding run_inv_def by blast
  then have "kept UNIV s s'"
    by (intro keptI sends_no_calls) (auto simp: arrived(1) h served_def same_sockets_def)
  then show ?thesis by (rule stillI [OF ok inv(2)]) (simp_all add: arrived(1) queued_def)
next
  case (accept_fault key junk status sock f)
  have "kept UNIV s s'" by (rule kept_same) (simp_all add: accept_fault(1) kill_def)
  then show ?thesis by (rule stillI [OF ok inv(2)]) (simp_all add: accept_fault(1) kill_def queued_def)
next
  case (disconnected key ok')
  have "kept UNIV s s'" by (rule kept_same) (simp_all add: disconnected)
  then show ?thesis by (rule stillI [OF ok inv(2)]) (simp_all add: disconnected queued_def)
next
  case (sent xs key n ys ok')
  have "kept UNIV s s'" by (rule kept_same) (simp_all add: sent)
  then show ?thesis by (rule stillI [OF ok inv(2)]) (simp_all add: sent queued_def)
next
  case (spurious data key)
  have "kept UNIV s s'" by (rule kept_same) (simp_all add: spurious)
  then show ?thesis by (rule stillI [OF ok inv(2)]) (simp_all add: spurious queued_def)
qed

interpretation traffic: invariant_system traffic_init "traffic_step env" traffic_inv
proof unfold_locales
  fix x assume "traffic_init x"
  then show "traffic_inv x"
    using server.inv_init by (auto simp: traffic_init_def traffic_inv_def run_init_def served_def traffic_ok_def queued_def)
next
  fix x y assume inv: "traffic_inv x" and step: "traffic_step env x y"
  have parts: "run_inv (tr_run x)" "own_factory (rs_factory (tr_run x))" "served (tr_run x)"
      "traffic_ok (tr_run x) (tr_answered x) (tr_sent x)" "\<forall>a \<in> set (tr_answered x). packet_wf (snd a)"
    using inv by (simp_all add: traffic_inv_def)
  from step show "traffic_inv y"
  proof cases
    case (works t s')
    have "\<forall>a \<in> set (answers (tr_run x) t s'). packet_wf (snd a)"
      using worker_traffic [OF works(3) parts(1,3), of UNIV] by (auto simp: silent_def)
    then show ?thesis
      using works(1) worker_keeps_inv [OF works(3) parts(1)] worker_ok [OF works(3) parts(1,3,4)] parts(2,5)
      by (auto simp: traffic_inv_def)
  next
    case (sends_on s')
    then show ?thesis
      using sender_keeps_inv [OF sends_on(3) parts(1)] sender_ok [OF sends_on(3) parts(1,3,4)] parts(2,5)
      by (simp add: traffic_inv_def still_def)
  next
    case (around s')
    then show ?thesis
      using system_keeps_inv [OF around(3) parts(1)] system_ok [OF around(3) parts(1,3,2,4)] parts(2,5)
      by (simp add: traffic_inv_def still_def)
  qed
qed


section \<open>What a client decodes\<close>

lemma subseq_of_map: "subseq xs (map f ys) \<Longrightarrow> \<exists>zs. subseq zs ys \<and> xs = map f zs"
proof (induction ys arbitrary: xs)
  case (Cons y ys)
  show ?case
  proof (cases "subseq xs (map f ys)")
    case True
    then show ?thesis using Cons.IH by blast
  next
    case False
    then obtain xs' where "xs = f y # xs'" "subseq xs' (map f ys)"
      using Cons.prems by (cases xs) (auto split: if_splits)
    then show ?thesis using Cons.IH [of xs'] by (metis list.simps(9) subseq_Cons2)
  qed
qed (auto dest: list_emb_Nil2)

lemma subseq_set:
  assumes "subseq xs ys" and "x \<in> set xs"
  shows "x \<in> set ys"
  using subseq_order.trans [OF _ assms(1), of "[x]"] assms(2) by (simp add: subseq_singleton_left)

lemma decoded_stream:
  assumes "\<forall>a \<in> set xs. packet_wf (snd a)"
  shows "parse_stream (concat (map snd (map on_wire xs))) = (map wire_view (map snd xs), [])"
proof -
  have "packet_wf (snd a) \<and> wire_bytes (snd a) = Inr (snd (on_wire a))" if "a \<in> set xs" for a
    using assms that wire_bytes_eq [of "snd a"] by (auto simp: on_wire_def)
  then have "list_all2 (\<lambda>p bs. packet_wf p \<and> wire_bytes p = Inr bs) (map snd xs) (map snd (map on_wire xs))"
    by (simp add: list_all2_conv_all_nth)
  from parse_stream_wires [OF this, of "[]"] show ?thesis by simp
qed

end
