(* ===== verification/ServerPasses.thy ===== *)
theory ServerPasses
  imports ServerSafety
begin

text \<open>
  What one worker does alone: from the point where it has taken a completion, its small steps are the
  loop body of \<open>workerThread\<close> of Server/ServerManager.cpp as the one function of \<open>ServerManagers\<close>.
\<close>

section \<open>One worker alone\<close>

definition alone_run :: "request_env \<Rightarrow> nat \<Rightarrow> run_state \<Rightarrow> run_state \<Rightarrow> bool" where
  "alone_run env t s s' \<longleftrightarrow> (worker_moves env t)\<^sup>*\<^sup>* s s' \<and> at_point s' t AtPort \<and> rs_port s' = rs_port s \<and> rs_fault s' = None"

lemma at_point_go [simp]: "at_point (go t p s) t q \<longleftrightarrow> t < length (rs_workers s) \<and> p = q"
  by (auto simp: at_point_def go_def)

lemma at_point_here: "at_point s t p \<Longrightarrow> at_point s t q \<longleftrightarrow> q = p"
  by (auto simp: at_point_def)

lemma release_frame:
  "release_client key s = Inr s' \<Longrightarrow> rs_port s' = rs_port s \<and> rs_fault s' = rs_fault s \<and> rs_workers s' = rs_workers s"
  by (auto simp: release_client_def res_bind_Inr_iff split: if_splits option.splits)

lemma kill_frame [simp]: "rs_port (kill f s) = rs_port s" "rs_fault (kill f s) = Some f" "rs_workers (kill f s) = rs_workers s"
  by (simp_all add: kill_def)

lemma worker_port:
  assumes "worker_moves env t s s'"
  shows "rs_port s' = rs_port s \<or> at_point s t AtPort \<and> length (rs_port s') < length (rs_port s)"
  using assms by cases (auto dest: release_frame)

lemma worker_port_mono: "(worker_moves env t)\<^sup>*\<^sup>* s s' \<Longrightarrow> length (rs_port s') \<le> length (rs_port s)"
  by (induction rule: rtranclp_induct) (auto dest!: worker_port)

lemma worker_fault:
  assumes "worker_moves env t s s'" and "rs_fault s' = None"
  shows "rs_fault s = None"
  using assms by cases (auto dest: release_frame split: if_splits)

lemma worker_fault_mono: "(worker_moves env t)\<^sup>*\<^sup>* s s' \<Longrightarrow> rs_fault s' = None \<Longrightarrow> rs_fault s = None"
  by (induction rule: rtranclp_induct) (auto dest: worker_fault)

lemma at_port_takes:
  assumes "worker_moves env t s s'" and "at_point s t AtPort"
  shows "length (rs_port s') < length (rs_port s)"
  using assms by cases (auto simp: at_point_def)

lemma alone_end:
  assumes "at_point s t AtPort"
  shows "alone_run env t s s' \<longleftrightarrow> s' = s \<and> rs_fault s = None"
proof
  assume run: "alone_run env t s s'"
  have "s' = s"
  proof (rule ccontr)
    assume "s' \<noteq> s"
    then obtain s1 where "worker_moves env t s s1" "(worker_moves env t)\<^sup>*\<^sup>* s1 s'"
      using run by (metis alone_run_def converse_rtranclpE)
    then have "length (rs_port s') < length (rs_port s)"
      using at_port_takes [OF _ assms] worker_port_mono by (meson le_less_trans)
    then show False using run by (simp add: alone_run_def)
  qed
  then show "s' = s \<and> rs_fault s = None" using run by (simp add: alone_run_def)
qed (use assms in \<open>simp add: alone_run_def\<close>)

lemma alone_next:
  assumes at: "at_point s t p" and busy: "p \<noteq> AtPort"
  shows "alone_run env t s s' \<longleftrightarrow> (\<exists>s1. worker_moves env t s s1 \<and> rs_fault s1 = None \<and> alone_run env t s1 s')"
proof
  assume run: "alone_run env t s s'"
  then have "s' \<noteq> s" using at busy by (auto simp: alone_run_def at_point_def)
  then obtain s1 where s1: "worker_moves env t s s1" "(worker_moves env t)\<^sup>*\<^sup>* s1 s'"
    using run by (metis alone_run_def converse_rtranclpE)
  have "rs_port s1 = rs_port s" using worker_port [OF s1(1)] at busy by (auto simp: at_point_def)
  then show "\<exists>s1. worker_moves env t s s1 \<and> rs_fault s1 = None \<and> alone_run env t s1 s'"
    using s1 run worker_fault_mono [OF s1(2)] by (auto simp: alone_run_def)
next
  assume "\<exists>s1. worker_moves env t s s1 \<and> rs_fault s1 = None \<and> alone_run env t s1 s'"
  then obtain s1 where s1: "worker_moves env t s s1" "alone_run env t s1 s'" by blast
  have "rs_port s1 = rs_port s" using worker_port [OF s1(1)] at busy by (auto simp: at_point_def)
  then show "alone_run env t s s'" using s1 by (auto simp: alone_run_def converse_rtranclp_into_rtranclp)
qed

text \<open>What the worker does next, point by point.\<close>

lemma moves_test:
  assumes "at_point s t (Completed ok n key)"
  shows "worker_moves env t s s1 \<longleftrightarrow> s1 = go t (if key \<noteq> 0 \<and> key \<in> rs_sockets s then Tested ok n key else AtPort) s"
  by (subst worker_moves.simps) (auto simp: at_point_here [OF assms])

lemma moves_fetch:
  assumes "at_point s t (Tested ok n key)" and "key \<in> rs_sockets s"
  shows "worker_moves env t s s1 \<longleftrightarrow> s1 = go t (Holding ok n key) s"
  by (subst worker_moves.simps) (auto simp: at_point_here [OF assms(1)] assms(2))

lemma moves_closed:
  assumes "at_point s t (Holding ok n key)" and "\<not> ok \<or> n = 0"
  shows "worker_moves env t s s1 \<longleftrightarrow> s1 = go t (Removing key) s"
  using assms(2) by (subst worker_moves.simps) (auto simp: at_point_here [OF assms(1)])

lemma moves_remove:
  assumes "at_point s t (Removing key)"
  shows "worker_moves env t s s1 \<longleftrightarrow> s1 = go t (Releasing key) (s\<lparr>rs_sockets := rs_sockets s - {key}\<rparr>)"
  by (subst worker_moves.simps) (auto simp: at_point_here [OF assms])

lemma moves_release:
  assumes "at_point s t (Releasing key)"
  shows "worker_moves env t s s1 \<longleftrightarrow> release_client key (go t AtPort s) = Inr s1"
  by (subst worker_moves.simps) (auto simp: at_point_here [OF assms])

lemma moves_read:
  assumes "at_point s t (Holding ok n key)" and "ok" "n \<noteq> 0" and "rs_objects s key = Some c" and "cl_state c = READ_STATE"
  shows "worker_moves env t s s1 \<longleftrightarrow>
    (\<exists>junk r. CompleteRead env junk (ucast n) c (rs_world s) = Some r \<and>
      (case r of Inr (c1, w1) \<Rightarrow> s1 = go t (Rearming key) (put_client key c1 w1 s)
       | Inl f \<Rightarrow> s1 = (if f = RuntimeError then go t (Removing key) s else kill f s)))" (is "?l \<longleftrightarrow> ?r")
proof
  assume ?l
  then show ?r using assms(2-5) by cases (force simp: at_point_here [OF assms(1)])+
next
  assume ?r
  then obtain junk r where r: "CompleteRead env junk (ucast n) c (rs_world s) = Some r"
      "case r of Inr (c1, w1) \<Rightarrow> s1 = go t (Rearming key) (put_client key c1 w1 s)
       | Inl f \<Rightarrow> s1 = (if f = RuntimeError then go t (Removing key) s else kill f s)" by blast
  show ?l
  proof (cases r)
    case (Inl f)
    then show ?thesis using worker_moves.read_fault [OF assms(1-5), of env junk f] r by simp
  next
    case (Inr x)
    then show ?thesis using worker_moves.read_done [OF assms(1-5), of env junk "fst x" "snd x"] r
      by (cases x) simp
  qed
qed

lemma moves_send:
  assumes "at_point s t (Holding ok n key)" and "ok" "n \<noteq> 0" and "rs_objects s key = Some c" and "cl_state c = SEND_STATE"
  shows "worker_moves env t s s1 \<longleftrightarrow>
    (\<exists>junk. case CompleteSend junk c (rs_world s) of
         Inr (c1, w1) \<Rightarrow> s1 = go t (Again key) (put_client key c1 w1 s)
       | Inl f \<Rightarrow> s1 = (if f = RuntimeError then go t (Removing key) s else kill f s))" (is "?l \<longleftrightarrow> ?r")
proof
  assume ?l
  then show ?r
  proof cases
    case (send_done ok' n' key' c' junk c1 w1)
    then show ?thesis using assms(4) by (intro exI [of _ junk]) (simp add: at_point_here [OF assms(1)])
  next
    case (send_fault ok' n' key' c' junk f)
    then show ?thesis using assms(4) by (intro exI [of _ junk]) (simp add: at_point_here [OF assms(1)])
  qed (use assms(2-5) in \<open>auto simp: at_point_here [OF assms(1)]\<close>)
next
  assume ?r
  then obtain junk where r: "case CompleteSend junk c (rs_world s) of
         Inr (c1, w1) \<Rightarrow> s1 = go t (Again key) (put_client key c1 w1 s)
       | Inl f \<Rightarrow> s1 = (if f = RuntimeError then go t (Removing key) s else kill f s)" by blast
  show ?l
  proof (cases "CompleteSend junk c (rs_world s)")
    case (Inl f)
    then show ?thesis using worker_moves.send_fault [OF assms(1-5), of junk f env] r by simp
  next
    case (Inr x)
    then show ?thesis using worker_moves.send_done [OF assms(1-5), of junk "fst x" "snd x" env] r
      by (cases x) simp
  qed
qed

lemma moves_other:
  assumes "at_point s t (Holding ok n key)" and "ok" "n \<noteq> 0" and "rs_objects s key = Some c"
    and "cl_state c \<noteq> READ_STATE" and "cl_state c \<noteq> SEND_STATE"
  shows "worker_moves env t s s1 \<longleftrightarrow> s1 = go t (Again key) s"
proof
  assume "worker_moves env t s s1"
  then show "s1 = go t (Again key) s" using assms(2-6) by cases (auto simp: at_point_here [OF assms(1)])
qed (use worker_moves.other_done [OF assms] in simp)

definition more_recvs :: "addr \<Rightarrow> run_state \<Rightarrow> run_state" where
  "more_recvs key s = s\<lparr>rs_recvs := (rs_recvs s)(key := Suc (rs_recvs s key))\<rparr>"

lemma more_recvs_simps [simp]:
  "rs_objects (more_recvs key s) = rs_objects s" "rs_sockets (more_recvs key s) = rs_sockets s"
  "rs_world (more_recvs key s) = rs_world s" "rs_sender (more_recvs key s) = rs_sender s"
  "rs_workers (more_recvs key s) = rs_workers s" "rs_fault (more_recvs key s) = rs_fault s"
  "rs_port (more_recvs key s) = rs_port s" "rs_sends (more_recvs key s) = rs_sends s"
  by (simp_all add: more_recvs_def)

lemma moves_begin:
  assumes at: "at_point s t p" and p: "p = Rearming key \<and> q = Again key \<or> p = Again key \<and> q = Notifying key"
    and c: "rs_objects s key = Some c"
  shows "worker_moves env t s s1 \<and> rs_fault s1 = None \<longleftrightarrow> rs_fault s = None \<and>
    (\<exists>status c1 w1. BeginRead status c (rs_world s) = Inr (c1, w1) \<and> s1 = go t q (put_client key c1 w1 (more_recvs key s)))"
    (is "?l \<longleftrightarrow> ?r")
proof
  assume ?l
  then have "worker_moves env t s s1" "rs_fault s1 = None" by simp_all
  then show ?r using p c unfolding more_recvs_def by cases (force simp: at_point_here [OF at])+
next
  assume r: ?r
  then obtain status c1 w1 where b: "BeginRead status c (rs_world s) = Inr (c1, w1)"
      "s1 = go t q (put_client key c1 w1 (more_recvs key s))" by blast
  have "worker_moves env t s s1"
    using p at worker_moves.rearm [of s t key c status c1 w1 env] worker_moves.again [of s t key c status c1 w1 env] b c
    by (auto simp: more_recvs_def)
  then show ?l using r b by (simp add: more_recvs_def)
qed

lemma moves_notify:
  assumes "at_point s t (Notifying key)"
  shows "worker_moves env t s s1 \<longleftrightarrow> s1 = go t (Releasing key) (s\<lparr>rs_sender :=
      (case rs_sender s of ItemWaits data k \<Rightarrow> ItemWoken data k | p \<Rightarrow> p)\<rparr>)"
  by (subst worker_moves.simps) (auto simp: at_point_here [OF assms])

text \<open>From the point where a pointer is to be released, when nobody else keeps the client.\<close>

definition same_pass :: "run_state \<Rightarrow> ServerManager \<Rightarrow> bool" where
  "same_pass s m \<longleftrightarrow> mSockets (manager_of s) = mSockets m \<and> sm_world (manager_of s) = sm_world m"

lemma manager_of_simps [simp]:
  "mSockets (manager_of s) = (\<lambda>k. if k \<in> rs_sockets s then rs_objects s k else None)"
  "sm_world (manager_of s) = rs_world s"
  by (simp_all add: manager_of_def)

lemma alone_release_kept:
  assumes at: "at_point s t (Releasing key)" and ok: "rs_fault s = None" and k: "key \<in> rs_sockets s"
  shows "alone_run env t s s' \<longleftrightarrow> s' = go t AtPort s"
proof -
  have t: "t < length (rs_workers s)" using at by (simp add: at_point_def)
  have r: "release_client key (go t AtPort s) = Inr (go t AtPort s)" using k by (simp add: release_client_def)
  have "at_point (go t AtPort s) t AtPort" using t by simp
  then show ?thesis
    using alone_next [OF at, of env s'] alone_end [of "go t AtPort s" t env s'] ok by (simp add: moves_release [OF at] r)
qed

lemma alone_drop:
  assumes inv: "run_inv s" and at: "at_point s t (Removing key)" and ok: "rs_fault s = None"
    and last: "\<And>p. worker_holds p = None \<Longrightarrow> key \<notin> held_clients (go t p s)"
    and k: "key \<in> rs_sockets s" and c: "rs_objects s key = Some c"
  shows "\<exists>s1 m1. drop_client key c (manager_of s) = Inr m1 \<and> same_pass s1 m1 \<and> rs_fault s1 = None
    \<and> (\<forall>s'. alone_run env t s s' \<longleftrightarrow> s' = s1)"
proof -
  have t: "t < length (rs_workers s)" using at by (simp add: at_point_def)
  obtain h where h: "Client_destroy c (iw_heap (rs_world s)) = Inr h"
    using client_destroy_ok [OF run_inv_client [OF inv c]] by blast
  have k0: "key \<noteq> 0" using inv c store_invD(2) unfolding run_inv_def by blast
  let ?r = "go t (Releasing key) (s\<lparr>rs_sockets := rs_sockets s - {key}\<rparr>)"
  let ?s1 = "(go t AtPort ?r)\<lparr>rs_objects := (rs_objects s)(key := None), rs_world := (rs_world s)\<lparr>iw_heap := h\<rparr>\<rparr>"
  have atr: "at_point ?r t (Releasing key)" using t by simp
  have "held_clients (go t AtPort ?r) = held_clients (go t AtPort s)"
    by (rule held_cong) (simp_all add: go_def)
  then have rel: "release_client key (go t AtPort ?r) = Inr ?s1"
    using last [of AtPort] c h by (simp add: release_client_def)
  have at1: "at_point ?s1 t AtPort" using t by (simp add: at_point_def go_def)
  have e1: "alone_run env t s s' \<longleftrightarrow> alone_run env t ?r s'" for s'
    using alone_next [OF at, of env s'] ok by (simp add: moves_remove [OF at])
  have e2: "alone_run env t ?r s' \<longleftrightarrow> alone_run env t ?s1 s'" for s'
    using alone_next [OF atr, of env s'] ok by (simp add: moves_release [OF atr] rel)
  have e3: "alone_run env t ?s1 s' \<longleftrightarrow> s' = ?s1" for s'
    using alone_end [OF at1, of env s'] ok by simp
  let ?m = "(manager_of s)\<lparr>mSockets := (mSockets (manager_of s))(key := None), sm_world := (rs_world s)\<lparr>iw_heap := h\<rparr>\<rparr>"
  have "drop_client key c (manager_of s) = Inr ?m"
    using k c k0 h by (simp add: drop_client_def removeConnection_def Let_def)
  moreover have "same_pass ?s1 ?m" by (auto simp: same_pass_def fun_eq_iff)
  ultimately show ?thesis using e1 e2 e3 ok by (intro exI [of _ ?s1] exI [of _ ?m]) simp
qed

lemma alone_begin:
  assumes at: "at_point s t p" and p: "p = Rearming key \<and> q = Again key \<or> p = Again key \<and> q = Notifying key"
    and c: "rs_objects s key = Some c" and ok: "rs_fault s = None"
  shows "alone_run env t s s' \<longleftrightarrow> (\<exists>st c1 w1. BeginRead st c (rs_world s) = Inr (c1, w1)
    \<and> alone_run env t (go t q (put_client key c1 w1 (more_recvs key s))) s')"
proof -
  have "alone_run env t s s' \<longleftrightarrow> (\<exists>s1. (worker_moves env t s s1 \<and> rs_fault s1 = None) \<and> alone_run env t s1 s')"
    using alone_next [OF at, of env s'] p by auto
  then show ?thesis unfolding moves_begin [OF at p c] using ok by blast
qed

text \<open>The two last calls of a pass: read again, notify, and go back to the port.\<close>

lemma alone_again:
  assumes at: "at_point s t (Again key)" and ok: "rs_fault s = None" and k: "key \<in> rs_sockets s"
    and c: "rs_objects s key = Some c"
  shows "(\<exists>s'. alone_run env t s s' \<and> mSockets (manager_of s') = ms \<and> rs_world s' = w) \<longleftrightarrow>
    (\<exists>st c1. BeginRead st c (rs_world s) = Inr (c1, w) \<and> ms = (mSockets (manager_of s))(key \<mapsto> c1))"
proof -
  have t: "t < length (rs_workers s)" using at by (simp add: at_point_def)
  let ?b = "\<lambda>c1 w1. go t (Notifying key) (put_client key c1 w1 (more_recvs key s))"
  let ?n = "\<lambda>c1 w1. go t (Releasing key) ((?b c1 w1)\<lparr>rs_sender :=
      (case rs_sender (?b c1 w1) of ItemWaits data k \<Rightarrow> ItemWoken data k | p \<Rightarrow> p)\<rparr>)"
  note next1 = alone_begin [where q = "Notifying key", OF at _ c ok, simplified]
  have next2: "alone_run env t (?b c1 w1) s' \<longleftrightarrow> s' = go t AtPort (?n c1 w1)" for c1 w1 s'
  proof -
    have atb: "at_point (?b c1 w1) t (Notifying key)" using t by simp
    have atn: "at_point (?n c1 w1) t (Releasing key)" using t by simp
    have "alone_run env t (?b c1 w1) s' \<longleftrightarrow> alone_run env t (?n c1 w1) s'"
      using alone_next [OF atb, of env s'] ok by (simp add: moves_notify [OF atb])
    then show ?thesis using alone_release_kept [OF atn, of env s'] ok k by simp
  qed
  have m: "mSockets (manager_of (go t AtPort (?n c1 w1))) = (mSockets (manager_of s))(key \<mapsto> c1)"
    "rs_world (go t AtPort (?n c1 w1)) = w1" for c1 w1
    using k by (auto simp: fun_eq_iff)
  have "(\<exists>s'. alone_run env t s s' \<and> mSockets (manager_of s') = ms \<and> rs_world s' = w) \<longleftrightarrow>
    (\<exists>st c1 w1. BeginRead st c (rs_world s) = Inr (c1, w1) \<and> mSockets (manager_of (go t AtPort (?n c1 w1))) = ms
       \<and> rs_world (go t AtPort (?n c1 w1)) = w)"
    unfolding next1 next2 by blast
  then show ?thesis unfolding m by (auto simp del: manager_of_simps)
qed

text \<open>A pass over a completion that is not the end of its connection, once the pointer is held.\<close>

lemma pass_live:
  assumes "key \<noteq> 0" and "key \<in> rs_sockets s" and "rs_objects s key = Some c" and "n \<noteq> 0"
  shows "(\<exists>m'. worker_pass env junk st1 st2 True n key (manager_of s) = Some (Inr m') \<and> mSockets m' = ms \<and> sm_world m' = w)
    \<longleftrightarrow> (\<exists>r. BeginIOEvent env junk st1 n c (rs_world s) = Some r \<and>
        (case r of
           Inr (c1, w1) \<Rightarrow> \<exists>c2. BeginRead st2 c1 w1 = Inr (c2, w) \<and> ms = (mSockets (manager_of s))(key \<mapsto> c2)
         | Inl f \<Rightarrow> f = RuntimeError \<and> (\<exists>m'. drop_client key c (manager_of s) = Inr m' \<and> mSockets m' = ms \<and> sm_world m' = w)))"
proof -
  have v: "isPtrToClientValid key (manager_of s)" "mSockets (manager_of s) key = Some c"
    using assms by (simp_all add: isPtrToClientValid_def)
  have pass: "worker_pass env junk st1 st2 True n key (manager_of s) = map_option (\<lambda>r.
      case res_bind r (\<lambda>(c1, w1). BeginRead st2 c1 w1) of
        Inl f \<Rightarrow> if f = RuntimeError then drop_client key c (manager_of s) else Inl f
      | Inr (c2, w2) \<Rightarrow> Inr ((manager_of s)\<lparr>mSockets := (mSockets (manager_of s))(key \<mapsto> c2), sm_world := w2,
          sm_notified := Suc (sm_notified (manager_of s)), sm_completed := Suc (sm_completed (manager_of s))\<rparr>))
    (BeginIOEvent env junk st1 n c (rs_world s))"
    using assms(4) by (simp add: worker_pass_def v del: manager_of_simps(1))
  have rt: "BeginRead st2 c1 w1 \<noteq> Inl RuntimeError" for c1 w1 by (simp add: BeginRead_def Let_def)
  show ?thesis
  proof (cases "BeginIOEvent env junk st1 n c (rs_world s)")
    case None
    then show ?thesis using assms(4) by (simp add: pass)
  next
    case (Some r)
    show ?thesis
    proof (cases r)
      case (Inl f)
      then show ?thesis using assms(4) Some by (simp add: pass)
    next
      case (Inr x)
      obtain c1 w1 where x: "x = (c1, w1)" by (cases x)
      show ?thesis
      proof (cases "BeginRead st2 c1 w1")
        case (Inl f)
        then have "f \<noteq> RuntimeError" using rt by auto
        then show ?thesis using assms(4) Some Inr x Inl by (simp add: pass)
      next
        case r2: (Inr y)
        then show ?thesis using assms(4) Some Inr x by (cases y) (auto simp: pass simp del: manager_of_simps(1))
      qed
    qed
  qed
qed

lemma ex_sum_case:
  "(\<exists>s. (\<exists>j. case f j of Inr (a, b) \<Rightarrow> R a b s | Inl e \<Rightarrow> e = E \<and> s = s1) \<and> P s \<and> Q s) \<longleftrightarrow>
   (\<exists>j. case f j of Inr (a, b) \<Rightarrow> \<exists>s. R a b s \<and> P s \<and> Q s | Inl e \<Rightarrow> e = E \<and> P s1 \<and> Q s1)"
proof -
  have "(\<exists>s. (case f j of Inr (a, b) \<Rightarrow> R a b s | Inl e \<Rightarrow> e = E \<and> s = s1) \<and> P s \<and> Q s) \<longleftrightarrow>
   (case f j of Inr (a, b) \<Rightarrow> \<exists>s. R a b s \<and> P s \<and> Q s | Inl e \<Rightarrow> e = E \<and> P s1 \<and> Q s1)" for j
    by (cases "f j") auto
  then show ?thesis by blast
qed

text \<open>From the point where a worker is about to read again in \<open>workerThread\<close>.\<close>

lemma alone_from_again:
  assumes s1: "mSockets (manager_of s1) = ms0(key := x)" "key \<in> rs_sockets s1" "rs_fault s1 = None" "t < length (rs_workers s1)"
  shows "(\<exists>s'. alone_run env t (go t (Again key) (put_client key c1 w1 s1)) s' \<and> mSockets (manager_of s') = ms \<and> rs_world s' = w)
    \<longleftrightarrow> (\<exists>st c2. BeginRead st c1 w1 = Inr (c2, w) \<and> ms = ms0(key \<mapsto> c2))"
proof -
  have "mSockets (manager_of (go t p (put_client key c1 w1 s1))) = (mSockets (manager_of s1))(key \<mapsto> c1)" for p
    using s1(2) by (auto simp: fun_eq_iff)
  then show ?thesis
    using alone_again [of "go t (Again key) (put_client key c1 w1 s1)" t key c1 env ms w] s1
    by (simp del: manager_of_simps(1))
qed

text \<open>A completion in the read state: the handlers, the receive in \<open>BeginIOEvent\<close>, the receive in \<open>workerThread\<close>.\<close>

lemma alone_read_done:
  assumes at: "at_point s t (Holding True n key)" and n: "n \<noteq> 0" and ok: "rs_fault s = None"
    and c: "rs_objects s key = Some c" "cl_state c = READ_STATE" and good: "client_ok c (rs_world s)"
  shows "alone_run env t s s' \<longleftrightarrow> (\<exists>junk c1 w1. CompleteRead env junk (ucast n) c (rs_world s) = Some (Inr (c1, w1))
    \<and> alone_run env t (go t (Rearming key) (put_client key c1 w1 s)) s')" (is "_ \<longleftrightarrow> ?rhs")
proof
  let ?a = "\<lambda>c1 w1. go t (Rearming key) (put_client key c1 w1 s)"
  have fault: "f = InvalidParameter" if "CompleteRead env junk (ucast n) c (rs_world s) = Some (Inl f)" for junk f
    using CompleteRead_spec [OF good, of env junk "ucast n"] that by auto
  assume "alone_run env t s s'"
  then obtain s1 where s1: "worker_moves env t s s1" "rs_fault s1 = None" "alone_run env t s1 s'"
    using alone_next [OF at, of env s'] by auto
  obtain junk r where r: "CompleteRead env junk (ucast n) c (rs_world s) = Some r"
      "case r of Inr (c1, w1) \<Rightarrow> s1 = ?a c1 w1
       | Inl f \<Rightarrow> s1 = (if f = RuntimeError then go t (Removing key) s else kill f s)"
    using s1(1) moves_read [OF at TrueI n c, of env s1] by auto
  then show ?rhs using fault s1(2,3) by (cases r) fastforce+
next
  assume ?rhs
  then obtain junk c1 w1 where r: "CompleteRead env junk (ucast n) c (rs_world s) = Some (Inr (c1, w1))"
      "alone_run env t (go t (Rearming key) (put_client key c1 w1 s)) s'" by blast
  have "worker_moves env t s (go t (Rearming key) (put_client key c1 w1 s))" using worker_moves.read_done [OF at TrueI n c r(1)] .
  then show "alone_run env t s s'" using alone_next [OF at, of env s'] r(2) ok by auto
qed

lemma read_event:
  assumes good: "client_ok c w0" and c: "cl_state c = READ_STATE"
  shows "(\<exists>r. BeginIOEvent env junk st1 n c w0 = Some r \<and> (case r of
       Inr (c1, w1) \<Rightarrow> P c1 w1 | Inl f \<Rightarrow> f = RuntimeError \<and> Q)) \<longleftrightarrow>
    (\<exists>c1 w1 c2 w2. CompleteRead env junk (ucast n) c w0 = Some (Inr (c1, w1))
      \<and> BeginRead st1 c1 w1 = Inr (c2, w2) \<and> P c2 w2)"
proof -
  have fault: "f = InvalidParameter" if "CompleteRead env junk (ucast n) c w0 = Some (Inl f)" for f
    using CompleteRead_spec [OF good, of env junk "ucast n"] that by auto
  obtain r0 where r0: "CompleteRead env junk (ucast n) c w0 = Some r0"
    using CompleteRead_spec [OF good, of env junk "ucast n"] by blast
  have e: "BeginIOEvent env junk st1 n c w0 = Some (res_bind r0 (\<lambda>(c1, w1). BeginRead st1 c1 w1))"
    using c by (simp add: BeginIOEvent_def r0)
  show ?thesis
  proof (cases r0)
    case (Inl f)
    then show ?thesis using fault [of f] by (simp add: e r0)
  next
    case (Inr x)
    obtain c1 w1 where x: "x = (c1, w1)" by (cases x)
    show ?thesis
    proof (cases "BeginRead st1 c1 w1")
      case (Inl f)
      then have "f \<noteq> RuntimeError" by (auto simp: BeginRead_def Let_def split: if_splits)
      then show ?thesis by (simp add: e r0 Inr x Inl)
    next
      case r2: (Inr y)
      then show ?thesis by (cases y) (simp add: e r0 Inr x)
    qed
  qed
qed

lemma alone_read:
  assumes inv: "run_inv s" and at: "at_point s t (Holding True n key)" and n: "n \<noteq> 0" and ok: "rs_fault s = None"
    and k: "key \<in> rs_sockets s" and c: "rs_objects s key = Some c" "cl_state c = READ_STATE"
  shows "(\<exists>s'. alone_run env t s s' \<and> mSockets (manager_of s') = ms \<and> rs_world s' = w) \<longleftrightarrow>
    (\<exists>junk st1 st2 m'. worker_pass env junk st1 st2 True n key (manager_of s) = Some (Inr m')
       \<and> mSockets m' = ms \<and> sm_world m' = w)"
proof -
  have t: "t < length (rs_workers s)" using at by (simp add: at_point_def)
  have k0: "key \<noteq> 0" using inv c store_invD(2) unfolding run_inv_def by blast
  note good = run_inv_client [OF inv c(1)]
  let ?a = "\<lambda>c1 w1. go t (Rearming key) (put_client key c1 w1 s)"
  let ?b = "\<lambda>c1 w1 c2 w2. go t (Again key) (put_client key c2 w2 (more_recvs key (?a c1 w1)))"
  have rearmed: "alone_run env t (?a c1 w1) s' \<longleftrightarrow> (\<exists>st c2 w2. BeginRead st c1 w1 = Inr (c2, w2) \<and>
      alone_run env t (?b c1 w1 c2 w2) s')" for c1 w1 s'
    using alone_begin [where q = "Again key" and key = key, of "?a c1 w1" t "Rearming key" c1 env s'] t ok by simp
  have again: "(\<exists>s'. alone_run env t (?b c1 w1 c2 w2) s' \<and> mSockets (manager_of s') = ms \<and> rs_world s' = w)
      \<longleftrightarrow> (\<exists>st c3. BeginRead st c2 w2 = Inr (c3, w) \<and> ms = (mSockets (manager_of s))(key \<mapsto> c3))" for c1 w1 c2 w2
    by (rule alone_from_again) (use t ok k in \<open>auto simp: fun_eq_iff\<close>)
  have "(\<exists>s'. alone_run env t s s' \<and> mSockets (manager_of s') = ms \<and> rs_world s' = w) \<longleftrightarrow>
      (\<exists>junk c1 w1 st1 c2 w2. CompleteRead env junk (ucast n) c (rs_world s) = Some (Inr (c1, w1))
        \<and> BeginRead st1 c1 w1 = Inr (c2, w2)
        \<and> (\<exists>s'. alone_run env t (?b c1 w1 c2 w2) s' \<and> mSockets (manager_of s') = ms \<and> rs_world s' = w))"
    unfolding alone_read_done [OF at n ok c good] rearmed by blast
  then show ?thesis unfolding again pass_live [OF k0 k c(1) n] read_event [OF good c(2)] by blast
qed

text \<open>A completion in the send state.\<close>

lemma alone_send_done:
  assumes at: "at_point s t (Holding True n key)" and n: "n \<noteq> 0" and ok: "rs_fault s = None"
    and c: "rs_objects s key = Some c" "cl_state c = SEND_STATE"
    and drop: "\<And>s'. alone_run env t (go t (Removing key) s) s' \<longleftrightarrow> s' = s1"
  shows "alone_run env t s s' \<longleftrightarrow> (\<exists>junk. case CompleteSend junk c (rs_world s) of
      Inr (c1, w1) \<Rightarrow> alone_run env t (go t (Again key) (put_client key c1 w1 s)) s'
    | Inl f \<Rightarrow> f = RuntimeError \<and> s' = s1)" (is "_ \<longleftrightarrow> ?rhs")
proof
  let ?d = "go t (Removing key) s"
  assume "alone_run env t s s'"
  then obtain s2 where s2: "worker_moves env t s s2" "rs_fault s2 = None" "alone_run env t s2 s'"
    using alone_next [OF at, of env s'] by auto
  then obtain junk where "case CompleteSend junk c (rs_world s) of
     Inr (c1, w1) \<Rightarrow> s2 = go t (Again key) (put_client key c1 w1 s)
   | Inl f \<Rightarrow> s2 = (if f = RuntimeError then go t (Removing key) s else kill f s)"
    using moves_send [OF at TrueI n c, of env s2] by auto
  then show ?rhs using s2(2,3) drop
    by (intro exI [of _ junk]) (auto split: sum.splits if_splits)
next
  assume ?rhs
  then obtain junk where r: "case CompleteSend junk c (rs_world s) of
      Inr (c1, w1) \<Rightarrow> alone_run env t (go t (Again key) (put_client key c1 w1 s)) s'
    | Inl f \<Rightarrow> f = RuntimeError \<and> s' = s1" by blast
  show "alone_run env t s s'"
  proof (cases "CompleteSend junk c (rs_world s)")
    case (Inl f)
    then have "worker_moves env t s (go t (Removing key) s)" using worker_moves.send_fault [OF at TrueI n c, of junk f env] r by simp
    then show ?thesis using alone_next [OF at, of env s'] ok r Inl drop by auto
  next
    case (Inr x)
    obtain c1 w1 where x: "x = (c1, w1)" by (cases x)
    then have "worker_moves env t s (go t (Again key) (put_client key c1 w1 s))"
      using worker_moves.send_done [OF at TrueI n c, of junk c1 w1 env] Inr by simp
    then show ?thesis using alone_next [OF at, of env s'] ok r Inr x by auto
  qed
qed

lemma alone_send:
  assumes inv: "run_inv s" and at: "at_point s t (Holding True n key)" and n: "n \<noteq> 0" and ok: "rs_fault s = None"
    and last: "\<And>p. worker_holds p = None \<Longrightarrow> key \<notin> held_clients (go t p s)"
    and k: "key \<in> rs_sockets s" and c: "rs_objects s key = Some c" "cl_state c = SEND_STATE"
  shows "(\<exists>s'. alone_run env t s s' \<and> mSockets (manager_of s') = ms \<and> rs_world s' = w) \<longleftrightarrow>
    (\<exists>junk st1 st2 m'. worker_pass env junk st1 st2 True n key (manager_of s) = Some (Inr m')
       \<and> mSockets m' = ms \<and> sm_world m' = w)"
proof -
  have t: "t < length (rs_workers s)" using at by (simp add: at_point_def)
  have k0: "key \<noteq> 0" using inv c store_invD(2) unfolding run_inv_def by blast
  let ?d = "go t (Removing key) s"
  have same: "go t p ?d = go t p s" for p by (simp add: go_def)
  have invd: "run_inv ?d" by (rule run_inv_go [OF inv at]) simp
  have mo: "manager_of ?d = manager_of s" by (simp add: manager_of_def cong: if_cong)
  obtain s1 m1 where drop: "drop_client key c (manager_of s) = Inr m1" "same_pass s1 m1"
      "\<And>s'. alone_run env t ?d s' \<longleftrightarrow> s' = s1"
    using alone_drop [OF invd, of t key c env] t ok last k c same mo by auto
  have again: "(\<exists>s'. alone_run env t (go t (Again key) (put_client key c1 w1 s)) s' \<and> mSockets (manager_of s') = ms \<and> rs_world s' = w)
    \<longleftrightarrow> (\<exists>st c2. BeginRead st c1 w1 = Inr (c2, w) \<and> ms = (mSockets (manager_of s))(key \<mapsto> c2))" for c1 w1
    by (rule alone_from_again [of _ _ _ "Some c"]) (use t ok k c in \<open>auto simp: fun_eq_iff\<close>)
  let ?case = "\<lambda>R junk. case CompleteSend junk c (rs_world s) of
      Inr (c1, w1) \<Rightarrow> R c1 w1
    | Inl f \<Rightarrow> f = RuntimeError \<and> mSockets (manager_of s1) = ms \<and> rs_world s1 = w"
  have steps: "(\<exists>m'. worker_pass env junk st1 st2 True n key (manager_of s) = Some (Inr m') \<and> mSockets m' = ms \<and> sm_world m' = w)
    \<longleftrightarrow> ?case (\<lambda>c1 w1. \<exists>c2. BeginRead st2 c1 w1 = Inr (c2, w) \<and> ms = (mSockets (manager_of s))(key \<mapsto> c2)) junk"
    for junk st1 st2
    unfolding pass_live [OF k0 k c(1) n] using c(2) drop(1,2)
    by (cases "CompleteSend junk c (rs_world s)")
      (auto simp: BeginIOEvent_def same_pass_def simp del: manager_of_simps(1))
  have status: "(\<exists>st. ?case (\<lambda>c1 w1. \<exists>c2. BeginRead st c1 w1 = Inr (c2, w) \<and> ms = (mSockets (manager_of s))(key \<mapsto> c2)) junk)
    \<longleftrightarrow> ?case (\<lambda>c1 w1. \<exists>st c2. BeginRead st c1 w1 = Inr (c2, w) \<and> ms = (mSockets (manager_of s))(key \<mapsto> c2)) junk" for junk
    by (cases "CompleteSend junk c (rs_world s)") (auto simp del: manager_of_simps)
  show ?thesis
    by (simp only: alone_send_done [OF at n ok c drop(3)] ex_sum_case again steps status simp_thms)
qed

text \<open>Every kind of event; in any other state nothing is called and the worker reads again.\<close>

lemma alone_event:
  assumes inv: "run_inv s" and at: "at_point s t (Holding True n key)" and n: "n \<noteq> 0" and ok: "rs_fault s = None"
    and last: "\<And>p. worker_holds p = None \<Longrightarrow> key \<notin> held_clients (go t p s)"
    and k: "key \<in> rs_sockets s" and c: "rs_objects s key = Some c"
  shows "(\<exists>s'. alone_run env t s s' \<and> mSockets (manager_of s') = ms \<and> rs_world s' = w) \<longleftrightarrow>
    (\<exists>junk st1 st2 m'. worker_pass env junk st1 st2 True n key (manager_of s) = Some (Inr m')
       \<and> mSockets m' = ms \<and> sm_world m' = w)"
    (is "?l \<longleftrightarrow> ?r")
proof -
  have t: "t < length (rs_workers s)" using at by (simp add: at_point_def)
  have k0: "key \<noteq> 0" using inv c store_invD(2) unfolding run_inv_def by blast
  consider "cl_state c = READ_STATE" | "cl_state c = SEND_STATE" | "cl_state c \<noteq> READ_STATE" "cl_state c \<noteq> SEND_STATE"
    by blast
  then show ?thesis
  proof cases
    case 1
    then show ?thesis by (rule alone_read [OF inv at n ok k c])
  next
    case 2
    show ?thesis by (rule alone_send [OF inv at n ok _ k c 2]) (rule last)
  next
    case 3
    have ata: "at_point (go t (Again key) s) t (Again key)" using t by simp
    have "alone_run env t s s' \<longleftrightarrow> alone_run env t (go t (Again key) s) s'" for s'
      using alone_next [OF at, of env s'] ok by (simp add: moves_other [OF at TrueI n c 3])
    moreover have "manager_of (go t (Again key) s) = manager_of s" by (simp add: manager_of_def cong: if_cong)
    ultimately have "?l \<longleftrightarrow> (\<exists>st c1. BeginRead st c (rs_world s) = Inr (c1, w) \<and> ms = (mSockets (manager_of s))(key \<mapsto> c1))"
      using alone_again [OF ata, of c env ms w] ok k c by (simp del: manager_of_simps(1))
    then show ?thesis unfolding pass_live [OF k0 k c n] using 3 by (simp add: BeginIOEvent_def del: manager_of_simps(1))
  qed
qed

text \<open>A completion that failed or carried nothing: the connection is removed.\<close>

lemma alone_closed:
  assumes inv: "run_inv s" and at: "at_point s t (Holding completed n key)" and ok: "rs_fault s = None"
    and empty: "\<not> (completed \<and> n \<noteq> 0)"
    and last: "\<And>p. worker_holds p = None \<Longrightarrow> key \<notin> held_clients (go t p s)"
    and k: "key \<in> rs_sockets s" and c: "rs_objects s key = Some c"
  shows "(\<exists>s'. alone_run env t s s' \<and> mSockets (manager_of s') = ms \<and> rs_world s' = w) \<longleftrightarrow>
    (\<exists>junk st1 st2 m'. worker_pass env junk st1 st2 completed n key (manager_of s) = Some (Inr m')
       \<and> mSockets m' = ms \<and> sm_world m' = w)"
proof -
  have t: "t < length (rs_workers s)" using at by (simp add: at_point_def)
  have k0: "key \<noteq> 0" using inv c store_invD(2) unfolding run_inv_def by blast
  let ?r = "go t (Removing key) s"
  have same: "go t p ?r = go t p s" for p by (simp add: go_def)
  have mo: "manager_of ?r = manager_of s" by (simp add: manager_of_def cong: if_cong)
  have invr: "run_inv ?r" by (rule run_inv_go [OF inv at]) simp
  obtain s1 m1 where drop: "drop_client key c (manager_of s) = Inr m1" "same_pass s1 m1"
      "\<And>s'. alone_run env t ?r s' \<longleftrightarrow> s' = s1"
    using alone_drop [OF invr, of t key c env] t ok last k c same mo by auto
  have "worker_moves env t s s1 \<longleftrightarrow> s1 = ?r" for s1
    using empty by (subst moves_closed [OF at]) auto
  then have "alone_run env t s s' \<longleftrightarrow> s' = s1" for s'
    using alone_next [OF at, of env s'] ok drop(3) by simp
  moreover have "isPtrToClientValid key (manager_of s)" "mSockets (manager_of s) key = Some c"
    using k0 k c by (auto simp: isPtrToClientValid_def)
  moreover have "\<not> completed \<or> completed \<and> n = 0" using empty by blast
  ultimately show ?thesis using drop(1,2)
    by (simp add: worker_pass_def same_pass_def del: manager_of_simps(1))
qed

section \<open>Properties\<close>


text \<open>A client has connected and sent four bytes, and the first worker has taken the completion.\<close>

lemma completed_reachable:
  "\<exists>s. reachable run_init (run_step env) s \<and> rs_fault s = None \<and> at_point s 0 (Completed True 4 9)
     \<and> 9 \<notin> held_clients s \<and> 9 \<in> rs_sockets s"
proof -
  have inv: "run_inv demo_run0" by (rule server.inv_init [OF demo_run0_init])
  have "\<exists>c w. run_step env demo_run0 (demo_run0\<lparr>rs_objects := (rs_objects demo_run0)(9 \<mapsto> c),
      rs_sockets := insert 9 (rs_sockets demo_run0), rs_world := w,
      rs_recvs := (rs_recvs demo_run0)(9 := Suc (rs_recvs demo_run0 9))\<rparr>)"
    using demo_factory_makes by (rule_tac accept_runs [OF inv, of 9 env]) (auto simp: demo_run0_def weak_clients_def)
  then obtain c w where step1: "run_step env demo_run0 (demo_run0\<lparr>rs_objects := (rs_objects demo_run0)(9 \<mapsto> c),
      rs_sockets := insert 9 (rs_sockets demo_run0), rs_world := w,
      rs_recvs := (rs_recvs demo_run0)(9 := Suc (rs_recvs demo_run0 9))\<rparr>)" (is "run_step env _ ?s1") by blast
  obtain w2 where step2: "run_step env ?s1 (?s1\<lparr>rs_world := w2, rs_recvs := (rs_recvs ?s1)(9 := 0),
      rs_port := rs_port ?s1 @ [(True, 4, 9)]\<rparr>)" (is "run_step env _ ?s2")
    using arrive_runs [OF server.inv_step [OF inv step1], of 9 c 0 4 env] by (auto simp: demo_run0_def)
  let ?s3 = "go 0 (Completed True 4 9) (?s2\<lparr>rs_port := []\<rparr>)"
  have "worker_moves env 0 ?s2 ?s3" by (rule worker_moves.take) (simp_all add: at_point_def demo_run0_def)
  then have step3: "run_step env ?s2 ?s3" unfolding run_step_def by (auto simp: demo_run0_def)
  have "reachable run_init (run_step env) ?s3"
    using server_advance [OF server_advance [OF server_advance [OF demo_run0_reachable step1] step2] step3] .
  then show ?thesis
    by (intro exI [of _ ?s3]) (simp add: demo_run0_def go_def at_point_def held_clients_def)
qed


end
