(* ===== verification/ServerHazards.thy ===== *)
theory ServerHazards
  imports ServerPasses
begin

text \<open>
  Runs of the server of Server/ServerManager.cpp that end badly, step by step: how a client that sends a
  few bytes and disconnects ends the process, or is released while the system still writes to it.
\<close>

section \<open>Steps of a run\<close>

lemma run_worker:
  "(run_step env)\<^sup>*\<^sup>* s0 s \<Longrightarrow> rs_fault s = None \<Longrightarrow> worker_moves env t s s' \<Longrightarrow> (run_step env)\<^sup>*\<^sup>* s0 s'"
  by (erule rtranclp.rtrancl_into_rtrancl) (auto simp: run_step_def)

lemma run_system:
  "(run_step env)\<^sup>*\<^sup>* s0 s \<Longrightarrow> rs_fault s = None \<Longrightarrow> system_moves s s' \<Longrightarrow> (run_step env)\<^sup>*\<^sup>* s0 s'"
  by (erule rtranclp.rtrancl_into_rtrancl) (auto simp: run_step_def)

lemma release_factory: "release_client key s = Inr s' \<Longrightarrow> rs_factory s' = rs_factory s"
  by (auto simp: release_client_def res_bind_Inr_iff split: if_splits option.splits)

lemma step_factory:
  assumes "run_step env s s'"
  shows "rs_factory s' = rs_factory s"
proof -
  consider t where "worker_moves env t s s'" | "sender_moves s s'" | "system_moves s s'" using assms by (auto simp: run_step_def)
  then show ?thesis
  proof cases
    case 1
    then show ?thesis by cases (auto simp: kill_def dest: release_factory)
  next
    case 2
    then show ?thesis by cases (auto simp: kill_def dest: release_factory)
  next
    case 3
    then show ?thesis by cases (simp_all add: kill_def)
  qed
qed

lemma run_factory: "(run_step env)\<^sup>*\<^sup>* s s' \<Longrightarrow> rs_factory s' = rs_factory s"
  by (induction rule: rtranclp_induct) (simp_all add: step_factory)

lemma at_point_workers: "rs_workers s' = rs_workers s \<Longrightarrow> at_point s' t p = at_point s t p"
  by (simp add: at_point_def)

lemma at_point_other [simp]: "t \<noteq> u \<Longrightarrow> at_point (go t p s) u q = at_point s u q"
  by (simp add: at_point_def go_def)

lemma go_go [simp]: "go t p (go t q s) = go t p s"
  by (simp add: go_def)

text \<open>
  A few bytes are no whole packet, so the handlers drop them; but the two calls of \<open>BeginRead\<close> leave the client
  with one receive more than before.
\<close>

lemma short_read:
  assumes ok: "client_ok c w" and n: "ucast n \<noteq> (of_nat sizeof_Packet :: size_t)"
  obtains c1 w1 where "CompleteRead env junk (ucast n) c w = Some (Inr (c1, w1))" and "iw_queue w1 = iw_queue w"
proof -
  obtain msg h1 where msg: "heap_wf h1" "mBuffer msg \<noteq> 0" "length (client_bytes c w) = sizeof_Packet"
      "hp_cells h1 = (hp_cells (iw_heap w))(mBuffer msg \<mapsto> client_bytes c w)"
    and run: "CompleteRead env junk (ucast n) c w = map_option (\<lambda>r. res_bind r (\<lambda>(handlers, (h2, q2)).
        res_bind (Buffer_destroy msg h2) (\<lambda>h3. Inr (c\<lparr>cl_received := handlers\<rparr>, w\<lparr>iw_heap := h3, iw_queue := q2\<rparr>))))
      (case cl_received c of None \<Rightarrow> Some (Inr (None, (h1, iw_queue w)))
       | Some hls \<Rightarrow> map_option (\<lambda>r. res_bind r (\<lambda>(hls', w'). Inr (Some hls', w')))
           (received_handler env hls (client_bytes c w) (ucast n) (h1, iw_queue w)))"
    by (rule CompleteRead_split [OF ok])
  obtain h3 where h3: "Buffer_destroy msg h1 = Inr h3"
    using hp.release_ok [OF msg(1), of "mBuffer msg" "client_bytes c w"] msg(2,4) by (auto simp: Buffer_destroy_def)
  have drop: "received_handler env hls (client_bytes c w) (ucast n) w' = Some (Inr (hls, w'))" for hls w'
    using received_dropped [of "client_bytes c w" "ucast n"] msg(3) n by simp
  show thesis
    using that run h3 drop by (cases "cl_received c") simp_all
qed

lemma message_pass:
  assumes inv: "run_inv s" and ok: "rs_fault s = None" and at: "at_point s t AtPort" and port: "rs_port s = [(True, n, key)]"
    and k: "key \<in> rs_sockets s" and c: "rs_objects s key = Some c" "cl_state c = READ_STATE"
    and n: "n \<noteq> 0" "ucast n \<noteq> (of_nat sizeof_Packet :: size_t)"
  shows "\<exists>s'. (run_step env)\<^sup>*\<^sup>* s s' \<and> rs_recvs s' key = rs_recvs s key + 2 \<and> rs_workers s' = rs_workers s
    \<and> rs_port s' = [] \<and> key \<in> rs_sockets s' \<and> rs_fault s' = None \<and> iw_queue (rs_world s') = iw_queue (rs_world s)
    \<and> rs_sender s' = (case rs_sender s of ItemWaits data k \<Rightarrow> ItemWoken data k | p \<Rightarrow> p)
    \<and> rs_sockets s' = rs_sockets s \<and> rs_sends s' = rs_sends s \<and> (\<forall>k. k \<noteq> key \<longrightarrow> rs_objects s' k = rs_objects s k)"
proof -
  have t: "t < length (rs_workers s)" "rs_workers s ! t = AtPort" using at by (simp_all add: at_point_def)
  have k0: "key \<noteq> 0" using inv c store_invD(2) unfolding run_inv_def by blast
  obtain c1 w1 where r: "CompleteRead env (\<lambda>_. 0) (ucast n) c (rs_world s) = Some (Inr (c1, w1))"
      "iw_queue w1 = iw_queue (rs_world s)"
    using short_read [OF run_inv_client [OF inv c(1)] n(2)] by metis
  have starts: "\<exists>c' w'. BeginRead Pending c w = Inr (c', w') \<and> iw_queue w' = iw_queue w" for c w
    by (simp add: BeginRead_def Let_def)
  obtain c2 w2 where b: "BeginRead Pending c1 w1 = Inr (c2, w2)" "iw_queue w2 = iw_queue w1" using starts by blast
  obtain c3 w3 where b': "BeginRead Pending c2 w2 = Inr (c3, w3)" "iw_queue w3 = iw_queue w2" using starts by blast
  let ?s1 = "go t (Completed True n key) (s\<lparr>rs_port := []\<rparr>)"
  let ?s2 = "go t (Tested True n key) ?s1"
  let ?s3 = "go t (Holding True n key) ?s2"
  let ?s4 = "go t (Rearming key) (put_client key c1 w1 ?s3)"
  let ?s5 = "go t (Again key) (put_client key c2 w2 (more_recvs key ?s4))"
  let ?s6 = "go t (Notifying key) (put_client key c3 w3 (more_recvs key ?s5))"
  let ?s7 = "go t (Releasing key) (?s6\<lparr>rs_sender := (case rs_sender ?s6 of ItemWaits data k \<Rightarrow> ItemWoken data k | p \<Rightarrow> p)\<rparr>)"
  let ?s8 = "go t AtPort ?s7"
  have m1: "worker_moves env t s ?s1" by (rule worker_moves.take [OF at port])
  have m2: "worker_moves env t ?s1 ?s2" using worker_moves.test [of ?s1 t True n key env] t k k0 by simp
  have m3: "worker_moves env t ?s2 ?s3" by (rule worker_moves.fetch) (use t k in simp_all)
  have m4: "worker_moves env t ?s3 ?s4" by (rule worker_moves.read_done) (use t c n r in simp_all)
  have m5: "worker_moves env t ?s4 ?s5" unfolding more_recvs_def by (rule worker_moves.rearm) (use t b in simp_all)
  have m6: "worker_moves env t ?s5 ?s6" unfolding more_recvs_def [of _ ?s5] by (rule worker_moves.again) (use t b' in simp_all)
  have m7: "worker_moves env t ?s6 ?s7" by (rule worker_moves.notify) (use t in simp)
  have "at_point ?s7 t (Releasing key)" using t by simp
  moreover have "release_client key ?s8 = Inr ?s8" unfolding release_client_def using k by simp
  ultimately have m8: "worker_moves env t ?s7 ?s8" by (rule worker_moves.release)
  note run = run_worker [OF _ _ m1] run_worker [OF _ _ m2] run_worker [OF _ _ m3] run_worker [OF _ _ m4]
    run_worker [OF _ _ m5] run_worker [OF _ _ m6] run_worker [OF _ _ m7] run_worker [OF _ _ m8]
  have "(run_step env)\<^sup>*\<^sup>* s ?s8" by (rule run, rule run(7), rule run(6), rule run(5), rule run(4), rule run(3), rule run(2), rule run(1)) (use ok in simp_all)
  moreover have "rs_recvs ?s8 key = rs_recvs s key + 2" by (simp add: more_recvs_def)
  moreover have "rs_workers ?s8 = rs_workers s" using t by (simp add: go_def) (metis list_update_id)
  ultimately show ?thesis using ok k r(2) b(2) b'(2) by (intro exI [of _ ?s8]) simp
qed

section \<open>Two completions of one client\<close>

lemma race_kills:
  assumes ok: "rs_fault s = None" and at: "at_point s t AtPort" "at_point s u AtPort" "t \<noteq> u" and port: "rs_port s = []"
    and k: "key \<noteq> 0" "key \<in> rs_sockets s" and r: "2 \<le> rs_recvs s key"
  shows "\<exists>s'. (run_step env)\<^sup>*\<^sup>* s s' \<and> rs_fault s' = Some Terminate"
proof -
  have t: "t < length (rs_workers s)" "u < length (rs_workers s)" using at by (simp_all add: at_point_def)
  let ?gone = "\<lambda>s. s\<lparr>rs_recvs := (rs_recvs s)(key := rs_recvs s key - 1), rs_port := rs_port s @ [(True, 0, key)]\<rparr>"
  let ?s2 = "?gone (?gone s)"
  let ?s3 = "go t (Completed True 0 key) (?s2\<lparr>rs_port := [(True, 0, key)]\<rparr>)"
  let ?s4 = "go u (Completed True 0 key) (?s3\<lparr>rs_port := []\<rparr>)"
  let ?s5 = "go t (Tested True 0 key) ?s4"
  let ?s6 = "go u (Tested True 0 key) ?s5"
  let ?s7 = "go t (Holding True 0 key) ?s6"
  let ?s8 = "go t (Removing key) ?s7"
  let ?s9 = "go t (Releasing key) (?s8\<lparr>rs_sockets := rs_sockets ?s8 - {key}\<rparr>)"
  have d1: "system_moves s (?gone s)" by (rule system_moves.disconnected) (use r in simp)
  have d2: "system_moves (?gone s) ?s2" by (rule system_moves.disconnected) (use r in simp)
  have m3: "worker_moves env t ?s2 ?s3" by (rule worker_moves.take) (use at port in simp_all)
  have m4: "worker_moves env u ?s3 ?s4" by (rule worker_moves.take) (use at port in simp_all)
  have m5: "worker_moves env t ?s4 ?s5" using worker_moves.test [of ?s4 t True 0 key env] t at(3) k by simp
  have m6: "worker_moves env u ?s5 ?s6" using worker_moves.test [of ?s5 u True 0 key env] t at(3) k by simp
  have m7: "worker_moves env t ?s6 ?s7" by (rule worker_moves.fetch) (use t at(3) k in simp_all)
  have m8: "worker_moves env t ?s7 ?s8" using worker_moves.closed [of ?s7 t True 0 key env] t by simp
  have m9: "worker_moves env t ?s8 ?s9" by (rule worker_moves.remove) (use t in simp)
  have m10: "worker_moves env u ?s9 (kill Terminate ?s9)" 
    using worker_moves.fetch_missing [of ?s9 u True 0 key env] t at(3) by simp
  note run = run_system [OF _ _ d1] run_system [OF _ _ d2] run_worker [OF _ _ m3] run_worker [OF _ _ m4]
    run_worker [OF _ _ m5] run_worker [OF _ _ m6] run_worker [OF _ _ m7] run_worker [OF _ _ m8] run_worker [OF _ _ m9]
    run_worker [OF _ _ m10]
  have "(run_step env)\<^sup>*\<^sup>* s (kill Terminate ?s9)"
    by (rule run(10), rule run(9), rule run(8), rule run(7), rule run(6), rule run(5), rule run(4), rule run(3), rule run(2),
        rule run(1)) (use ok in simp_all)
  then show ?thesis by (intro exI [of _ "kill Terminate ?s9"]) simp
qed

text \<open>A completion with no bytes, taken by one worker while nobody else has a pointer to the client.\<close>

lemma closing_pass:
  assumes inv: "run_inv s" and ok: "rs_fault s = None" and at: "at_point s t AtPort" and port: "rs_port s = [(True, 0, key)]"
    and k: "key \<in> rs_sockets s" "key \<noteq> 0" and free: "key \<notin> held_clients s"
  shows "\<exists>s'. (worker_moves env t)\<^sup>*\<^sup>* s s' \<and> rs_objects s' key = None \<and> key \<notin> rs_sockets s' \<and> rs_recvs s' = rs_recvs s
    \<and> rs_fault s' = None \<and> rs_workers s' = rs_workers s \<and> rs_port s' = [] \<and> rs_sender s' = rs_sender s
    \<and> iw_queue (rs_world s') = iw_queue (rs_world s)"
proof -
  have t: "t < length (rs_workers s)" "rs_workers s ! t = AtPort" using at by (simp_all add: at_point_def)
  let ?s1 = "go t (Completed True 0 key) (s\<lparr>rs_port := []\<rparr>)"
  let ?s2 = "go t (Tested True 0 key) ?s1"
  let ?s3 = "go t (Holding True 0 key) ?s2"
  let ?s4 = "go t (Removing key) ?s3"
  let ?s5 = "go t (Releasing key) (?s4\<lparr>rs_sockets := rs_sockets ?s4 - {key}\<rparr>)"
  have m1: "worker_moves env t s ?s1" by (rule worker_moves.take [OF at port])
  have m2: "worker_moves env t ?s1 ?s2" using worker_moves.test [of ?s1 t True 0 key env] t k by simp
  have m3: "worker_moves env t ?s2 ?s3" using worker_moves.fetch [of ?s2 t True 0 key env] t k by simp
  have m4: "worker_moves env t ?s3 ?s4" using worker_moves.closed [of ?s3 t True 0 key env] t by simp
  have m5: "worker_moves env t ?s4 ?s5" by (rule worker_moves.remove) (use t in simp)
  have at5: "at_point ?s5 t (Releasing key)" using t by simp
  have "run_inv ?s5" by (rule worker_keeps_inv [OF m5 worker_keeps_inv [OF m4 worker_keeps_inv [OF m3
      worker_keeps_inv [OF m2 worker_keeps_inv [OF m1 inv]]]]])
  then obtain s' where s': "release_client key (go t AtPort ?s5) = Inr s'" using release_worker [OF _ at5] by blast
  have m6: "worker_moves env t ?s5 s'" by (rule worker_moves.release [OF at5 s'])
  have ws: "rs_workers (go t AtPort ?s5) = rs_workers s" using t by (simp add: go_def) (metis list_update_id)
  then have "held_clients (go t AtPort ?s5) = held_clients s" by (rule held_cong) simp
  then obtain h where "s' = (go t AtPort ?s5)\<lparr>rs_objects := (rs_objects ?s5)(key := None), rs_world := (rs_world ?s5)\<lparr>iw_heap := h\<rparr>\<rparr>"
    using s' free by (auto simp: release_client_def res_bind_Inr_iff split: option.splits)
  then have "rs_objects s' key = None" "key \<notin> rs_sockets s'" "rs_recvs s' = rs_recvs s" "rs_fault s' = None"
      "rs_workers s' = rs_workers s" "rs_port s' = []" "rs_sender s' = rs_sender s" "iw_queue (rs_world s') = iw_queue (rs_world s)"
    using ok ws by simp_all
  moreover have "(worker_moves env t)\<^sup>*\<^sup>* s s'"
    using m1 m2 m3 m4 m5 m6 by (meson converse_rtranclp_into_rtranclp rtranclp.rtrancl_refl)
  ultimately show ?thesis by blast
qed

lemma workers_run:
  assumes "(worker_moves env t)\<^sup>*\<^sup>* s s'" and "rs_fault s' = None"
  shows "(run_step env)\<^sup>*\<^sup>* s s'"
  using assms
proof (induction rule: converse_rtranclp_induct)
  case (step s s1)
  have "rs_fault s = None"
    by (rule worker_fault_mono [OF converse_rtranclp_into_rtranclp [OF step.hyps(1,2)] step.prems])
  then have "run_step env s s1" using step.hyps(1) by (auto simp: run_step_def)
  then show ?case by (rule converse_rtranclp_into_rtranclp [OF _ step.IH [OF step.prems]])
qed simp

lemma init_workers: "run_init s \<Longrightarrow> i < length (rs_workers s) \<Longrightarrow> at_point s i AtPort"
  unfolding at_point_def run_init_def by (metis nth_mem singletonD subsetD)

text \<open>From any start, a client has connected and sent four bytes, and two receives of it are outstanding.\<close>

lemma short_message_runs:
  assumes init: "run_init s" and some: "rs_workers s \<noteq> []"
    and factory: "\<And>k h. heap_wf h \<Longrightarrow> \<exists>x. rs_factory s k h = Inr x"
  shows "\<exists>s'. (run_step env)\<^sup>*\<^sup>* s s' \<and> rs_recvs s' 9 = 2 \<and> rs_workers s' = rs_workers s \<and> rs_port s' = []
    \<and> 9 \<in> rs_sockets s' \<and> rs_fault s' = None \<and> rs_sender s' = NextItem \<and> iw_queue (rs_world s') = \<lparr> mQueue = [] \<rparr>"
proof -
  have s: "rs_fault s = None" "rs_port s = []" "rs_objects s = Map.empty" "rs_recvs s = (\<lambda>_. 0)" "rs_sender s = NextItem"
    using init by (simp_all add: run_init_def)
  note inv = server.inv_init [OF init]
  have free: "rs_objects s 9 = None" "9 \<notin> weak_clients s" using init by (simp_all add: weak_clients_def run_init_def)
  obtain c w where step1: "run_step env s (s\<lparr>rs_objects := (rs_objects s)(9 \<mapsto> c), rs_sockets := insert 9 (rs_sockets s),
        rs_world := w, rs_recvs := (rs_recvs s)(9 := Suc (rs_recvs s 9))\<rparr>)" (is "run_step env s ?s1")
      and c: "cl_state c = READ_STATE" "iw_queue w = iw_queue (rs_world s)"
    by (rule accept_runs [OF inv s(1) _ free(1) factory free(2), of env]) simp_all
  note inv1 = server.inv_step [OF inv step1]
  obtain w2 where step2: "run_step env ?s1 (?s1\<lparr>rs_world := w2, rs_recvs := (rs_recvs ?s1)(9 := rs_recvs s 9),
      rs_port := rs_port ?s1 @ [(True, 4, 9)]\<rparr>)" (is "run_step env ?s1 ?s2") and w2: "iw_queue w2 = iw_queue w"
    using arrive_runs [OF inv1, of 9 c "rs_recvs s 9" 4 env] s by auto
  note inv2 = server.inv_step [OF inv1 step2]
  have at0: "at_point s 0 AtPort" using init_workers [OF init, of 0] some by simp
  have q: "iw_queue w2 = \<lparr> mQueue = [] \<rparr>" using w2 c(2) init by (simp add: run_init_def)
  obtain s3 where s3: "(run_step env)\<^sup>*\<^sup>* ?s2 s3" "rs_recvs s3 9 = 2" "rs_workers s3 = rs_workers s"
      "rs_port s3 = []" "9 \<in> rs_sockets s3" "rs_fault s3 = None" "rs_sender s3 = NextItem"
      "iw_queue (rs_world s3) = \<lparr> mQueue = [] \<rparr>"
    using message_pass [OF inv2, of 0 4 9 c env] at_point_workers [of ?s2 s] at0 s c(1) q by auto
  moreover have "(run_step env)\<^sup>*\<^sup>* s s3" using step1 step2 s3(1) by (meson converse_rtranclp_into_rtranclp)
  ultimately show ?thesis by blast
qed

text \<open>And it has disconnected, one of the two receives has told so, and the client is gone.\<close>

lemma released_runs:
  assumes init: "run_init s" and some: "rs_workers s \<noteq> []"
    and factory: "\<And>k h. heap_wf h \<Longrightarrow> \<exists>x. rs_factory s k h = Inr x"
  shows "\<exists>s'. (run_step env)\<^sup>*\<^sup>* s s' \<and> rs_objects s' 9 = None \<and> 9 \<notin> rs_sockets s' \<and> rs_recvs s' 9 = 1 \<and> rs_fault s' = None
    \<and> rs_workers s' = rs_workers s \<and> rs_port s' = [] \<and> rs_sender s' = NextItem \<and> iw_queue (rs_world s') = \<lparr> mQueue = [] \<rparr>"
proof -
  obtain s3 where s3: "(run_step env)\<^sup>*\<^sup>* s s3" "rs_recvs s3 9 = 2" "rs_workers s3 = rs_workers s" "rs_port s3 = []"
      "9 \<in> rs_sockets s3" "rs_fault s3 = None" "rs_sender s3 = NextItem" "iw_queue (rs_world s3) = \<lparr> mQueue = [] \<rparr>"
    using short_message_runs [OF init some factory, of env] by auto
  let ?s4 = "s3\<lparr>rs_recvs := (rs_recvs s3)(9 := 1), rs_port := [(True, 0, 9)]\<rparr>"
  have step: "system_moves s3 ?s4" using system_moves.disconnected [of s3 9 True] s3(2,4) by simp
  have inv: "run_inv ?s4"
    using system_keeps_inv [OF step] server.steps_inv [OF s3(1) server.inv_init [OF init]] by blast
  have at: "at_point ?s4 0 AtPort"
    using init_workers [OF init, of 0] some s3(3) at_point_workers [of ?s4 s] by simp
  have "set (rs_workers s3) \<subseteq> {AtPort}" using init s3(3) by (simp add: run_init_def)
  then have "held_clients ?s4 = {}" using s3(7) by (auto simp: held_clients_def)
  then obtain s5 where s5: "(worker_moves env 0)\<^sup>*\<^sup>* ?s4 s5" "rs_objects s5 9 = None" "9 \<notin> rs_sockets s5" "rs_recvs s5 = rs_recvs ?s4"
      "rs_fault s5 = None" "rs_workers s5 = rs_workers s3" "rs_port s5 = []" "rs_sender s5 = NextItem"
      "iw_queue (rs_world s5) = \<lparr> mQueue = [] \<rparr>"
    using closing_pass [OF inv _ at, of 9 env] s3 by auto
  have "(run_step env)\<^sup>*\<^sup>* s ?s4" by (rule run_system [OF s3(1,6) step])
  then have "(run_step env)\<^sup>*\<^sup>* s s5" using workers_run [OF s5(1,5)] by (rule rtranclp_trans)
  then show ?thesis using s5 s3(3) by (intro exI [of _ s5]) simp
qed

text \<open>From the start to the end of the process.\<close>

lemma race_runs:
  assumes init: "run_init s" and two: "2 \<le> length (rs_workers s)"
    and factory: "\<And>k h. heap_wf h \<Longrightarrow> \<exists>x. rs_factory s k h = Inr x"
  shows "\<exists>s'. (run_step env)\<^sup>*\<^sup>* s s' \<and> rs_fault s' = Some Terminate"
proof -
  have some: "rs_workers s \<noteq> []" using two by auto
  obtain s3 where s3: "(run_step env)\<^sup>*\<^sup>* s s3" "rs_recvs s3 9 = 2" "rs_workers s3 = rs_workers s" "rs_port s3 = []"
      "9 \<in> rs_sockets s3" "rs_fault s3 = None"
    using short_message_runs [OF init some factory, of env] by auto
  have "at_point s3 0 AtPort" "at_point s3 1 AtPort"
    using init_workers [OF init] two some s3(3) at_point_workers [of s3 s] by simp_all
  then obtain s4 where "(run_step env)\<^sup>*\<^sup>* s3 s4" "rs_fault s4 = Some Terminate"
    using race_kills [OF s3(6), of 0 1 9 env] s3 by auto
  then show ?thesis using s3(1) by (meson rtranclp_trans)
qed

section \<open>Properties\<close>

text \<open>
  C11. A client that disconnects ends the server. From every start with at least two workers, whatever the
  requests are answered from, there is a run in which a client connects, sends a few bytes and disconnects,
  and the process ends in \<open>terminate\<close>: the message leaves two receives outstanding, both complete with
  no bytes, two workers find the key in the map, one removes it, and the other's \<open>mSockets.at\<close>, which no
  handler encloses, throws.
\<close>

theorem disconnect_race_kills:
  assumes init: "run_init s" and two: "2 \<le> length (rs_workers s)"
    and factory: "\<And>k h. heap_wf h \<Longrightarrow> \<exists>x. rs_factory s k h = Inr x"
  shows "\<exists>s'. (run_step env)\<^sup>*\<^sup>* s s' \<and> rs_fault s' = Some Terminate"
  by (rule race_runs [OF assms])



theorem disconnect_race_kills_witness:
  "\<exists>s'. (run_step demo_env)\<^sup>*\<^sup>* demo_run0 s' \<and> rs_fault s' = Some Terminate"
  using disconnect_race_kills [OF demo_run0_init] demo_factory_makes by (simp add: demo_run0_def)


text \<open>
  C14. A late completion closes the wrong client. A completion says which client it is for by the address of
  the client object, and the map is all that is asked about it. From every start with a worker there is a
  run in which a client is gone and no receive of its address is outstanding, but the completion of its
  last one waits at the port; then a new client is accepted whose object is at the same address, and a
  worker alone, taking the old completion, removes and destroys it, although its own connection is open
  and its own receive has not completed.
\<close>

theorem late_completion_closes_newcomer:
  assumes init: "run_init s" and some: "rs_workers s \<noteq> []"
    and factory: "\<And>k h. heap_wf h \<Longrightarrow> \<exists>x. rs_factory s k h = Inr x"
  shows "\<exists>s0 s1 s2 key t. (run_step env)\<^sup>*\<^sup>* s s0 \<and> rs_objects s0 key = None \<and> rs_recvs s0 key = 0
    \<and> system_moves s0 s1 \<and> rs_objects s1 key \<noteq> None \<and> rs_recvs s1 key = 1
    \<and> (worker_moves env t)\<^sup>*\<^sup>* s1 s2 \<and> rs_objects s2 key = None \<and> key \<notin> rs_sockets s2 \<and> rs_recvs s2 key = 1 \<and> rs_fault s2 = None"
proof -
  obtain s5 where s5: "(run_step env)\<^sup>*\<^sup>* s s5" "rs_objects s5 9 = None" "9 \<notin> rs_sockets s5" "rs_recvs s5 9 = 1"
      "rs_fault s5 = None" "rs_workers s5 = rs_workers s" "rs_port s5 = []" "rs_sender s5 = NextItem"
      "iw_queue (rs_world s5) = \<lparr> mQueue = [] \<rparr>"
    using released_runs [OF init some factory, of env] by blast
  let ?s0 = "s5\<lparr>rs_recvs := (rs_recvs s5)(9 := 0), rs_port := [(True, 0, 9)]\<rparr>"
  have late: "system_moves s5 ?s0" using system_moves.disconnected [of s5 9 True] s5(4,7) by simp
  have run0: "(run_step env)\<^sup>*\<^sup>* s ?s0" by (rule run_system [OF s5(1,5) late])
  note inv0 = server.steps_inv [OF run0 server.inv_init [OF init]]
  have makes: "\<exists>x. rs_factory ?s0 9 h = Inr x" if "heap_wf h" for h
    using factory [OF that] run_factory [OF s5(1)] by simp
  have free: "(9 :: addr) \<noteq> 0" "rs_objects ?s0 9 = None" "9 \<notin> weak_clients ?s0" using s5(2,8,9) by (simp_all add: weak_clients_def)
  obtain c w where acc: "system_moves ?s0 (?s0\<lparr>rs_objects := (rs_objects ?s0)(9 \<mapsto> c),
      rs_sockets := insert 9 (rs_sockets ?s0), rs_world := w, rs_recvs := (rs_recvs ?s0)(9 := Suc (rs_recvs ?s0 9))\<rparr>)"
      (is "system_moves ?s0 ?s1")
    by (rule accept_moves [OF inv0 free(1,2) makes free(3), of 50]) blast+
  have inv1: "run_inv ?s1" by (rule system_keeps_inv [OF acc inv0])
  have ws: "set (rs_workers s5) \<subseteq> {AtPort}" using init s5(6) by (simp add: run_init_def)
  have at: "at_point ?s1 0 AtPort"
    using init_workers [OF init, of 0] some s5(6) at_point_workers [of ?s1 s] by simp
  have "9 \<notin> held_clients ?s1" using ws s5(8) by (auto simp: held_clients_def)
  then obtain s2 where s2: "(worker_moves env 0)\<^sup>*\<^sup>* ?s1 s2" "rs_objects s2 9 = None" "9 \<notin> rs_sockets s2"
      "rs_recvs s2 = rs_recvs ?s1" "rs_fault s2 = None"
    using closing_pass [OF inv1 _ at, of 9 env] s5(5) by auto
  show ?thesis
    using run0 s5(2) acc s2 by (intro exI [of _ ?s0] exI [of _ ?s1] exI [of _ s2] exI [of _ 9] exI [of _ 0]) simp
qed

theorem late_completion_closes_newcomer_witness:
  "\<exists>s1 s2 key t. system_moves s1 s2 \<and> rs_objects s2 key \<noteq> None \<and> (\<exists>s3. (worker_moves demo_env t)\<^sup>*\<^sup>* s2 s3 \<and> rs_objects s3 key = None
    \<and> rs_recvs s3 key = 1 \<and> rs_fault s3 = None \<and> (run_step demo_env)\<^sup>*\<^sup>* demo_run0 s1)"
proof -
  have "rs_workers demo_run0 \<noteq> []" by (simp add: demo_run0_def)
  then show ?thesis
    using late_completion_closes_newcomer [OF demo_run0_init, of demo_env] demo_factory_makes unfolding demo_run0_def by simp blast
qed

end
