(* ===== verification/ServerDelivery.thy ===== *)
theory ServerDelivery
  imports ServerTraffic ServerHazards
begin

text \<open>
  Runs in which the server does what it is for: a client connects and asks for the list of the songs, and
  the whole list reaches it on its own connection. The runs are put together from the passes of the
  threads, as the observer of \<open>ServerTraffic\<close> sees them.
\<close>

section \<open>Runs without traffic\<close>

text \<open>A step that neither answers nor sends.\<close>

definition hushed :: "request_env \<Rightarrow> run_state \<Rightarrow> run_state \<Rightarrow> bool" where
  "hushed env s s' \<longleftrightarrow> rs_fault s = None \<and> sends s s' = []
     \<and> ((\<exists>t. worker_moves env t s s' \<and> answers s t s' = []) \<or> sender_moves s s' \<or> system_moves s s')"

definition watched :: "run_state \<Rightarrow> (socket \<times> Packet) list \<Rightarrow> (socket \<times> byte list) list \<Rightarrow> traffic" where
  "watched s a b = \<lparr> tr_run = s, tr_answered = a, tr_sent = b \<rparr>"

lemma hushed_inv: "(hushed env)\<^sup>*\<^sup>* s s' \<Longrightarrow> run_inv s \<Longrightarrow> run_inv s'"
proof (induction rule: rtranclp_induct)
  case (step s1 s2)
  then show ?case
    using worker_keeps_inv sender_keeps_inv system_keeps_inv unfolding hushed_def by blast
qed simp

lemma hushed_lift: "(hushed env)\<^sup>*\<^sup>* s s' \<Longrightarrow> (traffic_step env)\<^sup>*\<^sup>* (watched s a b) (watched s' a b)"
proof (induction rule: rtranclp_induct)
  case (step s1 s2)
  have "traffic_step env (watched s1 a b) (watched s2 a b)"
    using step.hyps(2) traffic_step.works [of "watched s1 a b" env _ s2] traffic_step.sends_on [of "watched s1 a b" s2 env]
      traffic_step.around [of "watched s1 a b" s2 env]
    by (fastforce simp: hushed_def watched_def)
  then show ?case by (rule rtranclp.rtrancl_into_rtrancl [OF step.IH])
qed simp

lemma sending_lift:
  "rs_fault s = None \<Longrightarrow> sender_moves s s' \<Longrightarrow> traffic_step env (watched s a b) (watched s' a (b @ sends s s'))"
  using traffic_step.sends_on [of "watched s a b" s' env] by (simp add: watched_def)

lemma working_lift:
  "rs_fault s = None \<Longrightarrow> worker_moves env t s s' \<Longrightarrow> sends s s' = [] \<Longrightarrow>
     traffic_step env (watched s a b) (watched s' (a @ answers s t s') b)"
  using traffic_step.works [of "watched s a b" env t s'] by (simp add: watched_def)

lemma hush_worker:
  "(hushed env)\<^sup>*\<^sup>* s0 s \<Longrightarrow> rs_fault s = None \<Longrightarrow> worker_moves env t s s' \<Longrightarrow> queued s' = queued s \<Longrightarrow> sends s s' = [] \<Longrightarrow>
     (hushed env)\<^sup>*\<^sup>* s0 s'"
  by (erule rtranclp.rtrancl_into_rtrancl) (use silentI [of s' s t] in \<open>auto simp: hushed_def silent_def\<close>)

lemma hush_sender:
  "(hushed env)\<^sup>*\<^sup>* s0 s \<Longrightarrow> rs_fault s = None \<Longrightarrow> sender_moves s s' \<Longrightarrow> sends s s' = [] \<Longrightarrow> (hushed env)\<^sup>*\<^sup>* s0 s'"
  by (erule rtranclp.rtrancl_into_rtrancl) (simp add: hushed_def)

lemma hush_system:
  "(hushed env)\<^sup>*\<^sup>* s0 s \<Longrightarrow> rs_fault s = None \<Longrightarrow> system_moves s s' \<Longrightarrow> sends s s' = [] \<Longrightarrow> (hushed env)\<^sup>*\<^sup>* s0 s'"
  by (erule rtranclp.rtrancl_into_rtrancl) (simp add: hushed_def)

section \<open>The two ends of a worker's pass\<close>

lemma pass_to_holding:
  assumes ok: "rs_fault s = None" and at: "at_point s t AtPort" and port: "rs_port s = [(True, n, key)]"
    and k: "key \<in> rs_sockets s" "key \<noteq> 0"
  shows "(hushed env)\<^sup>*\<^sup>* s (go t (Holding True n key) (s\<lparr>rs_port := []\<rparr>))"
proof -
  have t: "t < length (rs_workers s)" using at by (simp add: at_point_def)
  let ?s1 = "go t (Completed True n key) (s\<lparr>rs_port := []\<rparr>)"
  let ?s2 = "go t (Tested True n key) ?s1"
  let ?s3 = "go t (Holding True n key) ?s2"
  have m1: "worker_moves env t s ?s1" by (rule worker_moves.take [OF at port])
  have m2: "worker_moves env t ?s1 ?s2" using worker_moves.test [of ?s1 t True n key env] t k by simp
  have m3: "worker_moves env t ?s2 ?s3" by (rule worker_moves.fetch) (use t k in simp_all)
  have "(hushed env)\<^sup>*\<^sup>* s ?s3"
    by (rule hush_worker [OF hush_worker [OF hush_worker [OF _ _ m1] _ m2] _ m3])
      (use ok in \<open>simp_all add: queued_def sends_def\<close>)
  then show ?thesis by simp
qed

text \<open>How a state \<open>s'\<close> looks to the rest when the worker \<open>t\<close>, about to read again for the client \<open>c\<close>, is back at the port.\<close>

definition back_at_port :: "nat \<Rightarrow> addr \<Rightarrow> Client \<Rightarrow> run_state \<Rightarrow> run_state \<Rightarrow> bool" where
  "back_at_port t key c s s' \<longleftrightarrow> rs_workers s' = (rs_workers s)[t := AtPort] \<and> rs_sockets s' = rs_sockets s
     \<and> rs_objects s' = (rs_objects s)(key \<mapsto> c\<lparr>cl_state := READ_STATE\<rparr>) \<and> rs_port s' = rs_port s
     \<and> rs_sends s' = rs_sends s \<and> rs_factory s' = rs_factory s \<and> rs_recvs s' = (rs_recvs s)(key := Suc (rs_recvs s key))
     \<and> rs_fault s' = None \<and> iw_heap (rs_world s') = iw_heap (rs_world s)
     \<and> queued s' = queued s \<and> rs_sender s' = (case rs_sender s of ItemWaits data k \<Rightarrow> ItemWoken data k | p \<Rightarrow> p)"

lemma pass_from_again:
  assumes ok: "rs_fault s = None" and at: "at_point s t (Again key)" and c: "rs_objects s key = Some c"
    and k: "key \<in> rs_sockets s"
  shows "\<exists>s'. (hushed env)\<^sup>*\<^sup>* s s' \<and> back_at_port t key c s s'"
proof -
  have t: "t < length (rs_workers s)" using at by (simp add: at_point_def)
  let ?c = "c\<lparr>cl_state := READ_STATE\<rparr>" and ?w = "(rs_world s)\<lparr>iw_calls := iw_calls (rs_world s) @ [Recv (cl_socket c) (cl_recv c)]\<rparr>"
  have b: "BeginRead Pending c (rs_world s) = Inr (?c, ?w)" by (simp add: BeginRead_def Let_def)
  let ?s1 = "go t (Notifying key) (put_client key ?c ?w (more_recvs key s))"
  let ?s2 = "go t (Releasing key) (?s1\<lparr>rs_sender := (case rs_sender ?s1 of ItemWaits data k \<Rightarrow> ItemWoken data k | p \<Rightarrow> p)\<rparr>)"
  let ?s3 = "go t AtPort ?s2"
  have m1: "worker_moves env t s ?s1" unfolding more_recvs_def by (rule worker_moves.again [OF at c b])
  have m2: "worker_moves env t ?s1 ?s2" by (rule worker_moves.notify) (use t in simp)
  have "at_point ?s2 t (Releasing key)" using t by simp
  moreover have "release_client key ?s3 = Inr ?s3" unfolding release_client_def using k by simp
  ultimately have m3: "worker_moves env t ?s2 ?s3" by (rule worker_moves.release)
  have "(hushed env)\<^sup>*\<^sup>* s ?s3"
    by (rule hush_worker [OF hush_worker [OF hush_worker [OF _ _ m1] _ m2] _ m3])
      (use ok in \<open>simp_all add: queued_def sends_def\<close>)
  moreover have "back_at_port t key c s ?s3"
    using ok by (simp add: back_at_port_def queued_def more_recvs_def put_client_def go_def)
  ultimately show ?thesis by blast
qed

section \<open>Delivering what is queued\<close>

text \<open>A worker and the sending thread have nothing to do.\<close>

definition calm :: "nat \<Rightarrow> run_state \<Rightarrow> bool" where
  "calm t s \<longleftrightarrow> run_inv s \<and> rs_fault s = None \<and> rs_sender s = NextItem \<and> at_point s t AtPort \<and> rs_port s = []"

text \<open>A client is connected on \<open>sock\<close>, has the handlers \<open>hls\<close>, and the system receives for it.\<close>

definition connected :: "addr \<Rightarrow> socket \<Rightarrow> InputHandler list \<Rightarrow> run_state \<Rightarrow> bool" where
  "connected key sock hls s \<longleftrightarrow> key \<in> rs_sockets s \<and> 0 < rs_recvs s key
     \<and> (\<exists>c. rs_objects s key = Some c \<and> cl_socket c = sock \<and> cl_received c = Some hls \<and> cl_state c = READ_STATE)"

definition at_rest :: "nat \<Rightarrow> addr \<Rightarrow> socket \<Rightarrow> InputHandler list \<Rightarrow> run_state \<Rightarrow> bool" where
  "at_rest t key sock hls s \<longleftrightarrow> calm t s \<and> connected key sock hls s"

text \<open>Nothing but the client at \<open>key\<close> is touched.\<close>

definition same_others :: "addr \<Rightarrow> run_state \<Rightarrow> run_state \<Rightarrow> bool" where
  "same_others key s s' \<longleftrightarrow> rs_factory s' = rs_factory s \<and> (\<forall>k. k \<noteq> key \<longrightarrow>
     rs_objects s' k = rs_objects s k \<and> rs_recvs s' k = rs_recvs s k \<and> (k \<in> rs_sockets s' \<longleftrightarrow> k \<in> rs_sockets s))"

lemma same_others_refl [simp]: "same_others key s s"
  by (simp add: same_others_def)

lemma same_others_trans: "same_others key s1 s2 \<Longrightarrow> same_others key s2 s3 \<Longrightarrow> same_others key s1 s3"
  by (simp add: same_others_def)

lemma connected_others: "same_others key s s' \<Longrightarrow> k \<noteq> key \<Longrightarrow> connected k sock hls s' = connected k sock hls s"
  by (simp add: same_others_def connected_def)


text \<open>The item at the head: the sending thread starts its send, and waits until a worker has handled the completion.\<close>

lemma item_is_started:
  assumes rest: "at_rest t key sock hls s" and q: "queued s = (key, pk) # items" and pk: "packet_wf pk" "pkt_type pk \<noteq> type_val INVALID"
  obtains data c s1 s2 bs where "(hushed env)\<^sup>*\<^sup>* s s1" and "rs_fault s1 = None" and "sender_moves s1 s2"
    and "sends s1 s2 = [on_wire (sock, pk)]" and "queued s2 = items" and "rs_sender s2 = ItemSent data key" and "rs_fault s2 = None"
    and "at_point s2 t AtPort" and "rs_port s2 = []" and "rs_sends s2 = rs_sends s @ [(key, wb_len (cl_send c))]" and "key \<in> rs_sockets s2"
    and "rs_objects s2 key = Some c" and "cl_socket c = sock" and "cl_state c = SEND_STATE" and "wb_buf (cl_send c) = data"
    and "hp_cells (iw_heap (rs_world s2)) data = Some bs" and "unat (wb_len (cl_send c)) = length bs" and "bs \<noteq> []"
    and "run_inv s2" and "cl_received c = Some hls" and "same_others key s s2"
proof -
  obtain c where c: "rs_objects s key = Some c" "cl_socket c = sock" "cl_received c = Some hls"
    using rest by (auto simp: at_rest_def connected_def)
  have inv: "run_inv s" and ok: "rs_fault s = None" and snd: "rs_sender s = NextItem" and at: "at_point s t AtPort"
    and port: "rs_port s = []" and k: "key \<in> rs_sockets s"
    using rest by (simp_all add: at_rest_def calm_def connected_def)
  have wf: "heap_wf (iw_heap (rs_world s))" by (rule run_inv_wf [OF inv])
  obtain data h bs where b: "build_item (\<lambda>_. 0) pk (iw_heap (rs_world s)) = Inr (data, h)" "wire_bytes pk = Inr bs"
      "hp_cells h data = Some bs"
    using build_item_ok [OF wf pk(1), of "\<lambda>_. 0"] by auto
  have pop: "queue_pop (iw_queue (rs_world s)) = Some ((key, pk), \<lparr> mQueue = items \<rparr>)"
    using q by (cases "iw_queue (rs_world s)") (simp add: queued_def queue_pop_def)
  let ?w = "(rs_world s)\<lparr>iw_heap := h, iw_queue := \<lparr> mQueue = items \<rparr>\<rparr>"
  let ?s0 = "s\<lparr>rs_world := ?w, rs_sender := ItemBuilt data (key, pk)\<rparr>"
  let ?s1 = "?s0\<lparr>rs_sender := ItemLocked data (key, pk)\<rparr>"
  let ?c = "c\<lparr>cl_send := \<lparr> wb_len = ucast (wire_size pk), wb_buf = data \<rparr>, cl_state := SEND_STATE\<rparr>"
  let ?w2 = "?w\<lparr>iw_calls := iw_calls ?w @ [Send (cl_socket ?c) (cl_send ?c)]\<rparr>"
  let ?s2 = "put_client key ?c ?w2 (?s1\<lparr>rs_sender := ItemSent data key, rs_sends := rs_sends ?s1 @ [(key, wb_len (cl_send ?c))]\<rparr>)"
  have m0: "sender_moves s ?s0" using sender_moves.build [OF snd pop, of "\<lambda>_. 0" data h] pk(2) b(1) by simp
  have m1: "sender_moves ?s0 ?s1" by (rule sender_moves.lock) (use c in simp_all)
  have bg: "BeginSend Pending data (wire_size pk) c (rs_world ?s1) = Inr (?c, ?w2)" by (simp add: BeginSend_def Let_def)
  have m2: "sender_moves ?s1 ?s2" using sender_moves.begin_send [of ?s1 data "(key, pk)" c Pending ?c ?w2] c(1) bg by simp
  have run: "(hushed env)\<^sup>*\<^sup>* s ?s1"
    by (rule hush_sender [OF hush_sender [OF _ _ m0] _ m1]) (use ok in \<open>simp_all add: sends_def\<close>)
  have len: "unat (ucast (wire_size pk) :: cint) = length bs" "bs \<noteq> []"
    using wire_len [OF pk(1) b(2)] by simp_all
  have sent: "sends ?s1 ?s2 = [on_wire (sock, pk)]"
    using BeginSend_sends [of Pending data pk c ?s1 ?c ?s2 sock] bg pk(1) b c(2) by (simp add: on_wire_def)
  have inv2: "run_inv ?s2"
    by (rule sender_keeps_inv [OF m2 sender_keeps_inv [OF m1 sender_keeps_inv [OF m0 inv]]])
  show thesis
    by (rule that [OF run _ m2 sent _ _ _ _ _ _ _ _ _ _ _ _ _ _ inv2, of data ?c bs])
      (use ok snd at port k c len b(3) in \<open>simp_all add: same_others_def queued_def at_point_def\<close>)
qed

lemma item_is_finished:
  assumes s2: "rs_sender s2 = ItemSent data key" "rs_fault s2 = None" "at_point s2 t AtPort" "rs_port s2 = []"
    "rs_sends s2 = pending @ [(key, wb_len (cl_send c))]" "key \<in> rs_sockets s2"
    and c: "rs_objects s2 key = Some c" "cl_socket c = sock" "cl_state c = SEND_STATE" "wb_buf (cl_send c) = data"
    and bs: "hp_cells (iw_heap (rs_world s2)) data = Some bs" "unat (wb_len (cl_send c)) = length bs" "bs \<noteq> []" and inv: "run_inv s2"
    and hls: "cl_received c = Some hls"
  shows "\<exists>s'. (hushed env)\<^sup>*\<^sup>* s2 s' \<and> at_rest t key sock hls s' \<and> queued s' = queued s2 \<and> same_others key s2 s'"
proof -
  let ?n = "wb_len (cl_send c)"
  have t: "t < length (rs_workers s2)" "rs_workers s2 ! t = AtPort" using s2(3) by (simp_all add: at_point_def)
  have n: "?n \<noteq> 0" using bs(2,3) by auto
  have k0: "key \<noteq> 0" and wf: "heap_wf (iw_heap (rs_world s2))" and sent: "cl_sent c = (\<lambda>_ w. Inr w)"
    using inv c(1) store_invD(1,2) unfolding run_inv_def by blast+
  let ?s3 = "s2\<lparr>rs_sender := ItemWaits data key\<rparr>"
  let ?s4 = "?s3\<lparr>rs_sends := pending, rs_port := [(True, ?n, key)]\<rparr>"
  let ?s5 = "go t (Holding True ?n key) (?s4\<lparr>rs_port := []\<rparr>)"
  have m3: "sender_moves s2 ?s3" by (rule sender_moves.wait [OF s2(1)])
  have m4: "system_moves ?s3 ?s4" using system_moves.sent [of ?s3 pending key ?n "[]" True] s2(4,5) by simp
  have r4: "(hushed env)\<^sup>*\<^sup>* s2 ?s4"
    by (rule hush_system [OF hush_sender [OF _ _ m3] _ m4]) (use s2(2) in \<open>simp_all add: sends_def\<close>)
  have r5: "(hushed env)\<^sup>*\<^sup>* ?s4 ?s5" by (rule pass_to_holding) (use s2 k0 in \<open>simp_all add: at_point_def\<close>)
  obtain h where h: "CompleteSend (\<lambda>_. 0) c (rs_world s2) = Inr (c, (rs_world s2)\<lparr>iw_heap := h\<rparr>)"
      "hp_cells h = hp_cells (iw_heap (rs_world s2))"
    using CompleteSend_spec [OF wf sent, of bs "\<lambda>_. 0"] c(4) bs by auto
  let ?s6 = "go t (Again key) (put_client key c ((rs_world s2)\<lparr>iw_heap := h\<rparr>) ?s5)"
  have m6: "worker_moves env t ?s5 ?s6" by (rule worker_moves.send_done) (use t n c h in simp_all)
  have r6: "(hushed env)\<^sup>*\<^sup>* ?s5 ?s6"
    by (rule hush_worker [OF _ _ m6]) (use s2(2) in \<open>simp_all add: queued_def sends_def\<close>)
  have at6: "at_point ?s6 t (Again key)" using t by simp
  obtain s7 where s7: "(hushed env)\<^sup>*\<^sup>* ?s6 s7" "back_at_port t key c ?s6 s7"
    using pass_from_again [of ?s6 t key c env] at6 s2(2,6) by auto
  note b = s7(2) [unfolded back_at_port_def]
  have snd7: "rs_sender s7 = ItemWoken data key" using b by simp
  let ?s8 = "s7\<lparr>rs_sender := ItemDone data\<rparr>"
  have "release_client key ?s8 = Inr ?s8" unfolding release_client_def using b s2(6) by simp
  then have m8: "sender_moves s7 ?s8" by (rule sender_moves.unlock [OF snd7])
  have "hp_cells (iw_heap (rs_world s7)) data = Some bs" using b h(2) bs(1) by simp
  moreover have run8: "(hushed env)\<^sup>*\<^sup>* s2 ?s8"
    by (rule hush_sender [OF _ _ m8]) (use r4 r5 r6 s7(1) b in \<open>auto simp: sends_def\<close>)
  have inv8: "run_inv ?s8" by (rule hushed_inv [OF run8 inv])
  have "data \<noteq> 0" using inv8 store_invD(4) unfolding run_inv_def by fastforce
  ultimately obtain h9 where h9: "heap_delete data (iw_heap (rs_world ?s8)) = Inr h9"
    using hp.release_ok [OF run_inv_wf [OF inv8], of data bs] by auto
  let ?s9 = "?s8\<lparr>rs_world := (rs_world ?s8)\<lparr>iw_heap := h9\<rparr>, rs_sender := NextItem\<rparr>"
  have m9: "sender_moves ?s8 ?s9" by (rule sender_moves.delete [OF _ h9]) simp
  have run9: "(hushed env)\<^sup>*\<^sup>* s2 ?s9"
    by (rule hush_sender [OF run8 _ m9]) (use b in \<open>simp_all add: sends_def\<close>)
  have "at_rest t key sock hls ?s9"
    using hushed_inv [OF run9 inv] b s2 t c hls by (simp add: at_rest_def calm_def connected_def at_point_def)
  moreover have "queued ?s9 = queued s2" "same_others key s2 ?s9" using b by (simp_all add: queued_def same_others_def)
  ultimately show ?thesis using run9 by blast
qed


lemma item_delivered:
  assumes rest: "at_rest t key sock hls s" and q: "queued s = (key, pk) # items" and pk: "packet_wf pk" "pkt_type pk \<noteq> type_val INVALID"
  shows "\<exists>s'. (traffic_step env)\<^sup>*\<^sup>* (watched s a b) (watched s' a (b @ [on_wire (sock, pk)]))
    \<and> at_rest t key sock hls s' \<and> queued s' = items \<and> same_others key s s'"
proof -
  obtain data c s1 s2 bs where one: "(hushed env)\<^sup>*\<^sup>* s s1" "rs_fault s1 = None" "sender_moves s1 s2"
      "sends s1 s2 = [on_wire (sock, pk)]" "queued s2 = items"
    and two: "rs_sender s2 = ItemSent data key" "rs_fault s2 = None" "at_point s2 t AtPort" "rs_port s2 = []"
      "rs_sends s2 = rs_sends s @ [(key, wb_len (cl_send c))]" "key \<in> rs_sockets s2" "rs_objects s2 key = Some c" "cl_socket c = sock"
      "cl_state c = SEND_STATE" "wb_buf (cl_send c) = data" "hp_cells (iw_heap (rs_world s2)) data = Some bs"
      "unat (wb_len (cl_send c)) = length bs" "bs \<noteq> []" "run_inv s2" "cl_received c = Some hls"
    and others: "same_others key s s2"
    by (rule item_is_started [OF rest q pk, where env = env])
  obtain s3 where three: "(hushed env)\<^sup>*\<^sup>* s2 s3" "at_rest t key sock hls s3" "queued s3 = queued s2" "same_others key s2 s3"
    using item_is_finished [OF two, where env = env] by blast
  have "(traffic_step env)\<^sup>*\<^sup>* (watched s a b) (watched s1 a b)" by (rule hushed_lift [OF one(1)])
  also have "traffic_step env (watched s1 a b) (watched s2 a (b @ [on_wire (sock, pk)]))"
    using sending_lift [OF one(2,3), of env a b] one(4) by simp
  also have "(traffic_step env)\<^sup>*\<^sup>* \<dots> (watched s3 a (b @ [on_wire (sock, pk)]))" by (rule hushed_lift [OF three(1)])
  finally show ?thesis using three(2,3) one(5) same_others_trans [OF others three(4)] by blast
qed

lemma all_delivered:
  assumes "at_rest t key sock hls s" and "queued s = map (Pair key) pks"
    and "\<forall>pk \<in> set pks. packet_wf pk \<and> pkt_type pk \<noteq> type_val INVALID"
  shows "\<exists>s'. (traffic_step env)\<^sup>*\<^sup>* (watched s a b) (watched s' a (b @ map (\<lambda>pk. on_wire (sock, pk)) pks))
    \<and> at_rest t key sock hls s' \<and> queued s' = [] \<and> same_others key s s'"
  using assms
proof (induction pks arbitrary: s b)
  case Nil
  then show ?case by auto
next
  case (Cons pk pks)
  obtain s1 where s1: "(traffic_step env)\<^sup>*\<^sup>* (watched s a b) (watched s1 a (b @ [on_wire (sock, pk)]))"
      "at_rest t key sock hls s1" "queued s1 = map (Pair key) pks" "same_others key s s1"
    using item_delivered [OF Cons.prems(1), of pk "map (Pair key) pks" env a b] Cons.prems(2,3) by auto
  obtain s2 where "(traffic_step env)\<^sup>*\<^sup>* (watched s1 a (b @ [on_wire (sock, pk)]))
        (watched s2 a ((b @ [on_wire (sock, pk)]) @ map (\<lambda>pk. on_wire (sock, pk)) pks))"
      "at_rest t key sock hls s2" "queued s2 = []" "same_others key s1 s2"
    using Cons.IH [OF s1(2,3), of "b @ [on_wire (sock, pk)]"] Cons.prems(3) by auto
  then show ?case using s1(1,4) by (auto intro: rtranclp_trans same_others_trans)
qed

section \<open>Connecting and asking\<close>

text \<open>A client connects on \<open>sock\<close>.\<close>

lemma client_connects:
  assumes calm: "calm t s" and q: "queued s = []" and key: "key \<noteq> 0" "rs_objects s key = None"
    and factory: "\<And>h. heap_wf h \<Longrightarrow> \<exists>x. rs_factory s key h = Inr x"
  obtains s' hls h0 h1 where "(hushed env)\<^sup>*\<^sup>* s s'" and "at_rest t key sock hls s'" and "rs_factory s key h0 = Inr (hls, h1)"
    and "heap_wf h0" and "queued s' = []" and "same_others key s s'"
proof -
  have s: "run_inv s" "rs_fault s = None" "rs_sender s = NextItem" "at_point s t AtPort" "rs_port s = []"
    using calm by (simp_all add: calm_def)
  have weak: "key \<notin> weak_clients s" using s(3) q by (simp add: weak_clients_def queued_def)
  obtain c w hls h0 h1 wb where a: "system_moves s (s\<lparr>rs_objects := (rs_objects s)(key \<mapsto> c), rs_sockets := insert key (rs_sockets s),
      rs_world := w, rs_recvs := (rs_recvs s)(key := Suc (rs_recvs s key))\<rparr>)" (is "system_moves s ?s1")
      "cl_state c = READ_STATE" "cl_socket c = sock" "cl_received c = Some hls" "rs_factory s key h0 = Inr (hls, h1)" "heap_wf h0"
      "iw_queue w = iw_queue (rs_world s)" "iw_calls w = iw_calls (rs_world s) @ [Recv sock wb]"
    by (rule accept_moves [OF s(1) key factory weak, of sock]) blast+
  have run: "(hushed env)\<^sup>*\<^sup>* s ?s1" by (rule hush_system [OF _ s(2) a(1)]) (simp_all add: sends_def a(8))
  have "at_point ?s1 t AtPort" using s(4) at_point_workers [of ?s1 s] by simp
  then have "at_rest t key sock hls ?s1"
    using hushed_inv [OF run s(1)] s a by (simp add: at_rest_def calm_def connected_def)
  then show thesis
    by (rule that [OF run, of hls h0 h1]) (use a q in \<open>simp_all add: queued_def same_others_def\<close>)
qed

lemma calm_init:
  assumes "run_init s" and "rs_workers s \<noteq> []"
  shows "calm 0 s \<and> queued s = [] \<and> rs_objects s = Map.empty"
  using assms server.inv_init [OF assms(1)] init_workers [OF assms(1), of 0]
  by (simp add: run_init_def calm_def queued_def)

text \<open>Its request arrives in one piece, and a worker takes the completion and runs the handlers.\<close>

lemma message_arrives:
  assumes rest: "at_rest t key sock hls s" and c: "rs_objects s key = Some c" and m: "length m = sizeof_Packet"
  obtains s' where "(hushed env)\<^sup>*\<^sup>* s s'" and "at_point s' t (Holding True (of_nat sizeof_Packet) key)" and "run_inv s'"
    and "rs_objects s' = rs_objects s" and "rs_sockets s' = rs_sockets s" and "client_bytes c (rs_world s') = m"
    and "queued s' = queued s" and "rs_fault s' = None" and "rs_sender s' = NextItem" and "rs_port s' = []" and "same_others key s s'"
proof -
  have inv: "run_inv s" and ok: "rs_fault s = None" and k: "key \<in> rs_sockets s" and at: "at_point s t AtPort"
      and port: "rs_port s = []" and snd: "rs_sender s = NextItem" and one: "0 < rs_recvs s key"
    using rest by (simp_all add: at_rest_def calm_def connected_def)
  have k0: "key \<noteq> 0" using inv c store_invD(2) unfolding run_inv_def by blast
  obtain b where b: "hp_cells (iw_heap (rs_world s)) (mBuffer (cl_buffer c)) = Some b" "length b = sizeof_Packet"
    using client_ok_block [OF run_inv_client [OF inv c]] by metis
  obtain h where h: "heap_store (mBuffer (cl_buffer c)) 0 m (iw_heap (rs_world s)) = Inr h"
      "hp_cells h = (hp_cells (iw_heap (rs_world s)))(mBuffer (cl_buffer c) \<mapsto> m)"
    using hp.put_ok [OF run_inv_wf [OF inv] b(1), of 0 m] b(2) m by auto
  let ?n = "of_nat sizeof_Packet :: cint"
  let ?s1 = "s\<lparr>rs_world := (rs_world s)\<lparr>iw_heap := h\<rparr>, rs_recvs := (rs_recvs s)(key := rs_recvs s key - 1),
      rs_port := rs_port s @ [(True, ?n, key)]\<rparr>"
  let ?s2 = "go t (Holding True ?n key) (?s1\<lparr>rs_port := []\<rparr>)"
  have m1: "system_moves s ?s1" by (rule system_moves.arrived [OF c _ m h(1)]) (use one in simp_all)
  have r1: "(hushed env)\<^sup>*\<^sup>* s ?s1" by (rule hush_system [OF _ ok m1]) (simp_all add: sends_def)
  have r2: "(hushed env)\<^sup>*\<^sup>* ?s1 ?s2"
    by (rule pass_to_holding) (use ok at port k k0 in \<open>simp_all add: at_point_def\<close>)
  have run: "(hushed env)\<^sup>*\<^sup>* s ?s2" by (rule rtranclp_trans [OF r1 r2])
  have "at_point ?s2 t (Holding True ?n key)" using at by (simp add: at_point_def go_def)
  then show thesis
    by (rule that [OF run _ hushed_inv [OF run inv]])
      (use ok snd h(2) in \<open>simp_all add: client_bytes_def queued_def same_others_def\<close>)
qed


lemma CompleteRead_handled:
  assumes ok: "client_ok c w" and c: "cl_received c = Some hls"
    and hls: "\<And>h. heap_wf h \<Longrightarrow> \<exists>h' q' pks. received_handler env hls (client_bytes c w) sz (h, iw_queue w) = Some (Inr (hls, (h', q')))
        \<and> mQueue q' = map (Pair key) pks \<and> P pks"
  shows "\<exists>w1 pks. CompleteRead env (\<lambda>_. 0) sz c w = Some (Inr (c, w1)) \<and> iw_calls w1 = iw_calls w
    \<and> mQueue (iw_queue w1) = map (Pair key) pks \<and> P pks"
proof -
  obtain msg h1 where msg: "heap_wf h1" "mBuffer msg \<noteq> 0"
      "hp_cells h1 = (hp_cells (iw_heap w))(mBuffer msg \<mapsto> client_bytes c w)"
    and run: "CompleteRead env (\<lambda>_. 0) sz c w = map_option (\<lambda>r. res_bind r (\<lambda>(handlers, (h2, q2)).
        res_bind (Buffer_destroy msg h2) (\<lambda>h3. Inr (c\<lparr>cl_received := handlers\<rparr>, w\<lparr>iw_heap := h3, iw_queue := q2\<rparr>))))
      (case cl_received c of None \<Rightarrow> Some (Inr (None, (h1, iw_queue w)))
       | Some hls \<Rightarrow> map_option (\<lambda>r. res_bind r (\<lambda>(hls', w'). Inr (Some hls', w')))
           (received_handler env hls (client_bytes c w) sz (h1, iw_queue w)))"
    by (rule CompleteRead_split [OF ok])
  obtain h2 q2 pks where r: "received_handler env hls (client_bytes c w) sz (h1, iw_queue w) = Some (Inr (hls, (h2, q2)))"
      "mQueue q2 = map (Pair key) pks" "P pks"
    using hls [OF msg(1)] by blast
  have finished: "CompleteRead env (\<lambda>_. 0) sz c w = Some (res_bind (Buffer_destroy msg h2)
      (\<lambda>h3. Inr (c\<lparr>cl_received := Some hls\<rparr>, w\<lparr>iw_heap := h3, iw_queue := q2\<rparr>)))"
    using run r(1) c by simp
  obtain h3 where "Buffer_destroy msg h2 = Inr h3"
  proof (cases "Buffer_destroy msg h2")
    case (Inl f)
    then have "f = InvalidParameter" using CompleteRead_spec [OF ok, of env "\<lambda>_. 0" sz] finished by simp
    then show ?thesis using Inl by (simp add: Buffer_destroy_def heap_delete_def split: if_splits option.splits)
  qed
  moreover have "c\<lparr>cl_received := Some hls\<rparr> = c" using c by simp
  ultimately show ?thesis
    using finished r by (intro exI [of _ "w\<lparr>iw_heap := h3, iw_queue := q2\<rparr>"] exI [of _ pks]) simp
qed

lemma handlers_answer:
  assumes at: "at_point s t (Holding True (of_nat sizeof_Packet) key)" and inv: "run_inv s" and ok: "rs_fault s = None"
    and s: "rs_sender s = NextItem" "rs_port s = []" "key \<in> rs_sockets s" "queued s = []"
    and c: "rs_objects s key = Some c" "cl_state c = READ_STATE" "cl_socket c = sock" "cl_received c = Some hls"
    and hls: "\<And>h. heap_wf h \<Longrightarrow> \<exists>h' q' pks. received_handler env hls (client_bytes c (rs_world s)) (of_nat sizeof_Packet)
        (h, iw_queue (rs_world s)) = Some (Inr (hls, (h', q'))) \<and> mQueue q' = map (Pair key) pks \<and> P pks"
  shows "\<exists>s' pks. (traffic_step env)\<^sup>*\<^sup>* (watched s a b) (watched s' (a @ map (Pair sock) pks) b)
    \<and> at_rest t key sock hls s' \<and> queued s' = map (Pair key) pks \<and> P pks \<and> same_others key s s'"
proof -
  have t: "t < length (rs_workers s)" "rs_workers s ! t = Holding True (of_nat sizeof_Packet) key"
    using at by (simp_all add: at_point_def)
  let ?n = "of_nat sizeof_Packet :: cint"
  obtain w1 pks where r: "CompleteRead env (\<lambda>_. 0) (ucast ?n) c (rs_world s) = Some (Inr (c, w1))"
      "iw_calls w1 = iw_calls (rs_world s)" "mQueue (iw_queue w1) = map (Pair key) pks" "P pks"
    using CompleteRead_handled [OF run_inv_client [OF inv c(1)] c(4) hls] by auto
  let ?s1 = "go t (Rearming key) (put_client key c w1 s)"
  have m1: "worker_moves env t s ?s1" by (rule worker_moves.read_done [OF at _ _ c(1,2) r(1)]) simp_all
  have a1: "answers s t ?s1 = map (Pair sock) pks"
    using t c(1,3) s(4) r(3) by (simp add: answers_def asker_def queued_def comp_def)
  let ?c = "c\<lparr>cl_state := READ_STATE\<rparr>" and ?w = "w1\<lparr>iw_calls := iw_calls w1 @ [Recv (cl_socket c) (cl_recv c)]\<rparr>"
  let ?s2 = "go t (Again key) (put_client key ?c ?w (more_recvs key ?s1))"
  have b: "BeginRead Pending c (rs_world ?s1) = Inr (?c, ?w)" by (simp add: BeginRead_def Let_def)
  have m2: "worker_moves env t ?s1 ?s2" unfolding more_recvs_def by (rule worker_moves.rearm [OF _ _ b]) (use t in simp_all)
  have r2: "(hushed env)\<^sup>*\<^sup>* ?s1 ?s2"
    by (rule hush_worker [OF _ _ m2]) (use ok in \<open>simp_all add: queued_def sends_def\<close>)
  have at2: "at_point ?s2 t (Again key)" using t by simp
  obtain s3 where s3: "(hushed env)\<^sup>*\<^sup>* ?s2 s3" "back_at_port t key ?c ?s2 s3"
    using pass_from_again [of ?s2 t key ?c env] at2 ok s(3) by auto
  have run: "(hushed env)\<^sup>*\<^sup>* ?s1 s3" by (rule rtranclp_trans [OF r2 s3(1)])
  have "traffic_step env (watched s a b) (watched ?s1 (a @ map (Pair sock) pks) b)"
    using working_lift [OF ok m1, of a b] a1 r(2) by (simp add: sends_def)
  then have "(traffic_step env)\<^sup>*\<^sup>* (watched s a b) (watched s3 (a @ map (Pair sock) pks) b)"
    using hushed_lift [OF run, of "a @ map (Pair sock) pks" b] by (rule converse_rtranclp_into_rtranclp)
  moreover have "at_rest t key sock hls s3"
    using hushed_inv [OF run worker_keeps_inv [OF m1 inv]] s3(2) s t c
    by (simp add: at_rest_def calm_def connected_def back_at_port_def at_point_def more_recvs_def go_def)
  moreover have "same_others key s s3"
    using s3(2) by (simp add: same_others_def back_at_port_def more_recvs_def)
  moreover have "queued s3 = map (Pair key) pks" using s3(2) r(3) by (simp add: back_at_port_def queued_def)
  ultimately show ?thesis using r(4) by blast
qed


text \<open>
  From the request of a connected client to the whole answer on the wire, for any request its handlers
  answer with packets the sending thread does not skip.
\<close>

lemma request_queued:
  assumes rest: "at_rest t key sock hls s" and q: "queued s = []" and m: "length m = sizeof_Packet"
    and answer: "\<And>h q. heap_wf h \<Longrightarrow> mQueue q = [] \<Longrightarrow>
      \<exists>h' q' pks. received_handler env hls m (of_nat sizeof_Packet) (h, q) = Some (Inr (hls, (h', q')))
        \<and> mQueue q' = map (Pair key) pks \<and> P pks"
  shows "\<exists>s' pks. (traffic_step env)\<^sup>*\<^sup>* (watched s a b) (watched s' (a @ map (Pair sock) pks) b)
    \<and> at_rest t key sock hls s' \<and> queued s' = map (Pair key) pks \<and> same_others key s s' \<and> P pks"
proof -
  obtain c where c: "rs_objects s key = Some c" "cl_socket c = sock" "cl_received c = Some hls" "cl_state c = READ_STATE"
    and k: "key \<in> rs_sockets s"
    using rest by (auto simp: at_rest_def connected_def)
  obtain s2 where s2: "(hushed env)\<^sup>*\<^sup>* s s2" "at_point s2 t (Holding True (of_nat sizeof_Packet) key)" "run_inv s2"
      "rs_objects s2 = rs_objects s" "rs_sockets s2 = rs_sockets s" "client_bytes c (rs_world s2) = m"
      "queued s2 = queued s" "rs_fault s2 = None" "rs_sender s2 = NextItem" "rs_port s2 = []" "same_others key s s2"
    by (rule message_arrives [OF rest c(1) m, of env])
  have here: "\<exists>h' q' pks. received_handler env hls (client_bytes c (rs_world s2)) (of_nat sizeof_Packet)
        (h, iw_queue (rs_world s2)) = Some (Inr (hls, (h', q'))) \<and> mQueue q' = map (Pair key) pks \<and> P pks"
    if "heap_wf h" for h
    using answer [OF that, of "iw_queue (rs_world s2)"] q s2(6,7) by (simp add: queued_def)
  have s2k: "key \<in> rs_sockets s2" "queued s2 = []" "rs_objects s2 key = Some c" using k c(1) q s2(4,5,7) by simp_all
  obtain s3 pks where s3: "(traffic_step env)\<^sup>*\<^sup>* (watched s2 a b) (watched s3 (a @ map (Pair sock) pks) b)"
      "at_rest t key sock hls s3" "queued s3 = map (Pair key) pks" "P pks" "same_others key s2 s3"
    using handlers_answer [OF s2(2,3,8,9,10) s2k c(4,2,3), where P = P and a = a and b = b, OF here] by auto
  have "(traffic_step env)\<^sup>*\<^sup>* (watched s a b) (watched s2 a b)" by (rule hushed_lift [OF s2(1)])
  also note s3(1)
  finally show ?thesis using s3(2-4) same_others_trans [OF s2(11) s3(5)] by blast
qed

lemma request_served:
  assumes rest: "at_rest t key sock hls s" and q: "queued s = []" and m: "length m = sizeof_Packet"
    and answer: "\<And>h q. heap_wf h \<Longrightarrow> mQueue q = [] \<Longrightarrow>
      \<exists>h' q' pks. received_handler env hls m (of_nat sizeof_Packet) (h, q) = Some (Inr (hls, (h', q')))
        \<and> mQueue q' = map (Pair key) pks \<and> P pks"
    and each: "\<And>pks. P pks \<Longrightarrow> \<forall>pk \<in> set pks. packet_wf pk \<and> pkt_type pk \<noteq> type_val INVALID"
  shows "\<exists>s' pks. (traffic_step env)\<^sup>*\<^sup>* (watched s a b)
      (watched s' (a @ map (Pair sock) pks) (b @ map (\<lambda>pk. on_wire (sock, pk)) pks))
    \<and> at_rest t key sock hls s' \<and> queued s' = [] \<and> same_others key s s' \<and> P pks"
proof -
  obtain s3 pks where s3: "(traffic_step env)\<^sup>*\<^sup>* (watched s a b) (watched s3 (a @ map (Pair sock) pks) b)"
      "at_rest t key sock hls s3" "queued s3 = map (Pair key) pks" "same_others key s s3" "P pks"
    using request_queued [where P = P and a = a and b = b, OF rest q m answer] by blast
  obtain s4 where s4: "(traffic_step env)\<^sup>*\<^sup>* (watched s3 (a @ map (Pair sock) pks) b)
      (watched s4 (a @ map (Pair sock) pks) (b @ map (\<lambda>pk. on_wire (sock, pk)) pks))"
      "at_rest t key sock hls s4" "queued s4 = []" "same_others key s3 s4"
    using all_delivered [OF s3(2,3) each [OF s3(5)]] by blast
  show ?thesis
    using rtranclp_trans [OF s3(1) s4(1)] s4(2,3) s3(5) same_others_trans [OF s3(4) s4(4)] by blast
qed

text \<open>Packets on one connection split into what they were.\<close>

lemma decoded_answer:
  assumes "\<forall>pk \<in> set pks. packet_wf pk"
  shows "parse_stream (concat (map snd (map (\<lambda>pk. on_wire (sock, pk)) pks))) = (map wire_view pks, [])"
  using decoded_stream [of "map (Pair sock) pks"] assms by (simp add: comp_def)

text \<open>The same from the start, for the first client that connects.\<close>

lemma request_delivered:
  assumes init: "traffic_init x" and workers: "rs_workers (tr_run x) \<noteq> []" and key: "key \<noteq> 0"
    and makes: "\<And>h. heap_wf h \<Longrightarrow> \<exists>r. rs_factory (tr_run x) key h = Inr r" and m: "length m = sizeof_Packet"
    and answer: "\<And>hls h0 h1 h q. heap_wf h0 \<Longrightarrow> rs_factory (tr_run x) key h0 = Inr (hls, h1) \<Longrightarrow> heap_wf h \<Longrightarrow> mQueue q = [] \<Longrightarrow>
      \<exists>h' q' pks. received_handler env hls m (of_nat sizeof_Packet) (h, q) = Some (Inr (hls, (h', q')))
        \<and> mQueue q' = map (Pair key) pks \<and> P hls pks"
    and each: "\<And>hls pks. P hls pks \<Longrightarrow> \<forall>pk \<in> set pks. packet_wf pk \<and> pkt_type pk \<noteq> type_val INVALID"
  shows "\<exists>y pks hls h0 h1. (traffic_step env)\<^sup>*\<^sup>* x y \<and> heap_wf h0 \<and> rs_factory (tr_run x) key h0 = Inr (hls, h1)
    \<and> tr_answered y = map (Pair sock) pks \<and> tr_sent y = map (\<lambda>pk. on_wire (sock, pk)) pks
    \<and> parse_stream (concat (map snd (tr_sent y))) = (map wire_view pks, []) \<and> P hls pks"
proof -
  let ?s = "tr_run x"
  have x: "x = watched ?s [] []" and start: "run_init ?s" using init by (simp_all add: traffic_init_def watched_def)
  obtain s1 hls h0 h1 where s1: "(hushed env)\<^sup>*\<^sup>* ?s s1" "at_rest 0 key sock hls s1" "rs_factory ?s key h0 = Inr (hls, h1)"
      "heap_wf h0" "queued s1 = []"
    using client_connects [where t = 0 and s = ?s and env = env and sock = sock, OF _ _ key] calm_init [OF start workers] makes
    by metis
  obtain s2 pks where s2: "(traffic_step env)\<^sup>*\<^sup>* (watched s1 [] [])
      (watched s2 (map (Pair sock) pks) (map (\<lambda>pk. on_wire (sock, pk)) pks))" "P hls pks"
    using request_served [OF s1(2,5) m answer [OF s1(4,3)] each [where hls = hls], where a = "[]" and b = "[]"] by auto
  have run: "(traffic_step env)\<^sup>*\<^sup>* x (watched s2 (map (Pair sock) pks) (map (\<lambda>pk. on_wire (sock, pk)) pks))"
    using rtranclp_trans [OF hushed_lift [OF s1(1), of "[]" "[]"] s2(1)] x by simp
  have "parse_stream (concat (map snd (map (\<lambda>pk. on_wire (sock, pk)) pks))) = (map wire_view pks, [])"
    by (rule decoded_answer) (use each [OF s2(2)] in blast)
  then show ?thesis
    using run s1(3,4) s2(2) by (intro exI [of _ "watched s2 (map (Pair sock) pks) (map (\<lambda>pk. on_wire (sock, pk)) pks)"] exI [of _ pks]
      exI [of _ hls] exI [of _ h0] exI [of _ h1]) (simp add: watched_def)
qed

lemma list_delivered:
  assumes init: "traffic_init x" and workers: "rs_workers (tr_run x) \<noteq> []" and key: "key \<noteq> 0"
    and factory: "rs_factory (tr_run x) = (\<lambda>client h. make_handlers dir fs junk cjunk client h)"
    and readable: "\<And>h. heap_wf h \<Longrightarrow> \<exists>r. make_handlers dir fs junk cjunk key h = Inr r"
    and alive: "\<forall>n. re_alive env n"
  shows "\<exists>y pks a st h0 h1. (traffic_step env)\<^sup>*\<^sup>* x y
    \<and> make_handlers dir fs junk cjunk key h0 = Inr ([AudioH a, SettingsH st], h1)
    \<and> tr_answered y = map (Pair sock) pks \<and> tr_sent y = map (\<lambda>pk. on_wire (sock, pk)) pks
    \<and> parse_stream (concat (map snd (tr_sent y))) = (map wire_view pks, [])
    \<and> (\<forall>pk \<in> set pks. pkt_type pk = type_val FILELIST \<and> pkt_id pk = i)
    \<and> map song_key (concat (map songs_in pks)) = map (song_key \<circ> fst) (mFileMap (ah_files a))
    \<and> length pks = max 1 ((length (mFileMap (ah_files a)) + 6) div 7)"
proof -
  let ?P = "\<lambda>hls pks. \<exists>a st. hls = [AudioH a, SettingsH st] \<and> length pks = max 1 ((length (mFileMap (ah_files a)) + 6) div 7)
    \<and> (\<forall>pk \<in> set pks. packet_wf pk \<and> pkt_type pk = type_val FILELIST \<and> pkt_id pk = i)
    \<and> map song_key (concat (map songs_in pks)) = map (song_key \<circ> fst) (mFileMap (ah_files a))"
  have answer: "\<exists>h' q' pks. received_handler env hls (request_image 0 i (type_val FILELIST) (replicate maxPacketSize 0)) (of_nat sizeof_Packet) (h, q)
        = Some (Inr (hls, (h', q'))) \<and> mQueue q' = map (Pair key) pks \<and> ?P hls pks"
    if made: "rs_factory (tr_run x) key h0 = Inr (hls, h1)" and h: "heap_wf h" "mQueue q = []" for hls h0 h1 h q
  proof -
    have mk: "make_handlers dir fs junk cjunk key h0 = Inr (hls, h1)" using made factory by simp
    obtain a st where hls: "hls = [AudioH a, SettingsH st]" using make_handlers_factory [OF mk] by metis
    show ?thesis
      using list_request_handled [OF mk [unfolded hls] h(1) _ alive, of "replicate maxPacketSize 0" i q] hls h(2) by auto
  qed
  have "\<exists>y pks hls h0 h1. (traffic_step env)\<^sup>*\<^sup>* x y \<and> heap_wf h0 \<and> rs_factory (tr_run x) key h0 = Inr (hls, h1)
    \<and> tr_answered y = map (Pair sock) pks \<and> tr_sent y = map (\<lambda>pk. on_wire (sock, pk)) pks
    \<and> parse_stream (concat (map snd (tr_sent y))) = (map wire_view pks, []) \<and> ?P hls pks"
    by (rule request_delivered [OF init workers key _ _ answer]) (use readable factory in auto)
  then obtain y pks hls h0 h1 where y: "(traffic_step env)\<^sup>*\<^sup>* x y" "rs_factory (tr_run x) key h0 = Inr (hls, h1)"
      "tr_answered y = map (Pair sock) pks" "tr_sent y = map (\<lambda>pk. on_wire (sock, pk)) pks"
      "parse_stream (concat (map snd (tr_sent y))) = (map wire_view pks, [])" "?P hls pks"
    by blast
  obtain a st where a: "hls = [AudioH a, SettingsH st]" "length pks = max 1 ((length (mFileMap (ah_files a)) + 6) div 7)"
      "\<forall>pk \<in> set pks. packet_wf pk \<and> pkt_type pk = type_val FILELIST \<and> pkt_id pk = i"
      "map song_key (concat (map songs_in pks)) = map (song_key \<circ> fst) (mFileMap (ah_files a))"
    using y(6) by blast
  have "make_handlers dir fs junk cjunk key h0 = Inr ([AudioH a, SettingsH st], h1)" using y(2) factory a(1) by simp
  then show ?thesis
    using y(1,3,4,5) a(2-4)
    by (intro exI [of _ y] exI [of _ pks] exI [of _ a] exI [of _ st] exI [of _ h0] exI [of _ h1]) simp
qed

definition demo_traffic0 :: traffic where
  "demo_traffic0 = watched demo_run0 [] []"

lemma demo_traffic0_init: "traffic_init demo_traffic0"
  using demo_run0_init make_handlers_own
  by (simp add: traffic_init_def demo_traffic0_def watched_def demo_run0_def demo_factory_fun_def)

lemma traffic_reaches:
  "reachable traffic_init (traffic_step env) x \<Longrightarrow> (traffic_step env)\<^sup>*\<^sup>* x y \<Longrightarrow> reachable traffic_init (traffic_step env) y"
  by (rotate_tac 1, induction rule: rtranclp_induct) (auto intro: reachable.advance)

lemma demo_list_empty:
  "make_handlers (\<lambda>_. []) (\<lambda>_. None) (\<lambda>_ _. 0) (\<lambda>_ _. 0) key h0 = Inr ([AudioH a, SettingsH st], h1) \<Longrightarrow>
     mFileMap (ah_files a) = []"
  by (auto simp: make_handlers_def AudioServerHandler_new_def FileList_new_def populate_def Let_def)

lemma demo_makes: "\<exists>r. make_handlers (\<lambda>_. []) (\<lambda>_. None) (\<lambda>_ _. 0) (\<lambda>_ _. 0) key h = Inr r"
  using demo_factory_makes [of key h] by (simp add: demo_factory_fun_def)

lemma demo_traffic0_simps: "rs_workers (tr_run demo_traffic0) \<noteq> []"
  "rs_factory (tr_run demo_traffic0) = (\<lambda>client h. make_handlers (\<lambda>_. []) (\<lambda>_. None) (\<lambda>_ _. 0) (\<lambda>_ _. 0) client h)"
  "\<forall>n. re_alive demo_env n"
  by (simp_all add: demo_traffic0_def watched_def demo_run0_def demo_factory_fun_def demo_env_def)

text \<open>A folder with one WAV file, which the path in the list names too.\<close>

definition wav_dir :: directory where
  "wav_dir = (\<lambda>_. [(False, demo_name)])"

definition wav_fs :: filesystem where
  "wav_fs = [converter_path music_folder demo_name \<mapsto> demo_file, music_folder @ demo_name \<mapsto> demo_file]"

definition wav_env :: request_env where
  "wav_env = demo_env\<lparr>re_fs := wav_fs\<rparr>"

definition wav_song :: Song where
  "wav_song = \<lparr> SongName = 97 # replicate 63 0, ArtistName = [95, 98] @ replicate 62 0, SongLength = 12 \<rparr>"

definition wav_traffic0 :: traffic where
  "wav_traffic0 = watched (demo_run0\<lparr>rs_factory := (\<lambda>client h. make_handlers wav_dir wav_fs (\<lambda>_ _. 0) (\<lambda>_ _. 0) client h)\<rparr>) [] []"

lemma wav_song_ok: "song_ok wav_song" "song_key wav_song = ([97], [95, 98], 12)"
  by (simp_all add: wav_song_def song_ok_def song_shape_def terminated_def song_key_def c_str_def)

lemma wav_fs_files: "wav_fs (converter_path music_folder demo_name) = Some (header_image demo_header @ replicate 100 9)"
  "wav_fs (music_folder @ demo_name) = Some (header_image demo_header @ replicate 100 9)"
  by (simp_all add: wav_fs_def demo_file_def)

lemma wav_listed:
  assumes "heap_wf h"
  shows "\<exists>a st h' s. make_handlers wav_dir wav_fs (\<lambda>_ _. 0) (\<lambda>_ _. 0) key h = Inr ([AudioH a, SettingsH st], h')
    \<and> mFileMap (ah_files a) = [(s, music_folder @ demo_name)] \<and> song_key s = song_key wav_song"
proof -
  have n: "title_of demo_name = [97]" "artist_of demo_name = [95, 98]" "0 \<notin> set demo_name"
    by (simp_all add: demo_name_def str_lit_def title_of_def artist_of_def)
  obtain s1 where s1: "set_names demo_name (Song_default (\<lambda>_. 0)) = Inr s1" "song_ok s1" "c_str (SongName s1) = [97]"
      "c_str (ArtistName s1) = [95, 98]"
    using set_names_fits [of demo_name "Song_default (\<lambda>_. 0)"] n Song_default_shape by auto
  obtain h3 where h3: "getClassFromFile wav_fs (\<lambda>_. 0) music_folder demo_name (Song_default (\<lambda>_. 0)) h
      = Inr (True, s1\<lparr>SongLength := 12\<rparr>, h3)"
    using getClassFromFile_file [of h wav_fs music_folder demo_name demo_header "replicate 100 9" "\<lambda>_. 0" "Song_default (\<lambda>_. 0)"]
      assms wav_fs_files(1) s1(1) by (auto simp: demo_header_simps)
  have "song_ok (s1\<lparr>SongLength := 12\<rparr>)" using s1(2) by (simp add: song_ok_def song_shape_def)
  then obtain t where t: "Song_copy (\<lambda>_. 0) (s1\<lparr>SongLength := 12\<rparr>) = Inr t" "song_key t = song_key (s1\<lparr>SongLength := 12\<rparr>)"
    using Song_copy_ok by blast
  have "song_key t = song_key wav_song" unfolding wav_song_ok(2) using t(2) s1(3,4) by (simp add: song_key_def)
  then show ?thesis
    using h3 t(1) by (simp add: make_handlers_def AudioServerHandler_new_def FileList_new_def populate_def wav_dir_def Let_def
        song_converter_def song_copier_def)
qed

lemma wav_traffic0_init: "traffic_init wav_traffic0"
  using demo_run0_init make_handlers_own factory_is_good
  by (simp add: traffic_init_def wav_traffic0_def watched_def demo_run0_def run_init_def)

lemma wav_traffic0_simps: "rs_workers (tr_run wav_traffic0) \<noteq> []"
  "rs_factory (tr_run wav_traffic0) = (\<lambda>client h. make_handlers wav_dir (re_fs wav_env) (\<lambda>_ _. 0) (\<lambda>_ _. 0) client h)"
  "\<forall>n. re_alive wav_env n"
  by (simp_all add: wav_traffic0_def watched_def demo_run0_def wav_env_def demo_env_def)

section \<open>Properties\<close>



text \<open>
  A client gets the list it asks for. From every start with a worker, whatever the folder holds that
  the factory can read, there is a run in which a client connects, asks for the list in one message, and
  the whole answer is handed to \<open>WSASend\<close> on its own connection, each packet once its predecessor's send
  has completed: the bytes split into the packets answered, nothing left over, and the songs in them are,
  in order, the songs of the list its handler made.
\<close>

theorem list_request_is_delivered:
  assumes init: "traffic_init x" and workers: "rs_workers (tr_run x) \<noteq> []" and key: "key \<noteq> 0"
    and factory: "rs_factory (tr_run x) = (\<lambda>client h. make_handlers dir fs junk cjunk client h)"
    and readable: "\<And>h. heap_wf h \<Longrightarrow> \<exists>r. make_handlers dir fs junk cjunk key h = Inr r"
    and alive: "\<forall>n. re_alive env n"
  shows "\<exists>y pks a st h0 h1. (traffic_step env)\<^sup>*\<^sup>* x y
    \<and> make_handlers dir fs junk cjunk key h0 = Inr ([AudioH a, SettingsH st], h1)
    \<and> tr_answered y = map (Pair sock) pks \<and> tr_sent y = map (\<lambda>pk. on_wire (sock, pk)) pks
    \<and> parse_stream (concat (map snd (tr_sent y))) = (map wire_view pks, [])
    \<and> (\<forall>pk \<in> set pks. pkt_type pk = type_val FILELIST \<and> pkt_id pk = i)
    \<and> map song_key (concat (map songs_in pks)) = map (song_key \<circ> fst) (mFileMap (ah_files a))
    \<and> length pks = max 1 ((length (mFileMap (ah_files a)) + 6) div 7)"
  by (rule list_delivered [OF assms])

theorem list_request_is_delivered_witness:
  "\<exists>y pk. (traffic_step demo_env)\<^sup>*\<^sup>* demo_traffic0 y \<and> tr_answered y = [(50, pk)] \<and> tr_sent y = [on_wire (50, pk)] \<and> pkt_id pk = 7"
proof -
  have nine: "(9 :: addr) \<noteq> 0" by simp
  obtain y pks a st h0 h1 where y: "(traffic_step demo_env)\<^sup>*\<^sup>* demo_traffic0 y" "tr_answered y = map (Pair 50) pks"
      "tr_sent y = map (\<lambda>pk. on_wire (50, pk)) pks" "length pks = max 1 ((length (mFileMap (ah_files a)) + 6) div 7)"
      "\<forall>pk \<in> set pks. pkt_id pk = 7"
      "make_handlers (\<lambda>_. []) (\<lambda>_. None) (\<lambda>_ _. 0) (\<lambda>_ _. 0) 9 h0 = Inr ([AudioH a, SettingsH st], h1)"
    using list_request_is_delivered [OF demo_traffic0_init demo_traffic0_simps(1) nine demo_traffic0_simps(2) demo_makes
        demo_traffic0_simps(3), where sock = 50 and i = 7]
    by blast
  have "length pks = 1" using y(4) demo_list_empty [OF y(6)] by simp
  then obtain pk where "pks = [pk]" by (auto simp: length_Suc_conv)
  then show ?thesis using y(1,2,3,5) by auto
qed


text \<open>The packets that answer a request for a song, and the handler's answer in the form the run needs.\<close>

definition song_answer :: "request_env \<Rightarrow> waveHeader \<Rightarrow> byte list \<Rightarrow> nat \<Rightarrow> 32 word \<Rightarrow> Packet list \<Rightarrow> bool" where
  "song_answer env wh data sz i pks \<longleftrightarrow> (\<exists>p0 ps. pks = p0 # ps \<and> payload p0 = header_image wh
    \<and> (\<forall>x \<in> set (p0 # ps). packet_wf x \<and> pkt_type x = type_val AUDIO \<and> pkt_id x = i)
    \<and> concat (map payload ps) = take sz (drop 44 data)
        @ map (\<lambda>j. re_junk env (1 + j div 1024) (j mod 1024)) [length data - 44..<sz])"

lemma song_request_answered:
  assumes made: "make_handlers dir (re_fs env) junk cjunk key h0 = Inr (hls, h1)" and song: "song_ok song"
    and listed: "\<And>a st. hls = [AudioH a, SettingsH st] \<Longrightarrow>
        n < length (mFileMap (ah_files a)) \<and> song_key (fst (mFileMap (ah_files a) ! n)) = song_key song
        \<and> (\<forall>j < n. song_key (fst (mFileMap (ah_files a) ! j)) \<noteq> song_key song) \<and> snd (mFileMap (ah_files a) ! n) = path"
    and on_disk: "re_fs env path = Some (header_image wh @ data)"
    and wh: "header_shape wh" "chunk_id wh = RIFF" "wh_format wh = WAVE"
    and alive: "\<forall>k. re_alive env k" and sz: "sz = unat (subchunk2_size wh) - 44"
    and h: "heap_wf h" "mQueue q = []"
  shows "\<exists>h' q' pks. received_handler env hls
        (request_image 132 i (type_val TRACK) (song_image song @ replicate 892 0)) (of_nat sizeof_Packet) (h, q)
      = Some (Inr (hls, (h', q'))) \<and> mQueue q' = map (Pair key) pks \<and> song_answer env wh data sz i pks"
proof -
  obtain a st where hls: "hls = [AudioH a, SettingsH st]" and fac: "factory_handlers a st" and me: "ah_client a = key"
    using make_handlers_factory [OF made] by metis
  note at = listed [OF hls]
  have disk: "re_fs env (snd (mFileMap (ah_files a) ! n)) = Some (header_image wh @ data)" using at on_disk by simp
  show ?thesis
    using song_request_handled [OF fac h(1) song _ _ _ disk wh alive _ sz, of "replicate 892 0" i q] at hls me h(2)
    by (simp only: length_replicate song_answer_def append_Nil) blast
qed

text \<open>
  A client gets the song it asks for. From every start with a worker, for any folder the factory can
  read whose list has the song, at a path that holds a WAV file, there is a run in which a client connects, asks
  for the song in one message, and everything handed to \<open>WSASend\<close>, all on its own connection, splits into
  items with the type AUDIO and the id of the request: first the header of the file, then its data without
  the first 44 bytes, cut or filled up to the length the header gives.
\<close>

theorem song_request_is_delivered:
  assumes init: "traffic_init x" and workers: "rs_workers (tr_run x) \<noteq> []" and key: "key \<noteq> 0"
    and factory: "rs_factory (tr_run x) = (\<lambda>client h. make_handlers dir (re_fs env) junk cjunk client h)"
    and readable: "\<And>h. heap_wf h \<Longrightarrow> \<exists>r. make_handlers dir (re_fs env) junk cjunk key h = Inr r"
    and song: "song_ok song"
    and listed: "\<And>h0 a st h1. heap_wf h0 \<Longrightarrow> make_handlers dir (re_fs env) junk cjunk key h0 = Inr ([AudioH a, SettingsH st], h1) \<Longrightarrow>
        n < length (mFileMap (ah_files a)) \<and> song_key (fst (mFileMap (ah_files a) ! n)) = song_key song
        \<and> (\<forall>j < n. song_key (fst (mFileMap (ah_files a) ! j)) \<noteq> song_key song) \<and> snd (mFileMap (ah_files a) ! n) = path"
    and on_disk: "re_fs env path = Some (header_image wh @ data)"
    and wh: "header_shape wh" "chunk_id wh = RIFF" "wh_format wh = WAVE"
    and alive: "\<forall>k. re_alive env k" and sz: "sz = unat (subchunk2_size wh) - 44"
  shows "\<exists>y first_item items. (traffic_step env)\<^sup>*\<^sup>* x y \<and> (\<forall>m \<in> set (tr_sent y). fst m = sock)
    \<and> parse_stream (concat (map snd (tr_sent y))) = (first_item # items, [])
    \<and> (\<forall>it \<in> set (first_item # items). wi_type it = type_val AUDIO \<and> wi_id it = i)
    \<and> wi_data first_item = header_image wh
    \<and> concat (map wi_data items) = take sz (drop 44 data)
        @ map (\<lambda>j. re_junk env (1 + j div 1024) (j mod 1024)) [length data - 44..<sz]"
proof -
  let ?m = "request_image 132 i (type_val TRACK) (song_image song @ replicate 892 0)"
  have len: "length ?m = sizeof_Packet" using song.enc_length [OF song_ok_shape [OF song]] by simp
  have answer: "\<exists>h' q' pks. received_handler env hls ?m (of_nat sizeof_Packet) (h, q)
        = Some (Inr (hls, (h', q'))) \<and> mQueue q' = map (Pair key) pks \<and> song_answer env wh data sz i pks"
    if h0: "heap_wf h0" and made: "rs_factory (tr_run x) key h0 = Inr (hls, h1)" and h: "heap_wf h" "mQueue q = []" for hls h0 h1 h q
  proof -
    have mk: "make_handlers dir (re_fs env) junk cjunk key h0 = Inr (hls, h1)" using made factory by simp
    show ?thesis by (rule song_request_answered [OF mk song _ on_disk wh alive sz h]) (use listed [OF h0] mk in blast)
  qed
  have "\<exists>y pks hls h0 h1. (traffic_step env)\<^sup>*\<^sup>* x y \<and> heap_wf h0 \<and> rs_factory (tr_run x) key h0 = Inr (hls, h1)
    \<and> tr_answered y = map (Pair sock) pks \<and> tr_sent y = map (\<lambda>pk. on_wire (sock, pk)) pks
    \<and> parse_stream (concat (map snd (tr_sent y))) = (map wire_view pks, []) \<and> song_answer env wh data sz i pks"
    by (rule request_delivered [where P = "\<lambda>_. song_answer env wh data sz i", OF init workers key _ len answer])
      (use readable factory in \<open>auto simp: song_answer_def\<close>)
  then obtain y pks where run: "(traffic_step env)\<^sup>*\<^sup>* x y" "tr_sent y = map (\<lambda>pk. on_wire (sock, pk)) pks"
      "parse_stream (concat (map snd (tr_sent y))) = (map wire_view pks, [])" "song_answer env wh data sz i pks" by blast
  obtain p0 ps where pks: "pks = p0 # ps" and y: "payload p0 = header_image wh"
      "\<forall>x \<in> set (p0 # ps). packet_wf x \<and> pkt_type x = type_val AUDIO \<and> pkt_id x = i"
      "concat (map payload ps) = take sz (drop 44 data)
        @ map (\<lambda>j. re_junk env (1 + j div 1024) (j mod 1024)) [length data - 44..<sz]"
    using run(4) unfolding song_answer_def by blast
  have "\<forall>m \<in> set (tr_sent y). fst m = sock" using run(2) by auto
  moreover have "concat (map wi_data (map wire_view ps)) = concat (map payload ps)" by (simp add: wire_view_simps comp_def)
  ultimately show ?thesis
    using run(1,3) pks y by (intro exI [of _ y] exI [of _ "wire_view p0"] exI [of _ "map wire_view ps"]) (simp add: wire_view_simps)
qed

theorem song_request_is_delivered_witness:
  "\<exists>y first_item items. (traffic_step wav_env)\<^sup>*\<^sup>* wav_traffic0 y
    \<and> parse_stream (concat (map snd (tr_sent y))) = (first_item # items, [])
    \<and> wi_data first_item = header_image demo_header \<and> concat (map wi_data items) = replicate 56 9"
proof -
  have nine: "(9 :: addr) \<noteq> 0" by simp
  have fs: "re_fs wav_env = wav_fs" by (simp add: wav_env_def)
  have makes: "\<exists>r. make_handlers wav_dir (re_fs wav_env) (\<lambda>_ _. 0) (\<lambda>_ _. 0) 9 h = Inr r" if "heap_wf h" for h
    using wav_listed [OF that, of 9] fs by auto
  have listed: "0 < length (mFileMap (ah_files a)) \<and> song_key (fst (mFileMap (ah_files a) ! 0)) = song_key wav_song
        \<and> (\<forall>j < 0. song_key (fst (mFileMap (ah_files a) ! j)) \<noteq> song_key wav_song)
        \<and> snd (mFileMap (ah_files a) ! 0) = music_folder @ demo_name"
    if "heap_wf h0" "make_handlers wav_dir (re_fs wav_env) (\<lambda>_ _. 0) (\<lambda>_ _. 0) 9 h0 = Inr ([AudioH a, SettingsH st], h1)" for h0 a st h1
    using wav_listed [OF that(1), of 9] that(2) fs by auto
  have disk: "re_fs wav_env (music_folder @ demo_name) = Some (header_image demo_header @ replicate 100 9)"
    using fs wav_fs_files(2) by simp
  have sz: "56 = unat (subchunk2_size demo_header) - 44" by (simp add: demo_header_simps)
  have "\<exists>y first_item items. (traffic_step wav_env)\<^sup>*\<^sup>* wav_traffic0 y \<and> (\<forall>m \<in> set (tr_sent y). fst m = 50)
    \<and> parse_stream (concat (map snd (tr_sent y))) = (first_item # items, [])
    \<and> (\<forall>it \<in> set (first_item # items). wi_type it = type_val AUDIO \<and> wi_id it = 5)
    \<and> wi_data first_item = header_image demo_header
    \<and> concat (map wi_data items) = take 56 (drop 44 (replicate 100 9))
        @ map (\<lambda>j. re_junk wav_env (1 + j div 1024) (j mod 1024)) [length (replicate 100 (9 :: byte)) - 44..<56]"
    by (rule song_request_is_delivered [OF wav_traffic0_init wav_traffic0_simps(1) nine wav_traffic0_simps(2) _ wav_song_ok(1) _
        disk demo_header_simps(1-3) wav_traffic0_simps(3) sz]) (erule makes, erule (1) listed)
  then obtain y first_item items where y: "(traffic_step wav_env)\<^sup>*\<^sup>* wav_traffic0 y"
      "parse_stream (concat (map snd (tr_sent y))) = (first_item # items, [])" "wi_data first_item = header_image demo_header"
      "concat (map wi_data items) = take 56 (drop 44 (replicate 100 9))
        @ map (\<lambda>j. re_junk wav_env (1 + j div 1024) (j mod 1024)) [length (replicate 100 (9 :: byte)) - 44..<56]"
    by blast
  show ?thesis using y(1-3) y(4) by (intro exI [of _ y] exI [of _ first_item] exI [of _ items]) simp
qed

end
