(* ===== verification/ServerRest.thy ===== *)
theory ServerRest
  imports ServerTraffic
begin

text \<open>
  The threads of the running server on their own: with no new connection, message, completion or spurious
  wake-up they cannot run for ever, and where they stop they wait for the system, or the process is dead.
\<close>

section \<open>Every step of a thread is progress\<close>

definition thread_step :: "request_env \<Rightarrow> run_state \<Rightarrow> run_state \<Rightarrow> bool" where
  "thread_step env s s' \<longleftrightarrow> rs_fault s = None \<and> ((\<exists>t. worker_moves env t s s') \<or> sender_moves s s')"

text \<open>The steps a worker can still make before it is back at the port, and the sending thread before the next item.\<close>

fun worker_left :: "worker_point \<Rightarrow> nat" where
  "worker_left AtPort = 0"
| "worker_left (Completed ok n key) = 9"
| "worker_left (Tested ok n key) = 8"
| "worker_left (Holding ok n key) = 7"
| "worker_left (Rearming key) = 6"
| "worker_left (Again key) = 5"
| "worker_left (Notifying key) = 4"
| "worker_left (Removing key) = 4"
| "worker_left (Releasing key) = 3"

fun item_left :: "sender_point \<Rightarrow> nat" where
  "item_left NextItem = 0"
| "item_left (ItemBuilt data cp) = 6"
| "item_left (ItemLocked data cp) = 5"
| "item_left (ItemSent data key) = 4"
| "item_left (ItemWaits data key) = 3"
| "item_left (ItemWoken data key) = 2"
| "item_left (ItemDone data) = 1"

definition passes_left :: "run_state \<Rightarrow> nat" where
  "passes_left s = 10 * length (rs_port s) + sum_list (map worker_left (rs_workers s))"

definition items_left :: "run_state \<Rightarrow> nat" where
  "items_left s = 7 * length (queued s) + item_left (rs_sender s)"

text \<open>A pass can queue any number of packets, so what is left of the passes comes first.\<close>

definition threads_order :: "(run_state \<times> run_state) set" where
  "threads_order = measures [\<lambda>s. if rs_fault s = None then 1 else 0, passes_left, items_left]"

lemma passes_go:
  assumes "at_point s t q"
  shows "passes_left (go t p s) + worker_left q = passes_left s + worker_left p"
  using sum_update [of t "rs_workers s" worker_left p] assms by (simp add: passes_left_def at_point_def go_def)

lemma passes_less:
  assumes "at_point s t q" and "rs_workers s1 = rs_workers s" and "rs_port s1 = rs_port s" and "worker_left p < worker_left q"
  shows "passes_left (go t p s1) < passes_left s"
proof -
  have "at_point s1 t q" "passes_left s1 = passes_left s" using assms(1-3) by (simp_all add: at_point_def passes_left_def)
  then show ?thesis using passes_go [of s1 t q p] assms(4) by simp
qed

lemma release_threads:
  "release_client key s = Inr s' \<Longrightarrow> rs_workers s' = rs_workers s \<and> rs_port s' = rs_port s \<and> rs_sender s' = rs_sender s
     \<and> rs_fault s' = rs_fault s \<and> queued s' = queued s"
  by (auto simp: release_client_def res_bind_Inr_iff queued_def split: if_splits option.splits)

lemma worker_progresses_pass:
  assumes "worker_moves env t s s'"
  shows "rs_fault s' \<noteq> None \<or> passes_left s' < passes_left s"
  using assms
proof cases
  case (take ok n key rest)
  then show ?thesis
    using passes_go [of "s\<lparr>rs_port := rest\<rparr>" t AtPort "Completed ok n key"] by (simp add: passes_left_def)
next
  case (release key)
  have "passes_left s' = passes_left (go t AtPort s)"
    using release_threads [OF release(2)] by (simp add: passes_left_def)
  then show ?thesis using passes_less [OF release(1), of s AtPort] by simp
qed (auto simp: kill_def intro: passes_less)

lemma sender_progresses_item:
  assumes "sender_moves s s'"
  shows "rs_fault s' \<noteq> None \<or> passes_left s' = passes_left s \<and> items_left s' < items_left s"
  using assms
proof cases
  case (unlock data key)
  then show ?thesis using release_threads [OF unlock(2)] by (simp add: passes_left_def items_left_def queued_def)
qed (auto simp: kill_def passes_left_def items_left_def queued_def queue_pop_def put_client_def BeginSend_def Let_def
    split: list.splits if_splits)

interpretation resting_threads: settling "thread_step env" threads_order
proof unfold_locales
  show "wf threads_order" by (simp add: threads_order_def)
next
  fix s s' assume step: "thread_step env s s'"
  then have ok: "rs_fault s = None" by (simp add: thread_step_def)
  have "rs_fault s' \<noteq> None \<or> passes_left s' < passes_left s \<or> passes_left s' = passes_left s \<and> items_left s' < items_left s"
    using step worker_progresses_pass sender_progresses_item unfolding thread_step_def by blast
  then show "(s', s) \<in> threads_order" using ok by (auto simp: threads_order_def)
qed

section \<open>Where the threads stop\<close>

text \<open>
  Every worker waits at the port, with no completion for it there; the sending thread waits for an item, or
  for the notification that a send has completed.
\<close>

definition resting :: "run_state \<Rightarrow> bool" where
  "resting s \<longleftrightarrow> set (rs_workers s) \<subseteq> {AtPort} \<and> (rs_workers s \<noteq> [] \<longrightarrow> rs_port s = [])
     \<and> (rs_sender s = NextItem \<and> queued s = [] \<or> (\<exists>data key. rs_sender s = ItemWaits data key))"

lemma next_item_moves:
  assumes inv: "run_inv s" and q: "queued s = cp # items" "packet_wf (snd cp)" and at: "rs_sender s = NextItem"
  shows "\<exists>s'. sender_moves s s'"
proof -
  have pop: "queue_pop (iw_queue (rs_world s)) = Some (cp, \<lparr> mQueue = items \<rparr>)"
    using q(1) by (cases "iw_queue (rs_world s)") (simp add: queued_def queue_pop_def)
  obtain data h where "build_item (\<lambda>_. 0) (snd cp) (iw_heap (rs_world s)) = Inr (data, h)"
    using build_item_ok [OF run_inv_wf [OF inv] q(2), of "\<lambda>_. 0"] by auto
  then show ?thesis using sender_moves.skip [OF at pop] sender_moves.build [OF at pop] by blast
qed

lemma stopped_rests:
  assumes inv: "run_inv s" and wf: "\<forall>cp \<in> set (queued s). packet_wf (snd cp)" and ok: "rs_fault s = None"
    and stop: "\<forall>s'. \<not> thread_step env s s'"
  shows "resting s"
proof -
  have w: "\<not> worker_moves env t s s'" and n: "\<not> sender_moves s s'" for t s' using stop ok by (auto simp: thread_step_def)
  have ports: "rs_workers s ! t = AtPort" if "t < length (rs_workers s)" for t using worker_progress [OF inv that] w by blast
  have "rs_port s = []" if "rs_workers s \<noteq> []"
  proof (rule ccontr)
    assume "rs_port s \<noteq> []"
    then obtain b m key rest where port: "rs_port s = (b, m, key) # rest" by (metis neq_Nil_conv prod_cases3)
    have "at_point s 0 AtPort" using ports [of 0] that by (simp add: at_point_def)
    then show False using worker_moves.take [OF _ port, of 0 env] w by blast
  qed
  moreover have "queued s = []" if "rs_sender s = NextItem"
  proof (cases "queued s")
    case (Cons cp items)
    then show ?thesis using next_item_moves [OF inv Cons _ that] wf n by auto
  qed
  moreover have "rs_sender s = NextItem \<or> (\<exists>data key. rs_sender s = ItemWaits data key)"
    using sender_progress [OF inv] n by blast
  ultimately show ?thesis using ports by (auto simp: resting_def in_set_conv_nth)
qed

text \<open>The observer follows the threads.\<close>

lemma traffic_follows_threads:
  "(thread_step env)\<^sup>*\<^sup>* s s' \<Longrightarrow> s = tr_run x \<Longrightarrow> \<exists>y. (traffic_step env)\<^sup>*\<^sup>* x y \<and> tr_run y = s'"
proof (induction rule: rtranclp_induct)
  case (step s1 s2)
  then obtain y where y: "(traffic_step env)\<^sup>*\<^sup>* x y" "tr_run y = s1" by blast
  have "run_step env (tr_run y) s2" using step.hyps(2) y(2) by (auto simp: thread_step_def run_step_def)
  then obtain z where "traffic_step env y z" "tr_run z = s2" using traffic_follows by blast
  moreover have "(traffic_step env)\<^sup>*\<^sup>* x z" by (rule rtranclp.rtrancl_into_rtrancl [OF y(1) calculation(1)])
  ultimately show ?case by blast
qed auto

lemma traffic_queue_wf:
  assumes "traffic_inv x"
  shows "\<forall>cp \<in> set (queued (tr_run x)). packet_wf (snd cp)"
proof -
  obtain pending where "list_all2 (asked (tr_run x)) pending (queued (tr_run x))"
    using assms by (auto simp: traffic_inv_def traffic_ok_def)
  then have "\<forall>i < length (queued (tr_run x)). packet_wf (snd (queued (tr_run x) ! i))"
    by (simp add: list_all2_conv_all_nth asked_def)
  then show ?thesis by (metis in_set_conv_nth)
qed

section \<open>Properties\<close>

text \<open>
  C8. The threads come to rest. From every state the server reaches, the workers and the sending thread,
  left to themselves, cannot run for ever: every message and every send that has completed is handled in
  finitely many steps, however the threads are scheduled and however many packets the handlers queue. They
  can get to where no thread has a step left, and wherever that is, the process has ended or every worker
  waits at the port, with nothing there to take, and the sending thread waits for an item, with none
  queued, or for the notification that a send has completed.
\<close>

theorem threads_come_to_rest:
  assumes "reachable traffic_init (traffic_step env) x"
  shows "(\<nexists>f. f 0 = tr_run x \<and> (\<forall>n. thread_step env (f n) (f (Suc n))))
    \<and> (\<exists>s. (thread_step env)\<^sup>*\<^sup>* (tr_run x) s \<and> (\<forall>s'. \<not> thread_step env s s'))
    \<and> (\<forall>s. (thread_step env)\<^sup>*\<^sup>* (tr_run x) s \<and> (\<forall>s'. \<not> thread_step env s s') \<longrightarrow> rs_fault s \<noteq> None \<or> resting s)"
proof (intro conjI allI impI)
  show "\<nexists>f. f 0 = tr_run x \<and> (\<forall>n. thread_step env (f n) (f (Suc n)))"
    using resting_threads.no_endless_run [of env] by blast
  show "\<exists>s. (thread_step env)\<^sup>*\<^sup>* (tr_run x) s \<and> (\<forall>s'. \<not> thread_step env s s')"
    by (rule resting_threads.comes_to_rest)
next
  fix s assume s: "(thread_step env)\<^sup>*\<^sup>* (tr_run x) s \<and> (\<forall>s'. \<not> thread_step env s s')"
  obtain y where y: "(traffic_step env)\<^sup>*\<^sup>* x y" "tr_run y = s" using traffic_follows_threads s by blast
  have "traffic_inv y" by (rule traffic.steps_inv [OF y(1) traffic.reachable_inv [OF assms]])
  then show "rs_fault s \<noteq> None \<or> resting s"
    using stopped_rests [of s env] traffic_queue_wf [of y] s y(2) by (auto simp: traffic_inv_def)
qed

text \<open>A client has connected and sent four bytes, and no worker has taken the completion.\<close>

theorem threads_come_to_rest_witness:
  "\<exists>x s. reachable traffic_init (traffic_step demo_env) x \<and> length (rs_port (tr_run x)) = 1
    \<and> (thread_step demo_env)\<^sup>*\<^sup>* (tr_run x) s \<and> (rs_fault s \<noteq> None \<or> resting s)"
proof -
  let ?x0 = "\<lparr> tr_run = demo_run0, tr_answered = [], tr_sent = [] \<rparr>"
  have inv: "run_inv demo_run0" by (rule server.inv_init [OF demo_run0_init])
  have x0: "reachable traffic_init (traffic_step demo_env) ?x0"
    by (rule reachable.start) (use demo_run0_init make_handlers_own in
      \<open>simp add: traffic_init_def demo_run0_def demo_factory_fun_def\<close>)
  obtain c w where step: "run_step demo_env demo_run0 (demo_run0\<lparr>rs_objects := (rs_objects demo_run0)(9 \<mapsto> c),
      rs_sockets := insert 9 (rs_sockets demo_run0), rs_world := w,
      rs_recvs := (rs_recvs demo_run0)(9 := Suc (rs_recvs demo_run0 9))\<rparr>)" (is "run_step _ _ ?s1")
    using demo_factory_makes by (rule_tac accept_runs [OF inv, of 9]) (auto simp: demo_run0_def weak_clients_def)
  have inv1: "run_inv ?s1" by (rule server.inv_step [OF inv step])
  obtain x1 where x1: "traffic_step demo_env ?x0 x1" "tr_run x1 = ?s1" using traffic_follows [of demo_env ?x0] step by auto
  obtain w2 where step2: "run_step demo_env ?s1 (?s1\<lparr>rs_world := w2, rs_recvs := (rs_recvs ?s1)(9 := 0), rs_port := rs_port ?s1 @ [(True, 4, 9)]\<rparr>)"
    using arrive_runs [OF inv1, of 9 c 0 4 demo_env] by (auto simp: demo_run0_def)
  then obtain x2 where x2: "traffic_step demo_env x1 x2" "length (rs_port (tr_run x2)) = 1"
    using traffic_follows [of demo_env x1] x1(2) by (fastforce simp: demo_run0_def)
  have r: "reachable traffic_init (traffic_step demo_env) x2"
    by (rule reachable.advance [OF reachable.advance [OF x0 x1(1)] x2(1)])
  show ?thesis using threads_come_to_rest [OF r] x2(2) r by blast
qed

end
