(* ===== verification/ServerVisits.thy ===== *)
theory ServerVisits
  imports ServerDelivery ServerRest
begin

text \<open>
  The server goes on serving: whatever has happened before, as long as the process lives and a worker
  waits at the port, clients can connect and ask, in any order and any number of times, and every answer
  reaches the one that asked.
\<close>

section \<open>What is still queued is sent or dropped\<close>

lemma sender_frame:
  assumes "sender_moves s s'"
  shows "rs_workers s' = rs_workers s \<and> rs_port s' = rs_port s \<and> rs_factory s' = rs_factory s
    \<and> (rs_objects s k = None \<longrightarrow> rs_objects s' k = None)
    \<and> ((\<forall>data cp. rs_sender s \<noteq> ItemLocked data cp) \<longrightarrow> rs_fault s' = rs_fault s)"
  using assms
proof cases
  case (unlock data key)
  have "rs_factory s' = rs_factory s \<and> (rs_objects s k = None \<longrightarrow> rs_objects s' k = None)"
    using unlock(2) by (auto simp: release_client_def res_bind_Inr_iff split: if_splits option.splits)
  then show ?thesis using release_threads [OF unlock(2)] by simp
qed (auto simp: kill_def put_client_def)

text \<open>The sending thread can always go on; where it waits, a wake-up is all it needs.\<close>

lemma sender_goes_on:
  assumes inv: "run_inv s" and wf: "\<forall>cp \<in> set (queued s). packet_wf (snd cp)" and ok: "rs_fault s = None"
    and busy: "\<not> (rs_sender s = NextItem \<and> queued s = [])"
  shows "\<exists>s'. (sender_moves s s' \<or> system_moves s s') \<and> items_left s' < items_left s \<and> rs_fault s' = None
    \<and> rs_workers s' = rs_workers s \<and> rs_port s' = rs_port s \<and> rs_factory s' = rs_factory s
    \<and> (\<forall>k. rs_objects s k = None \<longrightarrow> rs_objects s' k = None)"
proof -
  have main: ?thesis if m: "sender_moves s s'" "rs_fault s' = None" for s'
    using sender_progresses_item [OF m(1)] sender_frame [OF m(1)] m by blast
  have safe: ?thesis if ex: "\<exists>s'. sender_moves s s'" and free: "\<forall>data cp. rs_sender s \<noteq> ItemLocked data cp"
  proof -
    obtain s' where s': "sender_moves s s'" using ex by blast
    show ?thesis by (rule main [OF s']) (use sender_frame [OF s'] free ok in simp)
  qed
  show ?thesis
  proof (cases "rs_sender s")
    case NextItem
    then obtain cp items where q: "queued s = cp # items" using busy by (cases "queued s") auto
    then have "packet_wf (snd cp)" using wf by simp
    then show ?thesis using safe next_item_moves [OF inv q _ NextItem] NextItem by simp
  next
    case (ItemLocked data cp)
    then have "fst cp \<in> held_clients s" by (simp add: held_clients_def)
    then obtain c where c: "rs_objects s (fst cp) = Some c" using run_inv_holder [OF inv] by metis
    obtain c1 w1 where b: "BeginSend Pending data (wire_size (snd cp)) c (rs_world s) = Inr (c1, w1)"
      by (simp add: BeginSend_def Let_def)
    show ?thesis by (rule main [OF sender_moves.begin_send [OF ItemLocked c b]]) (simp add: ok)
  next
    case (ItemWaits data key)
    then show ?thesis
      using system_moves.spurious [OF ItemWaits] ok
      by (intro exI [of _ "s\<lparr>rs_sender := ItemWoken data key\<rparr>"]) (simp add: items_left_def queued_def)
  qed (rule safe, use sender_progress [OF inv] in simp_all)+
qed

lemma drained:
  assumes "traffic_inv (watched s a b)" and "rs_fault s = None" and "at_point s t AtPort" and "rs_port s = []"
  shows "\<exists>s' owed. (traffic_step env)\<^sup>*\<^sup>* (watched s a b) (watched s' a (b @ owed)) \<and> calm t s' \<and> queued s' = []
    \<and> rs_factory s' = rs_factory s \<and> (\<forall>k. rs_objects s k = None \<longrightarrow> rs_objects s' k = None)"
  using assms
proof (induction "items_left s" arbitrary: s b rule: less_induct)
  case less
  have inv: "run_inv s" using less.prems(1) by (simp add: traffic_inv_def watched_def)
  have wf: "\<forall>cp \<in> set (queued s). packet_wf (snd cp)" using traffic_queue_wf [OF less.prems(1)] by (simp add: watched_def)
  show ?case
  proof (cases "rs_sender s = NextItem \<and> queued s = []")
    case True
    then show ?thesis using less.prems inv by (intro exI [of _ s] exI [of _ "[]"]) (simp add: calm_def)
  next
    case False
    obtain s1 where s1: "sender_moves s s1 \<or> system_moves s s1" "items_left s1 < items_left s" "rs_fault s1 = None"
        "rs_workers s1 = rs_workers s" "rs_port s1 = rs_port s" "rs_factory s1 = rs_factory s"
        "\<forall>k. rs_objects s k = None \<longrightarrow> rs_objects s1 k = None"
      using sender_goes_on [OF inv wf less.prems(2) False] by blast
    have step: "traffic_step env (watched s a b) (watched s1 a (b @ sends s s1))"
      using s1(1) sending_lift [OF less.prems(2), of s1 env a b] traffic_step.around [of "watched s a b" s1 env] less.prems(2)
      by (auto simp: watched_def)
    have inv1: "traffic_inv (watched s1 a (b @ sends s s1))" by (rule traffic.inv_step [OF less.prems(1) step])
    have "at_point s1 t AtPort" "rs_port s1 = []" using less.prems(3,4) s1(4,5) by (simp_all add: at_point_def)
    then obtain s' owed where s': "(traffic_step env)\<^sup>*\<^sup>* (watched s1 a (b @ sends s s1)) (watched s' a ((b @ sends s s1) @ owed))"
        "calm t s'" "queued s' = []" "rs_factory s' = rs_factory s1" "\<forall>k. rs_objects s1 k = None \<longrightarrow> rs_objects s' k = None"
      using less.hyps [OF s1(2) inv1 s1(3)] by blast
    have "(traffic_step env)\<^sup>*\<^sup>* (watched s a b) (watched s' a (b @ (sends s s1 @ owed)))"
      using converse_rtranclp_into_rtranclp [of "traffic_step env", OF step s'(1)] by simp
    then show ?thesis using s'(2-5) s1(6,7) by metis
  qed
qed


section \<open>What clients ask for\<close>

text \<open>The list of songs as the clients see it: what names a song, and where its file is.\<close>

type_synonym catalog = "((str \<times> str \<times> cint) \<times> str) list"

definition catalog_of :: "Song FileList \<Rightarrow> catalog" where
  "catalog_of fl = map (\<lambda>(song, path). (song_key song, path)) (mFileMap fl)"

definition serves_catalog :: "directory \<Rightarrow> filesystem \<Rightarrow> (nat \<Rightarrow> nat \<Rightarrow> byte) \<Rightarrow> (nat \<Rightarrow> nat \<Rightarrow> byte) \<Rightarrow> catalog \<Rightarrow> bool" where
  "serves_catalog dir fs junk cjunk cat \<longleftrightarrow> (\<forall>key h. heap_wf h \<longrightarrow> (\<exists>a st h1.
     make_handlers dir fs junk cjunk key h = Inr ([AudioH a, SettingsH st], h1) \<and> catalog_of (ah_files a) = cat))"

datatype request = AskList cint | AskSong cint Song

fun request_bytes :: "request \<Rightarrow> byte list" where
  "request_bytes (AskList i) = request_image 0 i (type_val FILELIST) (replicate maxPacketSize 0)"
| "request_bytes (AskSong i song) = request_image 132 i (type_val TRACK) (song_image song @ replicate 892 0)"

definition wav_at :: "request_env \<Rightarrow> catalog \<Rightarrow> Song \<Rightarrow> waveHeader \<Rightarrow> byte list \<Rightarrow> bool" where
  "wav_at env cat song wh data \<longleftrightarrow> (\<exists>path. map_of cat (song_key song) = Some path
     \<and> re_fs env path = Some (header_image wh @ data) \<and> header_shape wh \<and> chunk_id wh = RIFF \<and> wh_format wh = WAVE)"

fun request_ok :: "request_env \<Rightarrow> catalog \<Rightarrow> request \<Rightarrow> bool" where
  "request_ok env cat (AskList i) \<longleftrightarrow> True"
| "request_ok env cat (AskSong i song) \<longleftrightarrow> song_ok song \<and> (\<exists>wh data. wav_at env cat song wh data)"

fun answer_to :: "request_env \<Rightarrow> catalog \<Rightarrow> request \<Rightarrow> Packet list \<Rightarrow> bool" where
  "answer_to env cat (AskList i) pks \<longleftrightarrow> length pks = max 1 ((length cat + 6) div 7)
     \<and> (\<forall>pk \<in> set pks. packet_wf pk \<and> pkt_type pk = type_val FILELIST \<and> pkt_id pk = i)
     \<and> map song_key (concat (map songs_in pks)) = map fst cat"
| "answer_to env cat (AskSong i song) pks \<longleftrightarrow> (\<exists>wh data. wav_at env cat song wh data
     \<and> song_answer env wh data (unat (subchunk2_size wh) - 44) i pks)"

lemma request_bytes_length: "request_ok env cat r \<Longrightarrow> length (request_bytes r) = sizeof_Packet"
  by (cases r) (auto simp: song.enc_length dest: song_ok_shape)

lemma answer_to_wf: "answer_to env cat r pks \<Longrightarrow> \<forall>pk \<in> set pks. packet_wf pk \<and> pkt_type pk \<noteq> type_val INVALID"
  by (cases r) (auto simp: song_answer_def)

text \<open>The map of the catalog gives the first of the equal songs, as \<open>indexOf\<close> does.\<close>

lemma map_of_first:
  "map_of xs k = Some p \<Longrightarrow> \<exists>n < length xs. fst (xs ! n) = k \<and> (\<forall>j < n. fst (xs ! j) \<noteq> k) \<and> snd (xs ! n) = p"
proof (induction xs)
  case (Cons x xs)
  show ?case
  proof (cases "fst x = k")
    case True
    then show ?thesis using Cons.prems by (intro exI [of _ 0]) (cases x, auto)
  next
    case False
    then obtain n where n: "n < length xs" "fst (xs ! n) = k" "\<forall>j < n. fst (xs ! j) \<noteq> k" "snd (xs ! n) = p"
      using Cons by (cases x) auto
    have "\<forall>j < Suc n. fst ((x # xs) ! j) \<noteq> k" using n(3) False by (auto simp: nth_Cons split: nat.splits)
    then show ?thesis using n by (intro exI [of _ "Suc n"]) auto
  qed
qed simp

lemma request_answered:
  assumes made: "make_handlers dir (re_fs env) junk cjunk key h0 = Inr ([AudioH a, SettingsH st], h1)" and cat: "catalog_of (ah_files a) = cat"
    and r: "request_ok env cat r" and alive: "\<forall>n. re_alive env n" and h: "heap_wf h" "mQueue q = []"
  shows "\<exists>h' q' pks. received_handler env [AudioH a, SettingsH st] (request_bytes r) (of_nat sizeof_Packet) (h, q)
      = Some (Inr ([AudioH a, SettingsH st], (h', q'))) \<and> mQueue q' = map (Pair key) pks \<and> answer_to env cat r pks"
proof (cases r)
  case (AskList i)
  have keys: "map (song_key \<circ> fst) (mFileMap (ah_files a)) = map fst cat" "length (mFileMap (ah_files a)) = length cat"
    by (auto simp: cat [symmetric] catalog_of_def)
  show ?thesis
    using list_request_handled [OF made h(1) _ alive, of "replicate maxPacketSize 0" i q] h(2) keys unfolding AskList by auto
next
  case (AskSong i song)
  then obtain path wh data where song: "song_ok song" and wav: "wav_at env cat song wh data"
    and at: "map_of cat (song_key song) = Some path" "re_fs env path = Some (header_image wh @ data)"
      "header_shape wh" "chunk_id wh = RIFF" "wh_format wh = WAVE"
    using r by (auto simp: wav_at_def)
  obtain n where n: "n < length cat" "fst (cat ! n) = song_key song" "\<forall>j < n. fst (cat ! j) \<noteq> song_key song" "snd (cat ! n) = path"
    using map_of_first [OF at(1)] by blast
  have nth: "j < length cat \<Longrightarrow> cat ! j = (song_key (fst (mFileMap (ah_files a) ! j)), snd (mFileMap (ah_files a) ! j))" for j
    by (auto simp: cat [symmetric] catalog_of_def case_prod_unfold)
  have here: "n < length (mFileMap (ah_files a)) \<and> song_key (fst (mFileMap (ah_files a) ! n)) = song_key song
      \<and> (\<forall>j < n. song_key (fst (mFileMap (ah_files a) ! j)) \<noteq> song_key song) \<and> snd (mFileMap (ah_files a) ! n) = path"
    using n nth by (auto simp: cat [symmetric] catalog_of_def case_prod_unfold)
  have "\<exists>h' q' pks. received_handler env [AudioH a, SettingsH st]
        (request_image 132 i (type_val TRACK) (song_image song @ replicate 892 0)) (of_nat sizeof_Packet) (h, q)
      = Some (Inr ([AudioH a, SettingsH st], (h', q'))) \<and> mQueue q' = map (Pair key) pks
        \<and> song_answer env wh data (unat (subchunk2_size wh) - 44) i pks"
    by (rule song_request_answered [OF made song _ at(2-5) alive refl h]) (use here in auto)
  then show ?thesis unfolding AskSong answer_to.simps request_bytes.simps using wav by blast
qed

section \<open>Clients come and ask\<close>

datatype visit = Connect addr socket | Ask addr request

text \<open>
  A script of visits can be run if clients connect at addresses that are not taken, and only connected
  clients ask; \<open>m\<close> gives the clients of the script that have connected.
\<close>

fun script_ok :: "request_env \<Rightarrow> catalog \<Rightarrow> addr set \<Rightarrow> (addr \<Rightarrow> socket option) \<Rightarrow> visit list \<Rightarrow> bool" where
  "script_ok env cat taken m [] \<longleftrightarrow> True"
| "script_ok env cat taken m (Connect key sock # vs) \<longleftrightarrow>
     key \<noteq> 0 \<and> key \<notin> taken \<and> m key = None \<and> script_ok env cat taken (m(key \<mapsto> sock)) vs"
| "script_ok env cat taken m (Ask key r # vs) \<longleftrightarrow> m key \<noteq> None \<and> request_ok env cat r \<and> script_ok env cat taken m vs"

fun asks_of :: "(addr \<Rightarrow> socket option) \<Rightarrow> visit list \<Rightarrow> (socket \<times> request) list" where
  "asks_of m [] = []"
| "asks_of m (Connect key sock # vs) = asks_of (m(key \<mapsto> sock)) vs"
| "asks_of m (Ask key r # vs) = (the (m key), r) # asks_of m vs"

text \<open>An exchange is a request on a connection, and the packets that answer it.\<close>

type_synonym exchange = "(socket \<times> request) \<times> Packet list"

definition replies :: "exchange list \<Rightarrow> (socket \<times> Packet) list" where
  "replies es = concat (map (\<lambda>((sock, r), pks). map (Pair sock) pks) es)"

definition heard :: "socket \<Rightarrow> exchange list \<Rightarrow> Packet list" where
  "heard sock es = concat (map snd (filter (\<lambda>e. fst (fst e) = sock) es))"

definition exchanges_ok :: "request_env \<Rightarrow> catalog \<Rightarrow> exchange list \<Rightarrow> bool" where
  "exchanges_ok env cat es \<longleftrightarrow> (\<forall>e \<in> set es. answer_to env cat (snd (fst e)) (snd e))"

lemma replies_simps [simp]:
  "replies [] = []" "replies (((sock, r), pks) # es) = map (Pair sock) pks @ replies es"
  by (simp_all add: replies_def)

lemma heard_replies: "map snd (filter (\<lambda>x. fst x = sock) (replies es)) = heard sock es"
  by (induction es) (auto simp: heard_def replies_def comp_def)

lemma replies_wf: "exchanges_ok env cat es \<Longrightarrow> \<forall>x \<in> set (replies es). packet_wf (snd x)"
  using answer_to_wf by (fastforce simp: exchanges_ok_def replies_def)

text \<open>Each client decodes, from its own connection, the answers to its own requests.\<close>

lemma heard_decoded:
  assumes "exchanges_ok env cat es"
  shows "parse_stream (concat (map snd (filter (\<lambda>m. fst m = sock) (map on_wire (replies es))))) = (map wire_view (heard sock es), [])"
proof -
  have "filter (\<lambda>m. fst m = sock) (map on_wire (replies es)) = map on_wire (filter (\<lambda>x. fst x = sock) (replies es))"
    by (simp add: filter_map comp_def)
  then show ?thesis
    using decoded_stream [of "filter (\<lambda>x. fst x = sock) (replies es)"] replies_wf [OF assms] by (simp add: heard_replies)
qed

text \<open>The clients of the script that have connected, with the handlers the factory made for them.\<close>

definition present :: "directory \<Rightarrow> filesystem \<Rightarrow> (nat \<Rightarrow> nat \<Rightarrow> byte) \<Rightarrow> (nat \<Rightarrow> nat \<Rightarrow> byte) \<Rightarrow> catalog \<Rightarrow>
    (addr \<Rightarrow> socket option) \<Rightarrow> run_state \<Rightarrow> bool" where
  "present dir fs junk cjunk cat m s \<longleftrightarrow> (\<forall>key sock. m key = Some sock \<longrightarrow> (\<exists>a st h0 h1.
     make_handlers dir fs junk cjunk key h0 = Inr ([AudioH a, SettingsH st], h1) \<and> catalog_of (ah_files a) = cat
     \<and> connected key sock [AudioH a, SettingsH st] s))"

lemma present_others:
  "present dir fs junk cjunk cat m s \<Longrightarrow> same_others key s s' \<Longrightarrow> (\<And>sock hls. connected key sock hls s \<Longrightarrow> connected key sock hls s')
     \<Longrightarrow> present dir fs junk cjunk cat m s'"
  unfolding present_def using connected_others by metis

lemma visitor_connects:
  assumes calm: "calm t s" and q: "queued s = []" and key: "key \<noteq> 0" "rs_objects s key = None" "m key = None"
    and factory: "rs_factory s = (\<lambda>client h. make_handlers dir fs junk cjunk client h)" and cat: "serves_catalog dir fs junk cjunk cat"
    and here: "present dir fs junk cjunk cat m s"
  obtains s' where "(hushed env)\<^sup>*\<^sup>* s s'" and "calm t s'" and "queued s' = []" and "same_others key s s'"
    and "present dir fs junk cjunk cat (m(key \<mapsto> sock)) s'"
proof -
  have makes: "\<exists>x. rs_factory s key h = Inr x" if "heap_wf h" for h
    using cat that unfolding factory serves_catalog_def by blast
  obtain s' hls h0 h1 where s': "(hushed env)\<^sup>*\<^sup>* s s'" "at_rest t key sock hls s'" "rs_factory s key h0 = Inr (hls, h1)"
      "heap_wf h0" "queued s' = []" "same_others key s s'"
    by (rule client_connects [OF calm q key(1,2) makes, of env sock]) blast+
  obtain a st h2 where a: "make_handlers dir fs junk cjunk key h0 = Inr ([AudioH a, SettingsH st], h2)" "catalog_of (ah_files a) = cat"
    using cat s'(4) unfolding serves_catalog_def by blast
  then have hls: "hls = [AudioH a, SettingsH st]" using s'(3) factory by simp
  have "present dir fs junk cjunk cat (m(key \<mapsto> sock)) s'"
    unfolding present_def
  proof (intro allI impI)
    fix k so assume k: "(m(key \<mapsto> sock)) k = Some so"
    show "\<exists>a st h0 h1. make_handlers dir fs junk cjunk k h0 = Inr ([AudioH a, SettingsH st], h1) \<and> catalog_of (ah_files a) = cat
      \<and> connected k so [AudioH a, SettingsH st] s'"
    proof (cases "k = key")
      case True
      then show ?thesis using k a s'(2) hls by (auto simp: at_rest_def)
    next
      case False
      then show ?thesis using k here connected_others [OF s'(6) False] by (auto simp: present_def)
    qed
  qed
  then show thesis using that s' by (simp add: at_rest_def)
qed

lemma visitor_asks:
  assumes calm: "calm t s" and q: "queued s = []" and m: "m key = Some sock" and here: "present dir (re_fs env) junk cjunk cat m s"
    and r: "request_ok env cat r" and alive: "\<forall>n. re_alive env n"
  obtains s' pks where "(traffic_step env)\<^sup>*\<^sup>* (watched s a b)
      (watched s' (a @ map (Pair sock) pks) (b @ map (\<lambda>pk. on_wire (sock, pk)) pks))"
    and "calm t s'" and "queued s' = []" and "same_others key s s'" and "answer_to env cat r pks"
    and "present dir (re_fs env) junk cjunk cat m s'"
proof -
  obtain ah st h0 h1 where hls: "make_handlers dir (re_fs env) junk cjunk key h0 = Inr ([AudioH ah, SettingsH st], h1)"
      "catalog_of (ah_files ah) = cat" "connected key sock [AudioH ah, SettingsH st] s"
    using here m unfolding present_def by blast
  have rest: "at_rest t key sock [AudioH ah, SettingsH st] s" using calm hls(3) by (simp add: at_rest_def)
  have "\<exists>s' pks. (traffic_step env)\<^sup>*\<^sup>* (watched s a b)
      (watched s' (a @ map (Pair sock) pks) (b @ map (\<lambda>pk. on_wire (sock, pk)) pks))
    \<and> at_rest t key sock [AudioH ah, SettingsH st] s' \<and> queued s' = [] \<and> same_others key s s' \<and> answer_to env cat r pks"
    by (rule request_served [OF rest q request_bytes_length [OF r]])
      (erule (1) request_answered [OF hls(1,2) r alive], erule answer_to_wf)
  then obtain s' pks where s': "(traffic_step env)\<^sup>*\<^sup>* (watched s a b)
      (watched s' (a @ map (Pair sock) pks) (b @ map (\<lambda>pk. on_wire (sock, pk)) pks))"
      "at_rest t key sock [AudioH ah, SettingsH st] s'" "queued s' = []" "same_others key s s'" "answer_to env cat r pks"
    by blast
  have "connected key so hls s \<Longrightarrow> connected key so hls s'" for so hls
    using hls(3) s'(2) by (auto simp: at_rest_def connected_def)
  then have "present dir (re_fs env) junk cjunk cat m s'" by (rule present_others [OF here s'(4)])
  then show thesis using that s' by (simp add: at_rest_def)
qed

lemma script_served:
  assumes "calm t s" and "queued s = []" and "rs_factory s = (\<lambda>client h. make_handlers dir (re_fs env) junk cjunk client h)"
    and cat: "serves_catalog dir (re_fs env) junk cjunk cat" and alive: "\<forall>n. re_alive env n"
    and "\<forall>k. k \<notin> taken \<longrightarrow> m k = None \<longrightarrow> rs_objects s k = None" and "present dir (re_fs env) junk cjunk cat m s"
    and "script_ok env cat taken m vs"
  shows "\<exists>s' es. (traffic_step env)\<^sup>*\<^sup>* (watched s a b) (watched s' (a @ replies es) (b @ map on_wire (replies es)))
    \<and> map fst es = asks_of m vs \<and> exchanges_ok env cat es"
  using assms(1-3,6-8)
proof (induction vs arbitrary: s m a b)
  case Nil
  then show ?case by (intro exI [of _ s] exI [of _ "[]"]) (simp add: exchanges_ok_def)
next
  case (Cons v vs)
  show ?case
  proof (cases v)
    case (Connect key sock)
    then have key: "key \<noteq> 0" "key \<notin> taken" "m key = None" and vs: "script_ok env cat taken (m(key \<mapsto> sock)) vs"
      using Cons.prems(6) by simp_all
    have free: "rs_objects s key = None" using Cons.prems(4) key by blast
    obtain s1 where s1: "(hushed env)\<^sup>*\<^sup>* s s1" "calm t s1" "queued s1 = []" "same_others key s s1"
        "present dir (re_fs env) junk cjunk cat (m(key \<mapsto> sock)) s1"
      by (rule visitor_connects [OF Cons.prems(1,2) key(1) free key(3) Cons.prems(3) cat Cons.prems(5), of env sock])
    have fac: "rs_factory s1 = (\<lambda>client h. make_handlers dir (re_fs env) junk cjunk client h)"
      using s1(4) Cons.prems(3) by (simp add: same_others_def)
    have "\<forall>k. k \<notin> taken \<longrightarrow> (m(key \<mapsto> sock)) k = None \<longrightarrow> rs_objects s1 k = None"
      using s1(4) Cons.prems(4) by (simp add: same_others_def)
    then obtain s' es where s': "(traffic_step env)\<^sup>*\<^sup>* (watched s1 a b) (watched s' (a @ replies es) (b @ map on_wire (replies es)))"
        "map fst es = asks_of (m(key \<mapsto> sock)) vs" "exchanges_ok env cat es"
      using Cons.IH [OF s1(2,3) fac _ s1(5) vs, of a b] by blast
    have "(traffic_step env)\<^sup>*\<^sup>* (watched s a b) (watched s' (a @ replies es) (b @ map on_wire (replies es)))"
      by (rule rtranclp_trans [OF hushed_lift [OF s1(1)] s'(1)])
    then show ?thesis using s'(2,3) Connect by auto
  next
    case (Ask key r)
    then obtain sock where m: "m key = Some sock" and r: "request_ok env cat r" and vs: "script_ok env cat taken m vs"
      using Cons.prems(6) by auto
    obtain s1 pks where s1: "(traffic_step env)\<^sup>*\<^sup>* (watched s a b)
        (watched s1 (a @ map (Pair sock) pks) (b @ map (\<lambda>pk. on_wire (sock, pk)) pks))"
        "calm t s1" "queued s1 = []" "same_others key s s1" "answer_to env cat r pks" "present dir (re_fs env) junk cjunk cat m s1"
      by (rule visitor_asks [OF Cons.prems(1,2) m Cons.prems(5) r alive, of a b])
    have fac: "rs_factory s1 = (\<lambda>client h. make_handlers dir (re_fs env) junk cjunk client h)"
      using s1(4) Cons.prems(3) by (simp add: same_others_def)
    have "\<forall>k. k \<notin> taken \<longrightarrow> m k = None \<longrightarrow> rs_objects s1 k = None"
      using s1(4) Cons.prems(4) m by (metis option.distinct(1) same_others_def)
    then obtain s' es where s': "(traffic_step env)\<^sup>*\<^sup>* (watched s1 (a @ map (Pair sock) pks) (b @ map (\<lambda>pk. on_wire (sock, pk)) pks))
        (watched s' ((a @ map (Pair sock) pks) @ replies es) ((b @ map (\<lambda>pk. on_wire (sock, pk)) pks) @ map on_wire (replies es)))"
        "map fst es = asks_of m vs" "exchanges_ok env cat es"
      using Cons.IH [OF s1(2,3) fac _ s1(6) vs, of "a @ map (Pair sock) pks" "b @ map (\<lambda>pk. on_wire (sock, pk)) pks"] by blast
    have "(traffic_step env)\<^sup>*\<^sup>* (watched s a b) (watched s' (a @ replies (((sock, r), pks) # es))
        (b @ map on_wire (replies (((sock, r), pks) # es))))"
      using rtranclp_trans [OF s1(1) s'(1)] by (simp add: comp_def)
    then show ?thesis using s'(2,3) s1(5) Ask m
      by (intro exI [of _ s'] exI [of _ "((sock, r), pks) # es"]) (simp add: exchanges_ok_def)
  qed
qed

section \<open>Properties\<close>


text \<open>Two clients connect; the second asks for the list, the first for the song, the second for the song too.\<close>

definition demo_catalog :: catalog where
  "demo_catalog = [(song_key wav_song, music_folder @ demo_name)]"

definition demo_script :: "visit list" where
  "demo_script = [Connect 9 50, Connect 11 60, Ask 11 (AskList 7), Ask 9 (AskSong 5 wav_song), Ask 11 (AskSong 8 wav_song)]"

lemma demo_catalog_served: "serves_catalog wav_dir (re_fs wav_env) (\<lambda>_ _. 0) (\<lambda>_ _. 0) demo_catalog"
  unfolding serves_catalog_def
proof (intro allI impI)
  fix key h assume h: "heap_wf h"
  obtain a st h' s where a: "make_handlers wav_dir wav_fs (\<lambda>_ _. 0) (\<lambda>_ _. 0) key h = Inr ([AudioH a, SettingsH st], h')"
      "mFileMap (ah_files a) = [(s, music_folder @ demo_name)]" "song_key s = song_key wav_song"
    using wav_listed [OF h, of key] by blast
  moreover have "re_fs wav_env = wav_fs" by (simp add: wav_env_def)
  ultimately show "\<exists>a st h1. make_handlers wav_dir (re_fs wav_env) (\<lambda>_ _. 0) (\<lambda>_ _. 0) key h = Inr ([AudioH a, SettingsH st], h1)
      \<and> catalog_of (ah_files a) = demo_catalog"
    by (simp add: catalog_of_def demo_catalog_def)
qed

lemma demo_wav: "wav_at wav_env demo_catalog wav_song demo_header (replicate 100 9)"
  using wav_fs_files(2) by (simp add: wav_at_def demo_catalog_def wav_env_def demo_header_simps)

lemma demo_script_ok: "script_ok wav_env demo_catalog {} Map.empty demo_script"
  using demo_wav wav_song_ok(1) by (auto simp: demo_script_def)

lemma demo_asks: "asks_of Map.empty demo_script = [(60, AskList 7), (50, AskSong 5 wav_song), (60, AskSong 8 wav_song)]"
  by (simp add: demo_script_def)


end
