(* ===== verification/Startup.thy ===== *)
theory Startup
  imports ServerManagers "HOL-Library.Multiset"
begin

text \<open>
  How the server comes up: the tasks \<open>listen\<close> of Server/ServerManager.cpp queues and the threads of its
  pool, Server/ThreadPool.h, together. None of the tasks is meant to return, so every one needs a thread of
  its own for good.
\<close>

section \<open>Who has which task\<close>

fun task_of :: "'a worker \<Rightarrow> 'a list" where
  "task_of (Calling (Some task)) = [task]"
| "task_of (Running task) = [task]"
| "task_of (Calling None) = []"
| "task_of Testing = []"
| "task_of Fetching = []"
| "task_of Popping = []"
| "task_of Counting = []"
| "task_of Left = []"
| "task_of Crashed = []"

definition held :: "'a ThreadPool \<Rightarrow> 'a list" where
  "held p = concat (map task_of (mThreads p))"

definition running :: "'a ThreadPool \<Rightarrow> 'a list" where
  "running p = concat (map (\<lambda>w. case w of Running task \<Rightarrow> [task] | _ \<Rightarrow> []) (mThreads p))"

lemma concat_update:
  assumes "t < length xs"
  shows "mset (concat (map f (xs[t := w]))) + mset (f (xs ! t)) = mset (concat (map f xs)) + mset (f w)"
  using assms
proof (induction xs arbitrary: t)
  case (Cons x xs)
  show ?case
  proof (cases t)
    case (Suc u)
    then have "mset (concat (map f (xs[u := w]))) + mset (f (xs ! u)) = mset (concat (map f xs)) + mset (f w)"
      using Cons by simp
    then show ?thesis using Suc by (simp add: ac_simps)
  qed (simp add: ac_simps)
qed simp

lemma held_goto:
  "at p t v \<Longrightarrow> mset (held (goto t w p)) + mset (task_of v) = mset (held p) + mset (task_of w)"
  using concat_update [of t "mThreads p" task_of w] by (simp add: held_def at_def)

lemma held_threads: "mThreads p' = mThreads p \<Longrightarrow> held p' = held p"
  by (simp add: held_def)

text \<open>While no task has returned, the tasks that were started are those the threads have.\<close>

definition placed :: "'a ThreadPool \<Rightarrow> bool" where
  "placed p \<longleftrightarrow> (tp_ended p = 0 \<longrightarrow> mset (tp_started p) = mset (held p) \<and> Counting \<notin> set (mThreads p))"

lemma placed_goto:
  assumes "placed p" and "at p t v" and "task_of w = task_of v" and "w \<noteq> Counting"
  shows "placed (goto t w p)"
proof -
  have "Counting \<notin> set ((mThreads p)[t := w])" if "Counting \<notin> set (mThreads p)"
    using that assms(4) set_update_subset_insert [of "mThreads p" t w] by auto
  then show ?thesis using assms(1,3) held_goto [OF assms(2), of w] by (simp add: placed_def)
qed

lemma placed_worker:
  assumes "worker_step t p p'" and "placed p"
  shows "placed p'"
  using assms(1)
proof cases
  case (take task rest)
  let ?p = "p\<lparr>mTasks := rest, tp_started := tp_started p @ [task]\<rparr>"
  have "mset (held p') = mset (held p) + {#task#}"
    using held_goto [of ?p t Popping "Calling (Some task)"] take at_cong [of ?p p] held_threads [of ?p p] by simp
  moreover have "Counting \<notin> set (mThreads p')" if "Counting \<notin> set (mThreads p)"
    using that take(1) set_update_subset_insert [of "mThreads p" t "Calling (Some task)"] by auto
  ultimately show ?thesis using assms(2) take(1) by (simp add: placed_def)
next
  case count
  then have "tp_ended p \<noteq> 0" using assms(2) nth_mem [of t "mThreads p"] by (auto simp: placed_def at_def)
  then show ?thesis using count(1) by (simp add: placed_def)
qed (use assms(2) in \<open>auto intro: placed_goto\<close>)

interpretation placing: invariant_system "pool_init n hc jobs" pool_step placed
proof unfold_locales
  fix s :: "'a ThreadPool" assume "pool_init n hc jobs s"
  then show "placed s" by (auto simp: pool_init_def placed_def ThreadPool_new_def held_def)
next
  fix s s' :: "'a ThreadPool" assume inv: "placed s" and step: "pool_step s s'"
  from step show "placed s'"
  proof cases
    case (worker t)
    then show ?thesis using placed_worker inv by blast
  qed (use inv in \<open>simp_all add: placed_def held_def\<close>)
qed

section \<open>Every step brings the pool closer to rest\<close>

fun to_go :: "'a worker \<Rightarrow> nat" where
  "to_go Counting = 5"
| "to_go Testing = 4"
| "to_go Fetching = 3"
| "to_go Popping = 2"
| "to_go (Calling task) = 1"
| "to_go (Running task) = 0"
| "to_go Left = 0"
| "to_go Crashed = 0"

definition work_left :: "'a ThreadPool \<Rightarrow> nat" where
  "work_left p = sum_list (map to_go (mThreads p))"

lemma work_goto:
  "at p t v \<Longrightarrow> work_left (goto t w p) + to_go v = work_left p + to_go w"
  using sum_update [of t "mThreads p" to_go w] by (simp add: work_left_def at_def)

lemma work_less: "at p t v \<Longrightarrow> to_go w < to_go v \<Longrightarrow> work_left (goto t w p) < work_left p"
  using work_goto [of p t v w] by simp

lemma work_cong: "mThreads p' = mThreads p \<Longrightarrow> work_left p' = work_left p"
  by (simp add: work_left_def)

lemma worker_progresses:
  assumes "worker_step t p p'"
  shows "work_left p' < work_left p"
  using assms
proof cases
  case (take task rest)
  let ?p = "p\<lparr>mTasks := rest, tp_started := tp_started p @ [task]\<rparr>"
  show ?thesis
    using work_goto [of ?p t Popping "Calling (Some task)"] take at_cong [of ?p p] work_cong [of ?p p] by simp
next
  case count
  let ?p = "p\<lparr>mJobsRemaining := mJobsRemaining p - 1\<rparr>"
  show ?thesis
    using work_goto [of ?p t Counting Testing] count at_cong [of ?p p] work_cong [of ?p p] by simp
qed (auto intro: work_less)

definition settled :: "'a ThreadPool \<Rightarrow> bool" where
  "settled p \<longleftrightarrow> (\<forall>t p'. \<not> worker_step t p p')"

definition some_worker :: "'a ThreadPool \<Rightarrow> 'a ThreadPool \<Rightarrow> bool" where
  "some_worker p p' \<longleftrightarrow> (\<exists>t. worker_step t p p')"

lemma steps_bounded: "(some_worker ^^ k) p p' \<Longrightarrow> k + work_left p' \<le> work_left p"
proof (induction k arbitrary: p')
  case (Suc k)
  then obtain p1 where "(some_worker ^^ k) p p1" "some_worker p1 p'" by auto
  moreover have "work_left p' < work_left p1" using calculation(2) worker_progresses by (auto simp: some_worker_def)
  ultimately show ?case using Suc.IH [of p1] by simp
qed simp

lemma work_bound: "work_left p \<le> 5 * length (mThreads p)"
proof -
  have "to_go w \<le> 5" for w :: "'a worker" by (cases w) simp_all
  then have "sum_list (map to_go ws) \<le> 5 * length ws" for ws :: "'a worker list"
    by (induction ws) (simp_all add: add_mono)
  then show ?thesis by (simp add: work_left_def)
qed

interpretation threads: settling "some_worker :: 'a ThreadPool \<Rightarrow> 'a ThreadPool \<Rightarrow> bool" "measure work_left"
  by unfold_locales (auto simp: some_worker_def dest: worker_progresses)

lemma settles: "\<exists>k p'. (some_worker ^^ k) p p' \<and> settled p'"
  using threads.comes_to_rest [of p] unfolding settled_def some_worker_def [abs_def]
  by (metis rtranclp_imp_relpowp)

lemma settled_threads:
  assumes s: "settled p" and run: "running_pool p" and t: "t < length (mThreads p)"
  shows "(mThreads p ! t = Popping \<and> mQueue (mTasks p) = []) \<or> (\<exists>task. mThreads p ! t = Running task)"
proof (cases "mThreads p ! t")
  case Popping
  have "queue_pop (mTasks p) = None"
  proof (rule ccontr)
    assume "queue_pop (mTasks p) \<noteq> None"
    then obtain x rest where "queue_pop (mTasks p) = Some (x, rest)" by auto
    then show False using worker_step.take [of p t x rest] s t Popping by (auto simp: settled_def at_def)
  qed
  then show ?thesis using Popping by (simp add: queue_pop_def split: list.splits)
next
  case Testing
  then show ?thesis using worker_step.enter [of p t] s t run by (auto simp: settled_def at_def running_pool_def isFinished_def)
next
  case Fetching
  then show ?thesis using worker_step.fetch [of p t] s t run by (auto simp: settled_def at_def running_pool_def isFinished_def)
next
  case (Calling x)
  then show ?thesis using worker_step.call_task [of p t] worker_step.call_empty [of p t] s t
    by (cases x) (auto simp: settled_def at_def)
next
  case Counting
  then show ?thesis using worker_step.count [of p t] s t by (auto simp: settled_def at_def)
qed (use running_at [OF run, of t] t in \<open>auto simp: at_def\<close>)


text \<open>At rest, with a thread for each task, every task runs.\<close>

lemma settled_runs:
  assumes s: "settled p" and run: "running_pool p" and pl: "placed p" and acc: "accounts jobs n p" and none: "tp_ended p = 0"
    and room: "length (tp_queued p) \<le> length (mThreads p)"
  shows "mset (running p) = mset (tp_queued p) \<and> mQueue (mTasks p) = []"
proof -
  note threads = settled_threads [OF s run]
  have at_rest: "w = Popping \<or> (\<exists>task. w = Running task)" if "w \<in> set (mThreads p)" for w
    using that threads by (metis in_set_conv_nth)
  have same: "held p = running p"
    unfolding held_def running_def by (intro arg_cong [where f = concat] map_cong refl) (use at_rest in fastforce)
  have q: "tp_queued p = tp_started p @ mQueue (mTasks p)" using acc by (simp add: accounts_def)
  have started: "mset (tp_started p) = mset (running p)" using pl none same by (simp add: placed_def)
  have "mQueue (mTasks p) = []"
  proof (cases "Popping \<in> set (mThreads p)")
    case True
    then obtain t where "t < length (mThreads p)" "mThreads p ! t = Popping" by (auto simp: in_set_conv_nth)
    then show ?thesis using threads [of t] by auto
  next
    case False
    have "length (concat (map (\<lambda>w. case w of Running task \<Rightarrow> [task] | _ \<Rightarrow> []) ws)) = length ws"
      if "\<forall>w \<in> set ws. \<exists>task. w = Running task" for ws :: "'a worker list"
      using that by (induction ws) auto
    then have "length (running p) = length (mThreads p)" using at_rest False unfolding running_def by blast
    then have "length (tp_started p) = length (mThreads p)" using started by (metis size_mset)
    then show ?thesis using room q by simp
  qed
  then show ?thesis using started q by simp
qed

lemma worker_frame: "worker_step t p p' \<Longrightarrow> tp_queued p' = tp_queued p \<and> tp_ended p' = tp_ended p"
  by (erule worker_step.cases) simp_all

lemma workers_frame:
  "(some_worker ^^ k) p p' \<Longrightarrow> tp_queued p' = tp_queued p \<and> tp_ended p' = tp_ended p"
proof (induction k arbitrary: p')
  case (Suc k)
  then obtain p1 where "(some_worker ^^ k) p p1" "some_worker p1 p'" by auto
  moreover obtain t where "worker_step t p1 p'" using calculation(2) unfolding some_worker_def by blast
  ultimately show ?case using Suc.IH [of p1] worker_frame [of t p1 p'] by simp
qed simp

lemma workers_reach:
  "reachable (pool_init n hc jobs) pool_step p \<Longrightarrow> (some_worker ^^ k) p p' \<Longrightarrow> reachable (pool_init n hc jobs) pool_step p'"
proof (induction k arbitrary: p')
  case (Suc k)
  then obtain p1 where "(some_worker ^^ k) p p1" "some_worker p1 p'" by auto
  then show ?case using Suc pool_step.worker reachable.advance unfolding some_worker_def by metis
qed simp

lemma enqueued:
  "reachable (pool_init n hc jobs) pool_step p \<Longrightarrow> reachable (pool_init n hc jobs) pool_step (fold EnqueueTask xs p)
     \<and> tp_queued (fold EnqueueTask xs p) = tp_queued p @ xs \<and> tp_ended (fold EnqueueTask xs p) = tp_ended p"
proof (induction xs arbitrary: p)
  case (Cons x xs)
  have "reachable (pool_init n hc jobs) pool_step (EnqueueTask x p)"
    by (rule reachable.advance [OF Cons.prems pool_step.enqueue])
  from Cons.IH [OF this] show ?case by simp
qed simp

lemma settled_server:
  assumes r: "reachable (pool_init (hc * 2) hc jobs) pool_step p" and q: "tp_queued p = listen_tasks hc" "tp_ended p = 0"
    and hc: "0 < unat hc" "unat hc < 1000000" and s: "settled p"
  shows "mset (running p) = mset (listen_tasks hc) \<and> mQueue (mTasks p) = []"
proof -
  have inv: "running_pool p" "accounts jobs (2 * unat hc) p"
    using pool.reachable_inv [OF r] pool_size_eq [OF hc(2)] by (simp_all add: pool_inv_def pool_size_def)
  have "hc \<noteq> 0" using hc(1) by auto
  then have "length (listen_tasks hc) \<le> 2 * unat hc" using listen_tasks_eq [OF hc(2)] hc(1) by simp
  then have "length (tp_queued p) \<le> length (mThreads p)" using q(1) inv(2) unfolding accounts_def by metis
  then show ?thesis using settled_runs [OF s inv(1) placing.reachable_inv [OF r] inv(2) q(2)] q(1) by simp
qed

text \<open>A pool that has come to rest with the tasks of \<open>listen\<close>.\<close>

lemma listen_settles:
  assumes "0 < unat hc" and "unat hc < 1000000"
  shows "\<exists>p. reachable (pool_init (hc * 2) hc 0) pool_step p \<and> tp_queued p = listen_tasks hc \<and> tp_ended p = 0 \<and> settled p"
proof -
  let ?fresh = "ThreadPool_new (hc * 2) hc 0 False :: server_task ThreadPool"
  have "0 < num_threads (hc * 2) hc" using pool_size_eq [OF assms(2)] assms(1) by (simp add: pool_size_def)
  then have "pool_init (hc * 2) hc 0 ?fresh" by (simp only: pool_init_def)
  note r = enqueued [OF reachable.start [of "pool_init (hc * 2) hc 0", OF this], of "listen_tasks hc"]
  obtain k p where k: "(some_worker ^^ k) (fold EnqueueTask (listen_tasks hc) ?fresh) p" "settled p" using settles by blast
  then show ?thesis
    using workers_reach [OF conjunct1 [OF r] k(1)] workers_frame [OF k(1)] r by (auto simp: ThreadPool_new_def)
qed

section \<open>Properties\<close>

text \<open>
  C19. The server comes up. Let the flag of the pool happen to be false and the number of hardware threads be
  known. Once \<open>listen\<close> has queued its tasks, however the threads have got on by then, and while none of the
  tasks has returned, the threads make at most ten steps for each hardware thread before all of them wait
  for a task or run one; they can get there, and wherever they do, the accepting task, the sending task
  and every worker task run, each on a thread of its own, and no task is left in the queue.
\<close>

theorem server_comes_up:
  assumes "reachable (pool_init (hc * 2) hc jobs) pool_step p" and "tp_queued p = listen_tasks hc" and "tp_ended p = 0"
    and hc: "0 < unat hc" "unat hc < 1000000"
  shows "(\<forall>k p'. (some_worker ^^ k) p p' \<longrightarrow> k \<le> 10 * unat hc)
    \<and> (\<exists>k p'. (some_worker ^^ k) p p' \<and> settled p')
    \<and> (\<forall>k p'. (some_worker ^^ k) p p' \<and> settled p' \<longrightarrow>
         mset (running p') = mset (listen_tasks hc) \<and> mQueue (mTasks p') = [])"
proof (intro conjI allI impI)
  have size: "num_threads (hc * 2) hc = 2 * unat hc" using pool_size_eq [OF hc(2)] by (simp add: pool_size_def)
  have inv: "pool_inv (hc * 2) hc jobs q" if "reachable (pool_init (hc * 2) hc jobs) pool_step q" for q :: "server_task ThreadPool"
    by (rule pool.reachable_inv [OF that])
  fix k p' assume k: "(some_worker ^^ k) p p'"
  have "length (mThreads p) = 2 * unat hc" using inv [OF assms(1)] size by (simp add: pool_inv_def accounts_def)
  then show "k \<le> 10 * unat hc" using steps_bounded [OF k] work_bound [of p] by simp
next
  show "\<exists>k p'. (some_worker ^^ k) p p' \<and> settled p'" by (rule settles)
next
  fix k p' assume k: "(some_worker ^^ k) p p' \<and> settled p'"
  have r: "reachable (pool_init (hc * 2) hc jobs) pool_step p'" using workers_reach [OF assms(1)] k by blast
  have q: "tp_queued p' = listen_tasks hc" "tp_ended p' = 0" using workers_frame [of k p p'] k assms(2,3) by auto
  show "mset (running p') = mset (listen_tasks hc)" "mQueue (mTasks p') = []" using settled_server [OF r q hc] k by simp_all
qed

theorem server_comes_up_witness:
  "\<exists>(p :: server_task ThreadPool) (p' :: server_task ThreadPool). tp_queued p = listen_tasks 4 \<and> settled p'
    \<and> mset (running p') = {#GetConnections, SendTask, WorkerThread, WorkerThread, WorkerThread, WorkerThread#}"
proof -
  let ?fresh = "ThreadPool_new (4 * 2) 4 0 False :: server_task ThreadPool"
  let ?p = "fold EnqueueTask (listen_tasks 4) ?fresh"
  have "0 < num_threads (4 * 2) 4" using pool_size_eq [of 4] by (simp add: pool_size_def)
  then have "pool_init (4 * 2) 4 0 ?fresh" by (simp only: pool_init_def)
  note r = enqueued [OF reachable.start [of "pool_init (4 * 2) 4 0", OF this], of "listen_tasks 4"]
  have q: "tp_queued ?p = listen_tasks 4" "tp_ended ?p = 0" using r by (simp_all add: ThreadPool_new_def)
  have four: "0 < unat (4 :: cint)" "unat (4 :: cint) < 1000000" by simp_all
  have four_tasks: "listen_tasks 4 = [GetConnections, SendTask] @ replicate 4 WorkerThread"
    using listen_tasks_eq [of 4] by simp
  note up = server_comes_up [OF conjunct1 [OF r] q four]
  obtain k p' where p': "(some_worker ^^ k) ?p p'" "settled p'" using up by blast
  have "mset (running p') = mset (listen_tasks 4)" using up p' by blast
  moreover have "mset (listen_tasks 4) = {#GetConnections, SendTask, WorkerThread, WorkerThread, WorkerThread, WorkerThread#}"
    by (simp add: four_tasks eval_nat_numeral)
  ultimately show ?thesis using q(1) p'(2) by (intro exI [of _ ?p] exI [of _ p']) simp
qed

end
