(* ===== verification/ServerBoot.thy ===== *)
theory ServerBoot
  imports ServerVisits Startup
begin

text \<open>
  From the tasks of \<open>ServerManager::listen\<close> to the clients: how many workers serve is decided by the
  number of hardware threads, and with one or two of them nobody ever gets an answer.
\<close>

section \<open>Without workers\<close>

text \<open>Nothing is handled, so nothing is answered and nothing is sent.\<close>

lemma no_workers_step:
  assumes "traffic_step env x y" and "rs_workers (tr_run x) = []"
  shows "rs_workers (tr_run y) = [] \<and> tr_answered y = tr_answered x"
  using assms(1)
proof cases
  case (works t s')
  have "\<not> at_point (tr_run x) t p" for p using assms(2) by (simp add: at_point_def)
  then show ?thesis using works(3) by (auto elim: worker_moves.cases)
next
  case (sends_on s')
  then show ?thesis using sender_frame [OF sends_on(3)] assms(2) by simp
next
  case (around s')
  then show ?thesis using assms(2) by (auto simp: kill_def elim: system_moves.cases)
qed

lemma no_workers_silent:
  assumes "(traffic_step env)\<^sup>*\<^sup>* x y" and init: "traffic_init x" and none: "rs_workers (tr_run x) = []"
  shows "tr_sent y = []"
proof -
  have "rs_workers (tr_run y) = [] \<and> tr_answered y = []"
    using assms(1)
  proof (induction rule: rtranclp_induct)
    case base
    then show ?case using init none by (simp add: traffic_init_def)
  next
    case (step y z)
    then show ?case using no_workers_step by metis
  qed
  moreover have "traffic_inv y" by (rule traffic.steps_inv [OF assms(1) traffic.inv_init [OF init]])
  ultimately show ?thesis by (auto simp: traffic_inv_def traffic_ok_def split: option.splits)
qed

section \<open>With workers\<close>

text \<open>From the start, a first client that asks for the list gets at least one packet.\<close>

lemma workers_answer:
  assumes init: "traffic_init x" and workers: "rs_workers (tr_run x) \<noteq> []"
    and factory: "rs_factory (tr_run x) = (\<lambda>client h. make_handlers dir (re_fs env) junk cjunk client h)"
    and cat: "serves_catalog dir (re_fs env) junk cjunk cat" and alive: "\<forall>n. re_alive env n"
  shows "\<exists>y. (traffic_step env)\<^sup>*\<^sup>* x y \<and> tr_sent y \<noteq> []"
proof -
  let ?vs = "[Connect 9 50, Ask 9 (AskList 7)]"
  have x: "x = watched (tr_run x) [] []" and start: "run_init (tr_run x)" using init by (simp_all add: traffic_init_def watched_def)
  note c = calm_init [OF start workers]
  have free: "\<forall>k. k \<notin> {} \<longrightarrow> Map.empty k = None \<longrightarrow> rs_objects (tr_run x) k = None" using c by simp
  have none: "present dir (re_fs env) junk cjunk cat Map.empty (tr_run x)" by (simp add: present_def)
  have c0: "calm 0 (tr_run x)" "queued (tr_run x) = []" using c by simp_all
  have "script_ok env cat {} Map.empty ?vs" by simp
  then obtain s es where s: "(traffic_step env)\<^sup>*\<^sup>* (watched (tr_run x) [] []) (watched s ([] @ replies es) ([] @ map on_wire (replies es)))"
      "map fst es = asks_of Map.empty ?vs" "exchanges_ok env cat es"
    using script_served [OF c0 factory cat alive free none] by blast
  obtain pks where es: "es = [((50, AskList 7), pks)]" using s(2) by (cases es) auto
  have "pks \<noteq> []" using s(3) es by (auto simp: exchanges_ok_def)
  then have "tr_sent (watched s ([] @ replies es) ([] @ map on_wire (replies es))) \<noteq> []" using es by (simp add: watched_def)
  then show ?thesis using s(1) x by metis
qed

section \<open>Properties\<close>

text \<open>
  C20. The machine decides whether the server serves. Let \<open>listen\<close> have queued its tasks, on a machine with
  a known number of hardware threads, and let the threads of the pool have come to rest, each with its task;
  and let the running server start with as many workers as the pool runs worker tasks. Those are twice the
  hardware threads less four. So with one or two hardware threads no run of the server ever sends a byte,
  whatever connects and whatever arrives; with more there is a run in which a client gets an answer.
\<close>

theorem hardware_threads_decide:
  assumes "reachable (pool_init (hc * 2) hc jobs) pool_step p" and "tp_queued p = listen_tasks hc" and "tp_ended p = 0"
    and hc: "0 < unat hc" "unat hc < 1000000" and "settled p"
    and init: "traffic_init x" and workers: "length (rs_workers (tr_run x)) = count (mset (running p)) WorkerThread"
    and "rs_factory (tr_run x) = (\<lambda>client h. make_handlers dir (re_fs env) junk cjunk client h)"
    and "serves_catalog dir (re_fs env) junk cjunk cat" and "\<forall>n. re_alive env n"
  shows "length (rs_workers (tr_run x)) = 2 * unat hc - 4
    \<and> ((\<exists>y. (traffic_step env)\<^sup>*\<^sup>* x y \<and> tr_sent y \<noteq> []) \<longleftrightarrow> 2 < unat hc)"
proof -
  have "hc \<noteq> 0" using hc(1) by auto
  then have n: "length (rs_workers (tr_run x)) = 2 * unat hc - 4"
    using workers settled_server [OF assms(1-6)] listen_tasks_eq [OF hc(2)] by simp
  show ?thesis
  proof (cases "2 < unat hc")
    case True
    then have "rs_workers (tr_run x) \<noteq> []" using n by auto
    then show ?thesis using workers_answer [OF init _ assms(9-11)] n True by blast
  next
    case False
    then show ?thesis using no_workers_silent [OF _ init] n by auto
  qed
qed

text \<open>Four hardware threads, and two.\<close>

definition boot_traffic :: "nat \<Rightarrow> traffic" where
  "boot_traffic n = wav_traffic0\<lparr>tr_run := (tr_run wav_traffic0)\<lparr>rs_workers := replicate n AtPort\<rparr>\<rparr>"

lemma boot_traffic_simps: "rs_workers (tr_run (boot_traffic n)) = replicate n AtPort"
  "rs_factory (tr_run (boot_traffic n)) = (\<lambda>client h. make_handlers wav_dir (re_fs wav_env) (\<lambda>_ _. 0) (\<lambda>_ _. 0) client h)"
  "traffic_init (boot_traffic n)"
  using wav_traffic0_init wav_traffic0_simps(2) by (auto simp: boot_traffic_def traffic_init_def run_init_def)

theorem hardware_threads_decide_witness:
  "(\<exists>y. (traffic_step wav_env)\<^sup>*\<^sup>* (boot_traffic 4) y \<and> tr_sent y \<noteq> [])
    \<and> \<not> (\<exists>y. (traffic_step wav_env)\<^sup>*\<^sup>* (boot_traffic 0) y \<and> tr_sent y \<noteq> [])"
proof -
  have decide: "(\<exists>y. (traffic_step wav_env)\<^sup>*\<^sup>* (boot_traffic n) y \<and> tr_sent y \<noteq> []) \<longleftrightarrow> 2 < unat hc"
    if hc: "0 < unat hc" "unat hc < 1000000" "n = 2 * unat hc - 4" for hc :: cint and n
  proof -
    obtain p where p: "reachable (pool_init (hc * 2) hc 0) pool_step p" "tp_queued p = listen_tasks hc" "tp_ended p = 0" "settled p"
      using listen_settles [OF hc(1,2)] by blast
    have "hc \<noteq> 0" using hc(1) by auto
    then have "length (rs_workers (tr_run (boot_traffic n))) = count (mset (running p)) WorkerThread"
      using settled_server [OF p(1-3) hc(1,2) p(4)] listen_tasks_eq [OF hc(2)] hc(3) by (simp add: boot_traffic_simps)
    from hardware_threads_decide [OF p(1-3) hc(1,2) p(4) boot_traffic_simps(3) this boot_traffic_simps(2) demo_catalog_served wav_traffic0_simps(3)]
    show ?thesis by blast
  qed
  show ?thesis using decide [of 4 4] decide [of 2 0] by simp
qed

end
