(* ===== verification/ServerFaults.thy ===== *)
theory ServerFaults
  imports ServerVisits
begin

text \<open>
  What ends the running server: which faults a run can end in, and a run in which a busy server reads an
  array that the sending thread has deleted.
\<close>

section \<open>The faults of a step\<close>

text \<open>
  An exception nobody catches, the invalid parameter handler, the break after a failed \<open>WSARecv\<close> or
  \<open>WSASend\<close>, reading a released array, or past the end of what was put in its place; while accepting also
  what the factory may run into.
\<close>

definition server_faults :: "fault set" where
  "server_faults = {Terminate, InvalidParameter, DebugTrap, UseAfterFree, OutOfBounds}"

text \<open>Of the parts of an accept only the factory divides.\<close>

lemma accept_divides:
  assumes wf: "heap_wf (iw_heap (rs_world s))"
    and run: "acceptConnection key junk True status sock (manager_of s) = Inl DivideByZero"
  shows "\<exists>h. rs_factory s key h = Inl DivideByZero"
proof -
  have w: "iw_heap (sm_world (manager_of s)) = iw_heap (rs_world s)" "mClientFactory (manager_of s) = Some (rs_factory s)"
    by (simp_all add: manager_of_def)
  obtain c h1 where c: "Client_new sock sizeof_Packet junk (iw_heap (rs_world s)) = Inr (c, h1)"
    using Client_new_ok [OF wf] by metis
  have read: "res_bind (BeginRead status c1 w1) (\<lambda>(c2, w2). Inr (g c2 w2)) \<noteq> Inl DivideByZero"
    for c1 w1 and g :: "Client \<Rightarrow> io_world \<Rightarrow> ServerManager"
    by (simp add: BeginRead_def Let_def)
  show ?thesis
  proof (cases "rs_factory s key h1")
    case (Inl f)
    then show ?thesis using run c w by (auto simp: acceptConnection_def)
  next
    case (Inr r)
    then show ?thesis using run c w read by (auto simp: acceptConnection_def split: prod.splits)
  qed
qed

lemma CompleteSend_faults:
  assumes wf: "heap_wf (iw_heap w)" and sent: "cl_sent c = (\<lambda>_ w. Inr w)" and run: "CompleteSend junk c w = Inl f"
  shows "f = UseAfterFree \<or> f = OutOfBounds"
proof -
  let ?n = "unat (wb_len (cl_send c))"
  obtain a h1 where new: "heap_new ?n junk (iw_heap w) = (a, h1)" by fastforce
  show ?thesis
  proof (cases "heap_load (wb_buf (cl_send c)) ?n h1")
    case (Inl g)
    then have "g = UseAfterFree \<or> g = OutOfBounds"
      by (auto simp: heap_load_def mem_read_def split: option.splits if_splits)
    moreover have "f = g" using run new Inl by (simp add: CompleteSend_def Buffer_from_def)
    ultimately show ?thesis by blast
  next
    case (Inr bs)
    then have len: "length bs = ?n" by (auto simp: heap_load_def split: option.splits dest: mem_read_length)
    note al = hp.alloc_fresh [OF wf new] hp.alloc_blocks [OF wf new]
    obtain h2 where h2: "heap_store a 0 bs h1 = Inr h2" "hp_cells h2 = (hp_cells h1)(a \<mapsto> bs)" "heap_wf h2"
      using hp.put_ok [of h1 a "new_bytes ?n junk" 0 bs] al len by auto
    have "heap_load a ?n h2 = Inr bs" using h2(2) len by (simp add: heap_load_ok)
    moreover obtain h3 where "heap_delete a h2 = Inr h3"
      using hp.release_ok [OF h2(3), of a bs] h2(2) al by auto
    ultimately have "CompleteSend junk c w = Inr (c, w\<lparr>iw_heap := h3\<rparr>)"
      using new Inr h2(1) by (simp add: CompleteSend_def Buffer_from_def sent getBuffer_def getSize_def Buffer_destroy_def)
    then show ?thesis using run by simp
  qed
qed

lemma step_fault:
  assumes inv: "run_inv s" and step: "run_step env s s'" and f: "rs_fault s' = Some f"
  shows "f \<in> server_faults \<or> f = DivideByZero \<and> (\<exists>key h. rs_factory s key h = Inl DivideByZero)"
proof -
  have ok: "rs_fault s = None" using step by (simp add: run_step_def)
  have good: "client_ok c (rs_world s)" "heap_wf (iw_heap (rs_world s))" "cl_sent c = (\<lambda>_ w. Inr w)"
    if "rs_objects s k = Some c" for k c
    using run_inv_client [OF inv that] run_inv_wf [OF inv] inv that store_invD(2) unfolding run_inv_def by blast+
  consider t where "worker_moves env t s s'" | "sender_moves s s'" | "system_moves s s'" using step by (auto simp: run_step_def)
  then show ?thesis
  proof cases
    case 1
    then show ?thesis
    proof cases
      case (read_fault b n key c junk g)
      have "g = InvalidParameter" using CompleteRead_spec [OF good(1) [OF read_fault(5)], of env junk "ucast n"] read_fault(7) by simp
      then show ?thesis using f ok read_fault(1) by (simp add: kill_def server_faults_def)
    next
      case (send_fault b n key c junk g)
      have "g = UseAfterFree \<or> g = OutOfBounds" by (rule CompleteSend_faults [OF good(2,3) [OF send_fault(5)] send_fault(7)])
      then show ?thesis using f ok send_fault(1) by (auto simp: kill_def server_faults_def)
    next
      case (trap key c status g)
      have "g = DebugTrap" using trap(4) by (simp add: BeginRead_def Let_def split: if_splits)
      then show ?thesis using f trap(1) by (simp add: kill_def server_faults_def)
    next
      case (release key)
      then show ?thesis using f ok release_threads [OF release(2)] by simp
    qed (use f ok in \<open>auto simp: kill_def server_faults_def\<close>)
  next
    case 2
    then show ?thesis
    proof cases
      case (begin_send_trap data cp c status g)
      have "g = DebugTrap" using begin_send_trap(4) by (simp add: BeginSend_def Let_def split: if_splits)
      then show ?thesis using f begin_send_trap(1) by (simp add: kill_def server_faults_def)
    next
      case (unlock data key)
      then show ?thesis using f ok release_threads [OF unlock(2)] by simp
    qed (use f ok in auto)
  next
    case 3
    then show ?thesis
    proof cases
      case (accept_fault key junk status sock g)
      then show ?thesis
        using f accept_divides [OF run_inv_wf [OF inv], of key junk status sock]
        by (cases g) (auto simp: kill_def server_faults_def std_exception_def)
    qed (use f ok in simp_all)
  qed
qed

section \<open>A client that disturbs another\<close>

lemma traffic_run_on: "(traffic_step env)\<^sup>*\<^sup>* x y \<Longrightarrow> (run_step env)\<^sup>*\<^sup>* (tr_run x) (tr_run y)"
proof (induction rule: rtranclp_induct)
  case (step y z)
  have "run_step env (tr_run y) (tr_run z)" using step.hyps(2) by cases (auto simp: run_step_def)
  then show ?case by (rule rtranclp.rtrancl_into_rtrancl [OF step.IH])
qed simp

lemma hushed_run_on: "(hushed env)\<^sup>*\<^sup>* s s' \<Longrightarrow> (run_step env)\<^sup>*\<^sup>* s s'"
  using traffic_run_on [OF hushed_lift, of env s s' "[]" "[]"] by (simp add: watched_def)

lemma run_sender:
  "(run_step env)\<^sup>*\<^sup>* s0 s \<Longrightarrow> rs_fault s = None \<Longrightarrow> sender_moves s s' \<Longrightarrow> (run_step env)\<^sup>*\<^sup>* s0 s'"
  by (erule rtranclp.rtrancl_into_rtrancl) (auto simp: run_step_def)

text \<open>
  The sending thread waits for a send of the client at \<open>a\<close>; a few bytes from the client at \<open>b\<close> arrive, and
  the worker that handles them wakes it.
\<close>

lemma disturbed:
  assumes inv: "run_inv s" and ok: "rs_fault s = None" and at: "at_point s t AtPort" and port: "rs_port s = []"
    and snd: "rs_sender s = ItemWaits data a" and b: "connected b sock hls s" "b \<noteq> a"
  obtains s' where "(run_step env)\<^sup>*\<^sup>* s s'" and "run_inv s'" and "rs_fault s' = None" and "at_point s' t AtPort" and "rs_port s' = []"
    and "rs_sender s' = ItemWoken data a" and "rs_sockets s' = rs_sockets s" and "rs_sends s' = rs_sends s"
    and "rs_objects s' a = rs_objects s a"
proof -
  obtain c r where c: "rs_objects s b = Some c" "cl_state c = READ_STATE" "rs_recvs s b = Suc r" "b \<in> rs_sockets s"
    using b(1) by (auto simp: connected_def gr0_conv_Suc)
  obtain w where step: "run_step env s (s\<lparr>rs_world := w, rs_recvs := (rs_recvs s)(b := r), rs_port := rs_port s @ [(True, 4, b)]\<rparr>)"
      (is "run_step env s ?s1")
    by (rule arrive_runs [OF inv ok c(1,3), of 4 env]) simp_all
  have inv1: "run_inv ?s1" by (rule server.inv_step [OF inv step])
  have at1: "at_point ?s1 t AtPort" using at by (simp add: at_point_def)
  obtain s2 where s2: "(run_step env)\<^sup>*\<^sup>* ?s1 s2" "rs_workers s2 = rs_workers ?s1" "rs_port s2 = []" "rs_fault s2 = None"
      "rs_sender s2 = ItemWoken data a" "rs_sockets s2 = rs_sockets ?s1" "rs_sends s2 = rs_sends ?s1"
      "\<forall>k. k \<noteq> b \<longrightarrow> rs_objects s2 k = rs_objects ?s1 k"
    using message_pass [OF inv1 _ at1, of 4 b c env] ok port c snd by auto
  have run: "(run_step env)\<^sup>*\<^sup>* s s2" by (rule converse_rtranclp_into_rtranclp [OF step s2(1)])
  show thesis
    by (rule that [OF run server.steps_inv [OF run inv]]) (use s2 b(2) at1 in \<open>simp_all add: at_point_def\<close>)
qed

text \<open>Woken too early, the sending thread deletes the array; then its send completes.\<close>

lemma early_delete:
  assumes inv: "run_inv s" and ok: "rs_fault s = None" and at: "at_point s t AtPort" and port: "rs_port s = []"
    and snd: "rs_sender s = ItemWoken data a" and k: "a \<in> rs_sockets s" and sends: "rs_sends s = pending @ [(a, n)]" and n: "n \<noteq> 0"
    and c: "rs_objects s a = Some c" "cl_state c = SEND_STATE" "wb_buf (cl_send c) = data"
  shows "\<exists>s'. (run_step env)\<^sup>*\<^sup>* s s' \<and> rs_fault s' = Some UseAfterFree"
proof -
  have a0: "a \<noteq> 0" using inv c store_invD(2) unfolding run_inv_def by blast
  have live: "data \<noteq> 0" "hp_cells (iw_heap (rs_world s)) data \<noteq> None"
    using inv snd store_invD(4) unfolding run_inv_def by fastforce+
  note wf = run_inv_wf [OF inv]
  let ?h = "(iw_heap (rs_world s))\<lparr>hp_cells := (hp_cells (iw_heap (rs_world s)))(data := None)\<rparr>"
  have del: "heap_delete data (iw_heap (rs_world s)) = Inr ?h" using live by (auto simp: heap_delete_def)
  have old: "data \<noteq> hp_next (iw_heap (rs_world s))" using live(2) wf by (auto simp: heap_wf_def)
  let ?s1 = "s\<lparr>rs_sender := ItemDone data\<rparr>"
  let ?s2 = "?s1\<lparr>rs_world := (rs_world s)\<lparr>iw_heap := ?h\<rparr>, rs_sender := NextItem\<rparr>"
  let ?s3 = "?s2\<lparr>rs_sends := pending, rs_port := [(True, n, a)]\<rparr>"
  let ?s4 = "go t (Holding True n a) (?s3\<lparr>rs_port := []\<rparr>)"
  have m1: "sender_moves s ?s1" by (rule sender_moves.unlock [OF snd]) (simp add: release_client_def k)
  have m2: "sender_moves ?s1 ?s2" using sender_moves.delete [of ?s1 data ?h] del by simp
  have m3: "system_moves ?s2 ?s3" using system_moves.sent [of ?s2 pending a n "[]" True] sends port by simp
  have r3: "(run_step env)\<^sup>*\<^sup>* s ?s3"
    by (rule run_system [OF run_sender [OF run_sender [OF rtranclp.rtrancl_refl _ m1] _ m2] _ m3]) (use ok in simp_all)
  have r4: "(hushed env)\<^sup>*\<^sup>* ?s3 ?s4" by (rule pass_to_holding) (use ok at k a0 in \<open>simp_all add: at_point_def\<close>)
  have at4: "at_point ?s4 t (Holding True n a)" using at by (simp add: at_point_def go_def)
  have "CompleteSend (\<lambda>_. 0) c (rs_world ?s4) = Inl UseAfterFree"
    using old c(3) by (simp add: CompleteSend_def Buffer_from_def heap_new_def heap_load_def)
  then have m5: "worker_moves env t ?s4 (kill UseAfterFree ?s4)"
    using worker_moves.send_fault [OF at4, of c "\<lambda>_. 0" UseAfterFree env] n c by simp
  have "(run_step env)\<^sup>*\<^sup>* s (kill UseAfterFree ?s4)"
    by (rule run_worker [OF rtranclp_trans [OF r3 hushed_run_on [OF r4]] _ m5]) (use ok in simp)
  then show ?thesis by (intro exI [of _ "kill UseAfterFree ?s4"]) (simp add: kill_def)
qed

text \<open>From the start, two clients connect.\<close>

lemma two_connected:
  assumes init: "run_init s" and some: "rs_workers s \<noteq> []"
    and factory: "rs_factory s = (\<lambda>client h. make_handlers dir fs junk cjunk client h)" and cat: "serves_catalog dir fs junk cjunk cat"
  obtains s' ah st h0 h1 hls where "(hushed env)\<^sup>*\<^sup>* s s'" and "calm 0 s'" and "queued s' = []"
    and "make_handlers dir fs junk cjunk 9 h0 = Inr ([AudioH ah, SettingsH st], h1)" and "catalog_of (ah_files ah) = cat"
    and "connected 9 50 [AudioH ah, SettingsH st] s'" and "connected 11 60 hls s'"
proof -
  note calm = calm_init [OF init some]
  have none: "present dir fs junk cjunk cat Map.empty s" by (simp add: present_def)
  obtain s1 where s1: "(hushed env)\<^sup>*\<^sup>* s s1" "calm 0 s1" "queued s1 = []" "same_others 9 s s1"
      "present dir fs junk cjunk cat (Map.empty(9 \<mapsto> 50)) s1"
    by (rule visitor_connects [OF _ _ _ _ _ factory cat none, of 0 9 env 50]) (use calm in auto)
  have f1: "rs_factory s1 = (\<lambda>client h. make_handlers dir fs junk cjunk client h)" "rs_objects s1 11 = None"
    using s1(4) factory calm by (simp_all add: same_others_def)
  obtain s2 where s2: "(hushed env)\<^sup>*\<^sup>* s1 s2" "calm 0 s2" "queued s2 = []"
      "present dir fs junk cjunk cat ([9 \<mapsto> 50, 11 \<mapsto> 60]) s2"
    by (rule visitor_connects [OF s1(2,3) _ f1(2) _ f1(1) cat s1(5), of env 60]) simp_all
  obtain ah st h0 h1 where hls: "make_handlers dir fs junk cjunk 9 h0 = Inr ([AudioH ah, SettingsH st], h1)"
      "catalog_of (ah_files ah) = cat" "connected 9 50 [AudioH ah, SettingsH st] s2"
    using s2(4) unfolding present_def by (fastforce dest: spec [of _ 9])
  obtain other where other: "connected 11 60 other s2" using s2(4) unfolding present_def by (fastforce dest: spec [of _ 11])
  show thesis by (rule that [OF rtranclp_trans [OF s1(1) s2(1)] s2(2,3) hls other])
qed

text \<open>From the start, two clients are connected and the sending thread waits for a send of the first.\<close>

lemma waits_for_first:
  assumes init: "run_init s" and some: "rs_workers s \<noteq> []"
    and factory: "rs_factory s = (\<lambda>client h. make_handlers dir (re_fs env) junk cjunk client h)"
    and cat: "serves_catalog dir (re_fs env) junk cjunk cat" and alive: "\<forall>n. re_alive env n"
  obtains s' c data pending n hls where "(run_step env)\<^sup>*\<^sup>* s s'" and "run_inv s'" and "rs_fault s' = None" and "at_point s' 0 AtPort"
    and "rs_port s' = []" and "rs_sender s' = ItemWaits data 9" and "connected 11 60 hls s'" and "9 \<in> rs_sockets s'"
    and "rs_sends s' = pending @ [(9, n)]" and "n \<noteq> 0" and "rs_objects s' 9 = Some c" and "cl_state c = SEND_STATE"
    and "wb_buf (cl_send c) = data"
proof -
  obtain s2 ah st h0 h1 other where s2: "(hushed env)\<^sup>*\<^sup>* s s2" "calm 0 s2" "queued s2 = []"
    and hls: "make_handlers dir (re_fs env) junk cjunk 9 h0 = Inr ([AudioH ah, SettingsH st], h1)" "catalog_of (ah_files ah) = cat"
      "connected 9 50 [AudioH ah, SettingsH st] s2" and other: "connected 11 60 other s2"
    by (rule two_connected [OF init some factory cat, of env])
  have rest: "at_rest 0 9 50 [AudioH ah, SettingsH st] s2" using s2(2) hls(3) by (simp add: at_rest_def)
  have r: "request_ok env cat (AskList 7)" by simp
  have "\<exists>s3 pks. (traffic_step env)\<^sup>*\<^sup>* (watched s2 [] []) (watched s3 ([] @ map (Pair 50) pks) [])
      \<and> at_rest 0 9 50 [AudioH ah, SettingsH st] s3 \<and> queued s3 = map (Pair 9) pks \<and> same_others 9 s2 s3 \<and> answer_to env cat (AskList 7) pks"
    by (rule request_queued [OF rest s2(3) request_bytes_length [OF r]]) (erule (1) request_answered [OF hls(1,2) r alive])
  then obtain s3 pks where s3: "(traffic_step env)\<^sup>*\<^sup>* (watched s2 [] []) (watched s3 ([] @ map (Pair 50) pks) [])"
      "at_rest 0 9 50 [AudioH ah, SettingsH st] s3" "queued s3 = map (Pair 9) pks" "same_others 9 s2 s3" "answer_to env cat (AskList 7) pks"
    by blast
  obtain pk items where pks: "pks = pk # items" using s3(5) by (cases pks) auto
  have pk: "packet_wf pk" "pkt_type pk \<noteq> type_val INVALID" using answer_to_wf [OF s3(5)] pks by simp_all
  have q: "queued s3 = (9, pk) # map (Pair 9) items" using s3(3) pks by simp
  obtain data c s4 s5 and bs :: "byte list" where s5: "(hushed env)\<^sup>*\<^sup>* s3 s4" "rs_fault s4 = None" "sender_moves s4 s5" "rs_sender s5 = ItemSent data 9"
      "rs_fault s5 = None" "at_point s5 0 AtPort" "rs_port s5 = []" "rs_sends s5 = rs_sends s3 @ [(9, wb_len (cl_send c))]"
      "9 \<in> rs_sockets s5" "rs_objects s5 9 = Some c" "cl_state c = SEND_STATE" "wb_buf (cl_send c) = data"
      "unat (wb_len (cl_send c)) = length bs" "bs \<noteq> []" "run_inv s5" "same_others 9 s3 s5"
    by (rule item_is_started [OF s3(2) q pk, of env]) blast
  let ?s6 = "s5\<lparr>rs_sender := ItemWaits data 9\<rparr>"
  have m6: "sender_moves s5 ?s6" by (rule sender_moves.wait [OF s5(4)])
  have "(run_step env)\<^sup>*\<^sup>* s2 s3" using traffic_run_on [OF s3(1)] by (simp add: watched_def)
  then have "(run_step env)\<^sup>*\<^sup>* s s4"
    using hushed_run_on [OF s2(1)] hushed_run_on [OF s5(1)] by (meson rtranclp_trans)
  then have run: "(run_step env)\<^sup>*\<^sup>* s ?s6" by (rule run_sender [OF run_sender [OF _ s5(2,3)] s5(5) m6])
  have "connected 11 60 other s5"
    using other connected_others [OF same_others_trans [OF s3(4) s5(16)], of 11 60 other] by simp
  then have "connected 11 60 other ?s6" by (simp add: connected_def)
  moreover have "wb_len (cl_send c) \<noteq> 0" using s5(13,14) by auto
  ultimately show thesis
    using that [OF run sender_keeps_inv [OF m6 s5(15)]] s5 by (simp add: at_point_def)
qed

section \<open>Properties\<close>

text \<open>
  C9. What can end the server. However the threads, the clients and the system go on, the step that ends a
  running server is one of six: an exception that nothing catches, the invalid parameter handler of the C
  runtime, the break after a failed \<open>WSARecv\<close> or \<open>WSASend\<close>, a read of a released array or past the end of the
  one that took its place, a write past the end of one, or a division by zero, and this only where the
  factory divides by zero for a new client. No standard exception and no thrown string leaves a thread as
  such, and after the end there is no step.
\<close>

theorem what_ends_the_server:
  assumes "reachable run_init (run_step env) s" and "run_step env s s'" and "rs_fault s' = Some f"
  shows "(f \<in> {Terminate, InvalidParameter, DebugTrap, UseAfterFree, OutOfBounds}
      \<or> f = DivideByZero \<and> (\<exists>key h. rs_factory s key h = Inl DivideByZero))
    \<and> (\<forall>s''. \<not> run_step env s' s'')"
  using step_fault [OF server.reachable_inv [OF assms(1)] assms(2,3)] assms(3)
  by (auto simp: server_faults_def run_step_def)



lemma demo_run0_ends: "\<exists>s. (run_step demo_env)\<^sup>*\<^sup>* demo_run0 s \<and> rs_fault s = Some Terminate"
  using race_runs [OF demo_run0_init] demo_factory_makes by (simp add: demo_run0_def)

theorem what_ends_the_server_witness:
  "\<exists>s s'. (run_step demo_env)\<^sup>*\<^sup>* demo_run0 s \<and> run_step demo_env s s' \<and> rs_fault s' = Some Terminate
    \<and> (\<forall>s''. \<not> run_step demo_env s' s'')"
proof -
  obtain s' where s': "(run_step demo_env)\<^sup>*\<^sup>* demo_run0 s'" "rs_fault s' = Some Terminate" using demo_run0_ends by blast
  moreover have "s' \<noteq> demo_run0" using s'(2) demo_run0_init by (auto simp: run_init_def)
  ultimately obtain s where s: "(run_step demo_env)\<^sup>*\<^sup>* demo_run0 s" "run_step demo_env s s'" by (metis rtranclp.cases)
  have r: "reachable run_init (run_step demo_env) s" by (rule reachable_steps [OF s(1) demo_run0_reachable])
  from what_ends_the_server [OF r s(2) s'(2)] show ?thesis using s s'(2) by blast
qed

end
