(* ===== verification/QueueSpec.thy ===== *)
theory QueueSpec
  imports ConcQueue
begin

text \<open>
  The monitor of Server/ConcurrentQueue.h implements the queue its callers see: an abstract machine
  that does one whole \<open>push\<close> or \<open>pop\<close> at a time is simulated by every interleaving of the threads, and
  the one step of a call that changes the abstract queue lies between its locking and its unlocking.
\<close>

section \<open>The abstract machine\<close>

text \<open>What was inserted, what was returned, and the queue.\<close>

type_synonym 'a queue_history = "'a list \<times> 'a list \<times> 'a ConcurrentQueue"

inductive atomic_step :: "'a queue_history \<Rightarrow> 'a queue_history \<Rightarrow> bool" where
  push: "atomic_step (ins, outs, q) (ins @ [x], outs, queue_push x q)"
| pop: "queue_pop q = Some (x, q') \<Longrightarrow> atomic_step (ins, outs, q) (ins, outs @ [x], q')"

inductive_cases atomic_stepE: "atomic_step a b"

definition atomic_init :: "'a queue_history \<Rightarrow> bool" where
  "atomic_init a \<longleftrightarrow> a = ([], [], \<lparr> mQueue = [] \<rparr>)"

text \<open>Its histories are the runs of the sequential operations.\<close>

lemma run_ops_snoc_push:
  "run_ops psh pp ops q = Some (out, q') \<Longrightarrow> run_ops psh pp (ops @ [Push x]) q = Some (out, psh x q')"
  by (induction psh pp ops q arbitrary: out rule: run_ops.induct) (auto split: option.splits)

lemma run_ops_snoc_pop:
  "run_ops psh pp ops q = Some (out, q') \<Longrightarrow> pp q' = Some (x, q'') \<Longrightarrow>
     run_ops psh pp (ops @ [Pop]) q = Some (out @ [x], q'')"
  by (induction psh pp ops q arbitrary: out rule: run_ops.induct) (auto split: option.splits)

lemma pushed_of_append [simp]: "pushed_of (xs @ ys) = pushed_of xs @ pushed_of ys"
  by (induction xs rule: pushed_of.induct) simp_all

definition ran :: "'a queue_op list \<Rightarrow> 'a queue_history \<Rightarrow> bool" where
  "ran ops a \<longleftrightarrow> run_ops queue_push queue_pop ops \<lparr> mQueue = [] \<rparr> = Some (fst (snd a), snd (snd a))
     \<and> pushed_of ops = fst a"

lemma ran_step:
  assumes "ran ops a" and "atomic_step a b"
  shows "\<exists>ops'. ran ops' b"
  using assms(2,1)
proof (induction rule: atomic_step.induct)
  case (push ins outs q x)
  then have "ran (ops @ [Push x]) (ins @ [x], outs, queue_push x q)"
    by (simp add: ran_def run_ops_snoc_push)
  then show ?case by blast
next
  case (pop q x q' ins outs)
  then have "ran (ops @ [Pop]) (ins, outs @ [x], q')"
    by (simp add: ran_def run_ops_snoc_pop)
  then show ?case by blast
qed

lemma ran_nil: "atomic_init a \<Longrightarrow> ran [] a"
  by (simp add: atomic_init_def ran_def)

interpretation atomic: invariant_system atomic_init atomic_step "\<lambda>a. \<exists>ops. ran ops a"
  by unfold_locales (use ran_nil ran_step in blast)+

section \<open>The simulation\<close>

definition queue_of :: "'a monitor \<Rightarrow> 'a ConcurrentQueue" where
  "queue_of s = \<lparr> mQueue = m_items s \<rparr>"

definition history_of :: "'a monitor \<Rightarrow> 'a queue_history" where
  "history_of s = (m_pushed s, m_popped s, queue_of s)"

lemma history_of_run: "monitor_run s t \<Longrightarrow> history_of t = history_of s \<or> atomic_step (history_of s) (history_of t)"
proof (induction rule: monitor_run.induct)
  case (pop_take s t x xs)
  then have "queue_pop (queue_of s) = Some (x, \<lparr> mQueue = xs \<rparr>)" by (simp add: queue_pop_def queue_of_def)
  then show ?case using atomic_step.pop by (fastforce simp: history_of_def queue_of_def)
next
  case (push_insert s t x)
  have "queue_push x (queue_of s) = \<lparr> mQueue = m_items s @ [x] \<rparr>" by (simp add: queue_push_def queue_of_def)
  then show ?case using atomic_step.push [of "m_pushed s" "m_popped s" "queue_of s" x]
    by (simp add: history_of_def queue_of_def)
qed (simp_all add: history_of_def queue_of_def)

interpretation mon_atomic: simulation monitor_init monitor_step monitor_inv history_of atomic_init atomic_step
proof unfold_locales
  fix s :: "'a monitor" assume "monitor_init s"
  then show "atomic_init (history_of s)" by (simp add: monitor_init_def atomic_init_def history_of_def queue_of_def)
next
  fix s t :: "'a monitor" assume "monitor_step s t"
  then show "history_of t = history_of s \<or> atomic_step (history_of s) (history_of t)"
    by (induction rule: monitor_step.induct) (auto simp: history_of_run, auto simp: history_of_def queue_of_def)
qed

text \<open>Where a call takes effect.\<close>

lemma pop_point:
  assumes "monitor_step s s'" and "m_at s' t = PopTaken x" and "m_at s t \<noteq> PopTaken x"
  shows "m_at s t = PopTest \<and> queue_pop (queue_of s) = Some (x, queue_of s')"
  using assms
  by (auto elim!: monitor_stepE monitor_runE simp: queue_pop_def queue_of_def wake_all_def split: if_splits)

lemma push_point:
  assumes "monitor_step s s'" and "m_at s t = PushInsert x" and "m_at s' t \<noteq> PushInsert x"
  shows "m_at s' t = PushUnlock \<and> queue_of s' = queue_push x (queue_of s)"
  using assms
  by (auto elim!: monitor_stepE monitor_runE simp: queue_push_def queue_of_def wake_all_def split: if_splits)

lemma got_point:
  assumes "monitor_step s s'" and "m_at s' t = Got x" and "m_at s t \<noteq> Got x"
  shows "m_at s t = PopTaken x"
  using assms by (auto elim!: monitor_stepE monitor_runE simp: wake_all_def split: if_splits)

lemma atomic_history:
  assumes "reachable monitor_init monitor_step s"
  obtains ops where "run_ops queue_push queue_pop ops \<lparr> mQueue = [] \<rparr> = Some (m_popped s, queue_of s)"
    and "pushed_of ops = m_pushed s"
  using atomic.reachable_inv [OF mon_atomic.refines [OF assms]] by (auto simp: ran_def history_of_def)

section \<open>Properties\<close>



end
