(* ===== verification/Sockets.thy ===== *)
theory Sockets
  imports Clients
begin

text \<open>
  Server/Socket.h and Server/Socket.cpp: the blocking socket of the older client manager. The two
  files define the constructor, the destructor, \<open>send\<close> and \<open>close\<close> twice, with different bodies; both are
  modelled, those written in the header as \<open>Inline_\<close>. What \<open>recv\<close> and \<open>send\<close> answer is an argument;
  every operation also gives the calls it makes or the bytes it hands over.
\<close>

section \<open>The socket\<close>

record Socket =
  so_fd :: socket
  so_addr :: "byte list"    \<comment> \<open>the \<open>sockaddr\_in\<close> of the peer\<close>
  so_wsabuf :: "WSABUF option"    \<comment> \<open>the shared pointer, null where no constructor made it\<close>

text \<open>
  The messages of the exceptions are literals with an error number added to their address: past the
  end of the literal there is nothing that may be read.
\<close>

definition literal_error :: "str \<Rightarrow> cint \<Rightarrow> fault" where
  "literal_error literal err =
     (if 0 \<le> sint err \<and> nat (sint err) \<le> length literal then RuntimeError else OutOfBounds)"

definition read_message :: str where
  "read_message = str_lit ''Socket error while reading: ''"

definition send_message :: str where
  "send_message = str_lit ''Socket error while sending: ''"

definition Socket_new :: "winsock \<Rightarrow> socket \<Rightarrow> byte list \<Rightarrow> (Socket \<times> wsa_call list) res" where
  "Socket_new ws sock peer =
     (if ws_startup ws \<noteq> 0 then Inl (literal_error startup_message (ws_last_error ws))
      else Inr (\<lparr> so_fd = sock, so_addr = peer, so_wsabuf = None \<rparr>, [WSAStartup]))"

text \<open>The constructor of the header also makes the buffer descriptor, zeroed as \<open>make_shared\<close> does.\<close>

definition Inline_new :: "winsock \<Rightarrow> socket \<Rightarrow> byte list \<Rightarrow> (Socket \<times> wsa_call list) res" where
  "Inline_new ws sock peer =
     (if ws_startup ws \<noteq> 0 then Inl (literal_error startup_message (ws_last_error ws))
      else Inr (\<lparr> so_fd = sock, so_addr = peer, so_wsabuf = Some \<lparr> wb_len = 0, wb_buf = 0 \<rparr> \<rparr>, [WSAStartup]))"

text \<open>
  What the system answers to \<open>recv\<close>: an error, or the bytes that have arrived (none when the peer has
  closed), of which at most the size asked for are delivered.
\<close>

datatype recv_answer = RecvFailed cint | Arrived "byte list"

text \<open>
  When nothing was received the function ends without a \<open>return\<close>; what its caller then sees is
  indeterminate and is an argument.
\<close>

definition Socket_read ::
    "recv_answer \<Rightarrow> size_t \<Rightarrow> addr \<Rightarrow> size_t \<Rightarrow> Socket \<Rightarrow> heap \<Rightarrow> (size_t \<times> heap) res" where
  "Socket_read answer junk_res buffer bytesRead this h =
     (case answer of
        RecvFailed err \<Rightarrow> Inl (literal_error read_message err)
      | Arrived bs \<Rightarrow>
          (let got = take (unat bytesRead) bs in
           if got = [] then Inr (junk_res, h)
           else res_bind (heap_store buffer 0 got h) (\<lambda>h'. Inr (of_nat (length got), h'))))"

definition Socket_send ::
    "cint \<Rightarrow> cint \<Rightarrow> addr \<Rightarrow> size_t \<Rightarrow> Socket \<Rightarrow> heap \<Rightarrow> (cint \<times> byte list) res" where
  "Socket_send answer err data dataSize this h =
     res_bind (if data \<noteq> 0
         then res_bind (heap_load data (unat (ucast dataSize :: cint)) h) (\<lambda>bs. Inr (answer, bs))
         else Inr (- 1, [])) (\<lambda>(returnVal, bs).
     if returnVal = - 1 then Inl (literal_error send_message err) else Inr (returnVal, bs))"

definition Socket_close :: "Socket \<Rightarrow> wsa_call list" where
  "Socket_close this = [CloseSocket (so_fd this)]"

definition Socket_destroy :: "Socket \<Rightarrow> wsa_call list" where
  "Socket_destroy this = WSACleanup # Socket_close this"

definition getFileDescriptor :: "Socket \<Rightarrow> socket" where "getFileDescriptor this = so_fd this"

definition validate :: "Socket \<Rightarrow> bool" where "validate this \<longleftrightarrow> so_fd this \<noteq> 0"

text \<open>The receive hands over the descriptor it has, which may be none.\<close>

definition beginReceive :: "cint \<Rightarrow> Socket \<Rightarrow> cint \<times> (socket \<times> WSABUF option)" where
  "beginReceive answer this = (answer, (so_fd this, so_wsabuf this))"

text \<open>The bodies in the header: \<open>close\<close> does nothing, and \<open>send\<close> neither sends nor returns a value.\<close>

definition Inline_close :: "Socket \<Rightarrow> wsa_call list" where
  "Inline_close this = []"

definition Inline_destroy :: "Socket \<Rightarrow> wsa_call list" where
  "Inline_destroy this = WSACleanup # Inline_close this"

definition Inline_send :: "cint \<Rightarrow> addr \<Rightarrow> size_t \<Rightarrow> Socket \<Rightarrow> cint \<times> byte list" where
  "Inline_send junk_res data dataSize this = (junk_res, [])"

section \<open>Reading and sending\<close>

lemma literal_error_cases: "literal_error l e = RuntimeError \<or> literal_error l e = OutOfBounds"
  by (simp add: literal_error_def)

lemma literal_error_other [simp]: "literal_error l e \<noteq> Terminate" "literal_error l e \<noteq> UseAfterFree"
  by (simp_all add: literal_error_def)

lemma Socket_read_spec:
  assumes wf: "heap_wf h" and m: "hp_cells h buffer = Some m" and len: "length m = unat n"
  shows "case Socket_read answer junk_res buffer n this h of
      Inl f \<Rightarrow> (\<exists>err. answer = RecvFailed err \<and> f = literal_error read_message err)
    | Inr (sz, h') \<Rightarrow> (\<exists>bs. answer = Arrived bs \<and> heap_wf h' \<and> (\<exists>m'. length m' = length m \<and> hp_cells h' = (hp_cells h)(buffer \<mapsto> m')
        \<and> (if take (unat n) bs = [] then sz = junk_res \<and> m' = m
           else unat sz = length (take (unat n) bs) \<and> take (unat sz) m' = take (unat n) bs)))"
proof (cases answer)
  case (Arrived bs)
  let ?got = "take (unat n) bs"
  show ?thesis
  proof (cases "?got = []")
    case True
    then show ?thesis using Arrived wf m by (simp add: Socket_read_def fun_upd_idem)
  next
    case False
    obtain h' m' where p: "heap_store buffer 0 ?got h = Inr h'" "mem_write 0 ?got m = Inr m'"
        "hp_cells h' = (hp_cells h)(buffer \<mapsto> m')" "heap_wf h'"
      using hp.put_ok [OF wf m, of 0 ?got] len by auto
    have l: "length ?got \<le> unat n" by simp
    have "length ?got < 2 ^ 64" using l unsigned_less [of n, where ?'a = nat] by simp
    then have u: "unat (of_nat (length ?got) :: size_t) = length ?got" by (simp add: unat_of_nat)
    have "m' = ?got @ drop (length ?got) m" using p(2) l len by (auto simp: mem_write_def split: if_splits)
    then have "take (length ?got) m' = ?got" by (metis append_eq_conv_conj)
    then show ?thesis using Arrived False p u length_mem_write [OF p(2)]
      by (auto simp: Socket_read_def Let_def)
  qed
qed (simp add: Socket_read_def)

lemma Socket_send_spec:
  assumes m: "hp_cells h data = Some m" and d: "data \<noteq> 0" and len: "unat n = length m" "length m < 4294967296"
  shows "Socket_send answer err data n this h =
    (if answer = - 1 then Inl (literal_error send_message err) else Inr (answer, m))"
proof -
  have "unat (ucast n :: cint) = length m" using len by (simp add: unsigned_ucast_eq take_bit_nat_eq_self)
  then show ?thesis using heap_load_ok [OF m, of "length m"] d by (simp add: Socket_send_def)
qed


text \<open>
  The two classes. A socket of the implementation file can be read, sent on and closed, but has no
  descriptor for \<open>beginReceive\<close>; one of the header has a descriptor of length zero, so that no byte can be
  received into it, sends nothing and keeps its connection when it is destroyed.
\<close>

lemma socket_variants:
  "Socket_new ws sock peer = Inr (a, calls) \<Longrightarrow> snd (snd (beginReceive r a)) = None \<and> CloseSocket sock \<in> set (Socket_destroy a)"
  "Inline_new ws sock peer = Inr (b, calls') \<Longrightarrow> (\<exists>wb. snd (snd (beginReceive r b)) = Some wb \<and> wb_len wb = 0)
     \<and> CloseSocket sock \<notin> set (Inline_destroy b) \<and> snd (Inline_send k data n b) = []"
  by (auto simp: Socket_new_def Inline_new_def beginReceive_def Socket_destroy_def Socket_close_def Inline_destroy_def
      Inline_close_def Inline_send_def split: if_splits)

end
