(* ===== verification/ClientManagers.thy ===== *)
theory ClientManagers
  imports Sockets
begin

text \<open>
  Server/ClientManager.h and Server/ClientManager.cpp: the older manager of one client, with a thread
  that receives and a thread that sends. One pass of each loop is a function; the two threads and the
  caller of \<open>start\<close>, which waits for them, are the steps of a relation.
\<close>

section \<open>The manager\<close>

record ClientManager =
  cm_socket :: Socket
  cm_handlers :: "InputHandler list"
  cm_queue :: "Packet ConcurrentQueue"
  cm_running :: bool

definition ClientManager_new :: "Socket \<Rightarrow> ClientManager" where
  "ClientManager_new sock =
     \<lparr> cm_socket = sock, cm_handlers = [], cm_queue = \<lparr> mQueue = [] \<rparr>, cm_running = False \<rparr>"

definition ClientManager_with_queue :: "Socket \<Rightarrow> Packet ConcurrentQueue \<Rightarrow> ClientManager" where
  "ClientManager_with_queue sock queue =
     \<lparr> cm_socket = sock, cm_handlers = [], cm_queue = queue, cm_running = False \<rparr>"

definition addListener :: "InputHandler \<Rightarrow> ClientManager \<Rightarrow> ClientManager" where
  "addListener handler this = this\<lparr>cm_handlers := cm_handlers this @ [handler]\<rparr>"

definition getHandlers :: "ClientManager \<Rightarrow> InputHandler list" where
  "getHandlers this = cm_handlers this"

definition cm_getSendQueue :: "ClientManager \<Rightarrow> Packet ConcurrentQueue" where
  "cm_getSendQueue this = cm_queue this"

definition closeClient :: "ClientManager \<Rightarrow> ClientManager \<times> wsa_call list" where
  "closeClient this = (this\<lparr>cm_running := False\<rparr>, Socket_close (cm_socket this))"

text \<open>The destructor only prints; the socket goes with the pointer that owns it.\<close>

definition ClientManager_destroy :: "ClientManager \<Rightarrow> wsa_call list" where
  "ClientManager_destroy this = Socket_destroy (cm_socket this)"

text \<open>
  Server/AudioClientManagerFactory.h. The handler it makes has no constructor without arguments any more,
  so the handler is an argument here.
\<close>

definition createClientManager :: "InputHandler \<Rightarrow> ClientManager \<Rightarrow> ClientManager" where
  "createClientManager audioHandler listener = addListener audioHandler listener"

text \<open>A manager that was closed closes its descriptor again when it goes, after Winsock was cleaned up.\<close>

lemma closed_twice:
  "closeClient this = (this', calls) \<Longrightarrow> calls @ ClientManager_destroy this' =
     [CloseSocket (so_fd (cm_socket this)), WSACleanup, CloseSocket (so_fd (cm_socket this))]"
  by (auto simp: closeClient_def ClientManager_destroy_def Socket_destroy_def Socket_close_def)

text \<open>The size of the array and the bytes copied into it: the id is not counted.\<close>

definition legacy_size :: "Packet \<Rightarrow> size_t" where
  "legacy_size item = scast (pkt_size item) + 4 + 4"

definition legacy_bytes :: "Packet \<Rightarrow> byte list res" where
  "legacy_bytes item = mem_read 0 (unat (legacy_size item)) (packet_image item)"

text \<open>
  What \<open>sendTask\<close> does with an item it has popped. The last component is what was handed to the system.
\<close>

definition send_popped ::
    "(nat \<Rightarrow> byte) \<Rightarrow> cint \<Rightarrow> cint \<Rightarrow> Packet \<Rightarrow> ClientManager \<Rightarrow> heap \<Rightarrow> (ClientManager \<times> heap \<times> byte list list) res"
  where
  "send_popped junk answer err item this h =
     (if pkt_type item \<noteq> type_val INVALID then
        (let packetSize = legacy_size item; (data, h1) = heap_new (unat packetSize) junk h in
         res_bind (legacy_bytes item) (\<lambda>bs.
         res_bind (heap_store data 0 bs h1) (\<lambda>h2.
         res_bind (case Socket_send answer err data packetSize (cm_socket this) h2 of
             Inl f \<Rightarrow> if std_exception f then Inr (this\<lparr>cm_running := False\<rparr>, []) else Inl f
           | Inr (_, out) \<Rightarrow> Inr (this, [out])) (\<lambda>(this1, out).
         res_bind (heap_delete data h2) (\<lambda>h3.
         Inr (this1, h3, out))))))
      else Inr (this, h, []))"

text \<open>The loop over the handlers: the call of the handler is commented out.\<close>

definition offer_packet :: "Packet \<Rightarrow> ClientManager \<Rightarrow> ClientManager" where
  "offer_packet packet this =
     fold (\<lambda>handler m. if listensFor (mListenFor handler) (pkt_type packet) then m else m) (cm_handlers this) this"

text \<open>One pass of the loop in \<open>recvTask\<close>.\<close>

definition recv_pass ::
    "(nat \<Rightarrow> byte) \<Rightarrow> size_t \<Rightarrow> recv_answer \<Rightarrow> ClientManager \<Rightarrow> heap \<Rightarrow> (ClientManager \<times> heap) res" where
  "recv_pass junk junk_res answer this h =
     (let recvSize = of_nat sizeof_Packet; (buffer, h1) = heap_new sizeof_Packet junk h in
      res_bind (case Socket_read answer junk_res buffer recvSize (cm_socket this) h1 of
          Inl f \<Rightarrow> if std_exception f then Inr (0, this\<lparr>cm_running := False\<rparr>, h1) else Inl f
        | Inr (msgSize, h2) \<Rightarrow> Inr (msgSize, this, h2)) (\<lambda>(msgSize, this1, h2).
      res_bind (if cm_running this1 \<and> 0 < msgSize \<and> buffer \<noteq> 0 then
            res_bind (heap_load buffer sizeof_Packet h2) (\<lambda>m.
            res_bind (extractPacket (Some m) msgSize) (\<lambda>packet.
            Inr (offer_packet packet this1)))
          else if msgSize = 0 then Inr (this1\<lparr>cm_running := False\<rparr>)
          else Inr this1) (\<lambda>this2.
      res_bind (heap_delete buffer h2) (\<lambda>h3.
      Inr (this2, h3)))))"

section \<open>The threads\<close>

datatype recv_point = RecvTest | RecvBody | RecvDone
datatype send_point = SendTest | SendPop | SendItem Packet | SendDone
datatype start_point = JoinRecv | PushStop | JoinSend | Closing | Closed

record manager_run =
  mr_cm :: ClientManager
  mr_heap :: heap
  mr_recv :: recv_point
  mr_send :: send_point
  mr_start :: start_point
  mr_out :: "byte list list"     \<comment> \<open>history: what was handed to the system\<close>
  mr_calls :: "wsa_call list"    \<comment> \<open>history: the calls that close\<close>

text \<open>The state when \<open>start\<close> has made the threads.\<close>

definition start_manager :: "ClientManager \<Rightarrow> heap \<Rightarrow> manager_run" where
  "start_manager this h =
     \<lparr> mr_cm = this\<lparr>cm_running := True\<rparr>, mr_heap = h, mr_recv = RecvTest, mr_send = SendTest,
       mr_start = JoinRecv, mr_out = [], mr_calls = [] \<rparr>"

text \<open>The steps the three threads can take without anything from outside.\<close>

inductive own_step :: "manager_run \<Rightarrow> manager_run \<Rightarrow> bool" where
  recv_test: "mr_recv s = RecvTest \<Longrightarrow>
    own_step s (s\<lparr>mr_recv := (if cm_running (mr_cm s) then RecvBody else RecvDone)\<rparr>)"
| send_test: "mr_send s = SendTest \<Longrightarrow>
    own_step s (s\<lparr>mr_send := (if cm_running (mr_cm s) then SendPop else SendDone)\<rparr>)"
| send_pop: "mr_send s = SendPop \<Longrightarrow> queue_pop (cm_queue (mr_cm s)) = Some (item, rest) \<Longrightarrow>
    own_step s (s\<lparr>mr_cm := (mr_cm s)\<lparr>cm_queue := rest\<rparr>, mr_send := SendItem item\<rparr>)"
| send_item: "mr_send s = SendItem item \<Longrightarrow>
    send_popped junk answer err item (mr_cm s) (mr_heap s) = Inr (this, h, out) \<Longrightarrow>
    own_step s (s\<lparr>mr_cm := this, mr_heap := h, mr_out := mr_out s @ out, mr_send := SendTest\<rparr>)"
| joined_recv: "mr_start s = JoinRecv \<Longrightarrow> mr_recv s = RecvDone \<Longrightarrow> own_step s (s\<lparr>mr_start := PushStop\<rparr>)"
| push_stop: "mr_start s = PushStop \<Longrightarrow> Packet_ctor3 junk (type_val INVALID) 0 None = Inr item \<Longrightarrow>
    own_step s (s\<lparr>mr_cm := (mr_cm s)\<lparr>cm_queue := queue_push item (cm_queue (mr_cm s))\<rparr>, mr_start := JoinSend\<rparr>)"
| joined_send: "mr_start s = JoinSend \<Longrightarrow> mr_send s = SendDone \<Longrightarrow> own_step s (s\<lparr>mr_start := Closing\<rparr>)"
| closing: "mr_start s = Closing \<Longrightarrow> closeClient ((mr_cm s)\<lparr>cm_handlers := []\<rparr>) = (this, calls) \<Longrightarrow>
    own_step s (s\<lparr>mr_cm := this, mr_calls := mr_calls s @ calls, mr_start := Closed\<rparr>)"

text \<open>What comes from outside: an answer of the peer, and packets queued for the client.\<close>

inductive peer_step :: "manager_run \<Rightarrow> manager_run \<Rightarrow> bool" where
  received: "mr_recv s = RecvBody \<Longrightarrow> recv_pass junk junk_res answer (mr_cm s) (mr_heap s) = Inr (this, h) \<Longrightarrow>
    peer_step s (s\<lparr>mr_cm := this, mr_heap := h, mr_recv := RecvTest\<rparr>)"
| queued: "packet_wf item \<Longrightarrow>
    peer_step s (s\<lparr>mr_cm := (mr_cm s)\<lparr>cm_queue := queue_push item (cm_queue (mr_cm s))\<rparr>\<rparr>)"

definition legacy_step :: "manager_run \<Rightarrow> manager_run \<Rightarrow> bool" where
  "legacy_step s t \<longleftrightarrow> own_step s t \<or> peer_step s t"

definition legacy_init :: "manager_run \<Rightarrow> bool" where
  "legacy_init s \<longleftrightarrow> (\<exists>sock handlers h. heap_wf h \<and>
     s = start_manager (fold addListener handlers (ClientManager_new sock)) h)"

inductive_cases own_stepE: "own_step s t"
inductive_cases peer_stepE: "peer_step s t"

section \<open>What is sent\<close>

lemma unat_legacy_size:
  assumes "packet_wf p"
  shows "unat (legacy_size p) = 8 + unat (pkt_size p)"
proof -
  have "unat (scast (pkt_size p) :: size_t) = unat (pkt_size p)"
    using assms by (intro unat_scast64) (simp add: packet_wf_def)
  then show ?thesis using packet_wf_size [OF assms] by (simp add: legacy_size_def unat_word_ariths)
qed

lemma legacy_bytes_eq:
  assumes "packet_wf p"
  shows "legacy_bytes p = Inr (le_bytes 4 (pkt_size p) @ le_bytes 4 (pkt_type p)
    @ take (unat (pkt_size p)) (le_bytes 4 (pkt_id p) @ payload p))"
proof -
  let ?n = "unat (pkt_size p)"
  have n: "?n \<le> 1024" "length (packetData p) = 1024"
    using packet_wf_size [OF assms] assms by (simp_all add: packet_wf_def)
  have "legacy_bytes p = Inr (take (8 + ?n) (packet_image p))"
    using n by (simp add: legacy_bytes_def unat_legacy_size [OF assms] packet_image_def)
  moreover have "take (8 + ?n) (packet_image p) = le_bytes 4 (pkt_size p) @ le_bytes 4 (pkt_type p)
      @ take ?n (le_bytes 4 (pkt_id p) @ packetData p)"
    by (simp add: packet_image_def)
  moreover have "take ?n (le_bytes 4 (pkt_id p) @ packetData p) = take ?n (le_bytes 4 (pkt_id p) @ payload p)"
    by (simp add: payload_def min_def)
  ultimately show ?thesis by simp
qed

lemma send_popped_ok:
  assumes wf: "heap_wf h" and pk: "packet_wf item" and ty: "pkt_type item \<noteq> type_val INVALID"
  shows "\<exists>h'. heap_wf h' \<and> hp_cells h' = hp_cells h \<and> send_popped junk answer err item this h =
    (if answer = - 1 then (case literal_error send_message err of
         RuntimeError \<Rightarrow> Inr (this\<lparr>cm_running := False\<rparr>, h', []) | f \<Rightarrow> Inl f)
     else Inr (this, h', [case legacy_bytes item of Inr bs \<Rightarrow> bs]))"
proof -
  obtain bs where bs: "legacy_bytes item = Inr bs" using legacy_bytes_eq [OF pk] by blast
  have len: "length bs = unat (legacy_size item)" using bs by (auto simp: legacy_bytes_def dest: mem_read_length)
  have small: "length bs < 4294967296"
    using len unat_legacy_size [OF pk] packet_wf_size [OF pk] by simp
  obtain a h1 where new: "heap_new (unat (legacy_size item)) junk h = (a, h1)" by fastforce
  note a = hp.alloc_fresh [OF wf new] hp.alloc_blocks [OF wf new]
  obtain h2 where h2: "heap_store a 0 bs h1 = Inr h2" "hp_cells h2 = (hp_cells h1)(a \<mapsto> bs)" "heap_wf h2"
    using hp.put_ok [of h1 a "new_bytes (unat (legacy_size item)) junk" 0 bs] a len by auto
  obtain h3 where h3: "heap_delete a h2 = Inr h3" "heap_wf h3" "hp_cells h3 = hp_cells h"
    using hp.release_ok [OF h2(3), of a bs] h2(2) a by (auto simp: fun_upd_idem)
  have m: "hp_cells h2 a = Some bs" using h2(2) by simp
  have snd: "Socket_send answer err a (legacy_size item) (cm_socket this) h2 =
      (if answer = - 1 then Inl (literal_error send_message err) else Inr (answer, bs))"
    using Socket_send_spec [OF m] a(1) len small by simp
  have "send_popped junk answer err item this h =
    (if answer = - 1 then (case literal_error send_message err of
         RuntimeError \<Rightarrow> Inr (this\<lparr>cm_running := False\<rparr>, h3, []) | f \<Rightarrow> Inl f)
     else Inr (this, h3, [bs]))"
    using ty new bs h2(1) h3(1) snd literal_error_cases [of send_message err]
    by (auto simp: send_popped_def Let_def)
  then show ?thesis using h3 bs by auto
qed

section \<open>What is received\<close>

lemma offer_packet_id [simp]: "offer_packet packet this = this"
proof -
  have "fold (\<lambda>handler m. if listensFor (mListenFor handler) (pkt_type packet) then m else m) hls m = m" for hls m
    by (induction hls arbitrary: m) simp_all
  then show ?thesis by (simp add: offer_packet_def)
qed

lemma extractPacket_returns: "length m = sizeof_Packet \<Longrightarrow> \<exists>p. extractPacket (Some m) sz = Inr p"
  using sint_le_iff_unat [of "of_le (take 4 m)" 1024]
  by (auto simp: extractPacket_def Let_def Packet_default_def)

text \<open>When the pass ends the connection: a read that failed, or one that gives zero.\<close>

definition recv_ends :: "size_t \<Rightarrow> recv_answer \<Rightarrow> bool" where
  "recv_ends junk_res answer \<longleftrightarrow>
     (case answer of RecvFailed _ \<Rightarrow> True | Arrived bs \<Rightarrow> bs = [] \<and> junk_res = 0)"

lemma recv_pass_spec:
  assumes wf: "heap_wf h"
  shows "case recv_pass junk junk_res answer this h of
      Inl f \<Rightarrow> f = OutOfBounds \<and> (\<exists>err. answer = RecvFailed err \<and> literal_error read_message err = OutOfBounds)
    | Inr (this', h') \<Rightarrow> heap_wf h' \<and> hp_cells h' = hp_cells h
        \<and> this' = (if recv_ends junk_res answer then this\<lparr>cm_running := False\<rparr> else this)"
proof -
  obtain a h1 where new: "heap_new sizeof_Packet junk h = (a, h1)" by fastforce
  note a = hp.alloc_fresh [OF wf new] hp.alloc_blocks [OF wf new]
  let ?n = "of_nat sizeof_Packet :: size_t"
  have n: "unat ?n = sizeof_Packet" by simp
  have blk: "hp_cells h1 a = Some (new_bytes sizeof_Packet junk)" using a by simp
  have gone: "\<exists>h3. heap_delete a h2 = Inr h3 \<and> heap_wf h3 \<and> hp_cells h3 = hp_cells h"
    if "heap_wf h2" "hp_cells h2 = (hp_cells h1)(a \<mapsto> m)" for h2 m
    using hp.release_ok [OF that(1), of a m] that(2) a by (auto simp: fun_upd_idem)
  have h1: "heap_wf h1" "hp_cells h1 = (hp_cells h1)(a \<mapsto> new_bytes sizeof_Packet junk)"
    using a by auto
  note rd = Socket_read_spec [of h1 a "new_bytes sizeof_Packet junk" ?n answer junk_res "cm_socket this", OF h1(1) blk]
  show ?thesis
  proof (cases answer)
    case (RecvFailed err)
    obtain h3 where "heap_delete a h1 = Inr h3" "heap_wf h3" "hp_cells h3 = hp_cells h" using gone [OF h1] by blast
    then show ?thesis using RecvFailed new literal_error_cases [of read_message err]
      by (auto simp: recv_pass_def Socket_read_def recv_ends_def Let_def simp del: sizeof_Packet_val)
  next
    case (Arrived bs)
    let ?got = "take (unat ?n) bs"
    obtain sz h2 where r1: "Socket_read answer junk_res a ?n (cm_socket this) h1 = Inr (sz, h2)"
      using rd n Arrived by (cases "Socket_read answer junk_res a ?n (cm_socket this) h1") auto
    have "heap_wf h2 \<and> (\<exists>m'. length m' = sizeof_Packet \<and> hp_cells h2 = (hp_cells h1)(a \<mapsto> m')
        \<and> (if ?got = [] then sz = junk_res else unat sz = length ?got))"
      using rd n Arrived unfolding r1 by (auto simp del: sizeof_Packet_val take_eq_Nil split: if_splits)
    then obtain m' where r: "heap_wf h2" "length m' = sizeof_Packet" "hp_cells h2 = (hp_cells h1)(a \<mapsto> m')"
        "if ?got = [] then sz = junk_res else unat sz = length ?got"
      by blast
    have got: "?got = [] \<longleftrightarrow> bs = []" by auto
    have ends: "sz = 0 \<longleftrightarrow> recv_ends junk_res answer"
      using r(4) got Arrived by (cases bs) (auto simp: recv_ends_def unat_eq_0 split: if_splits)
    obtain h3 where h3: "heap_delete a h2 = Inr h3" "heap_wf h3" "hp_cells h3 = hp_cells h"
      using gone [OF r(1,3)] by blast
    have ld: "heap_load a sizeof_Packet h2 = Inr m'" using r(2,3) heap_load_ok [of h2 a m' sizeof_Packet] by simp
    obtain p where "extractPacket (Some m') sz = Inr p" using extractPacket_returns [OF r(2)] by blast
    then show ?thesis using new r1 h3 ld ends a(1)
      by (auto simp: recv_pass_def Let_def word_gt_0 simp del: sizeof_Packet_val split: if_splits)
  qed
qed

section \<open>The life of a manager\<close>

text \<open>
  Once the receiving thread is done nothing is running; the other threads are where their predecessors
  let them be, the packets are well-formed, and after the stop packet was queued the sending thread is
  not before an empty queue.
\<close>

definition legacy_inv :: "manager_run \<Rightarrow> bool" where
  "legacy_inv s \<longleftrightarrow> heap_wf (mr_heap s)
     \<and> (\<forall>p \<in> set (mQueue (cm_queue (mr_cm s))). packet_wf p) \<and> (\<forall>p. mr_send s = SendItem p \<longrightarrow> packet_wf p)
     \<and> (mr_recv s = RecvDone \<or> mr_send s = SendDone \<longrightarrow> \<not> cm_running (mr_cm s))
     \<and> (mr_start s \<noteq> JoinRecv \<longrightarrow> mr_recv s = RecvDone)
     \<and> (mr_start s = JoinSend \<and> mr_send s = SendPop \<longrightarrow> mQueue (cm_queue (mr_cm s)) \<noteq> [])
     \<and> (mr_start s = Closing \<or> mr_start s = Closed \<longrightarrow> mr_send s = SendDone)"

lemma stop_packet_wf: "Packet_ctor3 junk ty 0 None = Inr p \<Longrightarrow> packet_wf p"
  by (auto simp: Packet_ctor3_def Packet_ctor_def packet_wf_def Let_def)

text \<open>What a popped item does to the manager and the store.\<close>

lemma send_popped_effect:
  assumes "heap_wf h" and "packet_wf item" and "send_popped junk answer err item this h = Inr (this', h', out)"
  shows "heap_wf h' \<and> hp_cells h' = hp_cells h \<and> (this' = this \<or> this' = this\<lparr>cm_running := False\<rparr>)"
proof (cases "pkt_type item = type_val INVALID")
  case True
  then show ?thesis using assms by (auto simp: send_popped_def)
next
  case False
  then show ?thesis
    using send_popped_ok [OF assms(1,2) False, of junk answer err this] assms(3)
    by (auto split: if_splits fault.splits)
qed

lemma legacy_inv_own:
  assumes "own_step s t" and "legacy_inv s"
  shows "legacy_inv t"
  using assms
proof (induction rule: own_step.induct)
  case (send_pop s item rest)
  then show ?case using cq.pop_contents [OF send_pop(2)] by (auto simp: legacy_inv_def)
next
  case (send_item s item junk answer err this h out)
  have wf: "heap_wf (mr_heap s)" "packet_wf item" using send_item(1,3) by (simp_all add: legacy_inv_def)
  show ?case using send_popped_effect [OF wf send_item(2)] send_item(1,3) by (auto simp: legacy_inv_def)
next
  case (push_stop s junk item)
  then show ?case using stop_packet_wf [OF push_stop(2)] by (auto simp: legacy_inv_def cq.push_contents)
qed (auto simp: legacy_inv_def closeClient_def split: if_splits)

lemma legacy_inv_peer:
  assumes "peer_step s t" and "legacy_inv s"
  shows "legacy_inv t"
  using assms
proof (induction rule: peer_step.induct)
  case (received s junk junk_res answer this h)
  have wf: "heap_wf (mr_heap s)" using received by (simp add: legacy_inv_def)
  show ?case using recv_pass_spec [OF wf, where junk = junk and junk_res = junk_res and answer = answer and this = "mr_cm s"] received
    by (auto simp: legacy_inv_def split: if_splits)
qed (auto simp: legacy_inv_def cq.push_contents)

lemma fold_addListener [simp]:
  "cm_queue (fold addListener hls m) = cm_queue m" "cm_socket (fold addListener hls m) = cm_socket m"
  "cm_running (fold addListener hls m) = cm_running m" "cm_handlers (fold addListener hls m) = cm_handlers m @ hls"
  by (induction hls arbitrary: m) (simp_all add: addListener_def)

interpretation legacy: invariant_system legacy_init legacy_step legacy_inv
proof unfold_locales
  fix s assume "legacy_init s"
  then show "legacy_inv s"
    by (auto simp: legacy_init_def start_manager_def legacy_inv_def ClientManager_new_def)
next
  fix s t assume "legacy_inv s" "legacy_step s t"
  then show "legacy_inv t" using legacy_inv_own legacy_inv_peer by (auto simp: legacy_step_def)
qed

text \<open>After the receiving thread is done, the steps that are left.\<close>

fun send_left :: "send_point \<Rightarrow> nat" where
  "send_left SendPop = 3" | "send_left (SendItem p) = 2" | "send_left SendTest = 1" | "send_left SendDone = 0"

fun start_left :: "start_point \<Rightarrow> nat" where
  "start_left JoinRecv = 4" | "start_left PushStop = 3" | "start_left JoinSend = 2" | "start_left Closing = 1"
| "start_left Closed = 0"

definition steps_left :: "manager_run \<Rightarrow> nat" where
  "steps_left s = send_left (mr_send s) + start_left (mr_start s)"

lemma steps_left_own:
  assumes "own_step s t" and "legacy_inv s" and "mr_recv s = RecvDone"
  shows "steps_left t < steps_left s \<and> mr_recv t = RecvDone"
  using assms
  by (induction rule: own_step.induct) (auto simp: steps_left_def legacy_inv_def)

lemma steps_left_peer:
  assumes "peer_step s t" and "mr_recv s = RecvDone"
  shows "steps_left t = steps_left s \<and> mr_recv t = RecvDone"
  using assms by (induction rule: peer_step.induct) (auto simp: steps_left_def)

lemma own_progress:
  assumes inv: "legacy_inv s" and fin: "mr_recv s = RecvDone" and open': "mr_start s \<noteq> Closed"
  shows "\<exists>t. own_step s t"
proof (cases "mr_start s")
  case JoinRecv
  then show ?thesis using own_step.joined_recv fin by blast
next
  case PushStop
  then show ?thesis using own_step.push_stop [of s "\<lambda>_. 0"] by (auto simp: Packet_ctor3_def Packet_ctor_def Let_def)
next
  case Closing
  then show ?thesis using own_step.closing by (metis surj_pair)
next
  case JoinSend
  show ?thesis
  proof (cases "mr_send s")
    case SendTest
    then show ?thesis using own_step.send_test by blast
  next
    case SendPop
    then have "mQueue (cm_queue (mr_cm s)) \<noteq> []" using inv JoinSend by (simp add: legacy_inv_def)
    then obtain item rest where "queue_pop (cm_queue (mr_cm s)) = Some (item, rest)"
      using cq.pop_empty [of "cm_queue (mr_cm s)"] by fastforce
    then show ?thesis using own_step.send_pop SendPop by blast
  next
    case (SendItem item)
    have wf: "heap_wf (mr_heap s)" "packet_wf item" using inv SendItem by (simp_all add: legacy_inv_def)
    have "\<exists>r. send_popped (\<lambda>_. 0) 0 0 item (mr_cm s) (mr_heap s) = Inr r"
    proof (cases "pkt_type item = type_val INVALID")
      case True
      then show ?thesis by (simp add: send_popped_def)
    next
      case False
      then show ?thesis using send_popped_ok [OF wf False, of "\<lambda>_. 0" 0 0 "mr_cm s"] by auto
    qed
    then obtain this h out where "send_popped (\<lambda>_. 0) 0 0 item (mr_cm s) (mr_heap s) = Inr (this, h, out)" by auto
    then show ?thesis using own_step.send_item [OF SendItem] by blast
  next
    case SendDone
    then show ?thesis using own_step.joined_send JoinSend by blast
  qed
qed (use open' in simp)

lemma shorter_size:
  assumes "n < sizeof_Packet"
  shows "(of_nat n :: size_t) \<noteq> of_nat sizeof_Packet"
proof
  assume "(of_nat n :: size_t) = of_nat sizeof_Packet"
  then have "unat (of_nat n :: size_t) = unat (of_nat sizeof_Packet :: size_t)" by (rule arg_cong)
  moreover have "n < 2 ^ 64" using assms by simp
  ultimately show False using assms by (simp add: unat_of_nat)
qed

section \<open>Properties\<close>

text \<open>
  C39. What a client manager sends. For every well-formed packet the bytes handed to the system are its
  size, its type, and then as many bytes as the size says of id and data together: the id takes the
  place of four bytes and the last four bytes of the data are cut off (all of it, for less than four).
  Whatever is sent, a message has at most 1032 bytes, so the parser of the same manager, which accepts
  1036 bytes only, takes nothing another one sends.
\<close>

theorem legacy_packet_bytes:
  assumes "packet_wf p"
  shows "\<exists>bs. legacy_bytes p = Inr bs
    \<and> bs = le_bytes 4 (pkt_size p) @ le_bytes 4 (pkt_type p)
           @ take (unat (pkt_size p)) (le_bytes 4 (pkt_id p) @ payload p)
    \<and> length bs = 8 + unat (pkt_size p) \<and> length bs < sizeof_Packet
    \<and> extractPacket (Some bs) (of_nat (length bs)) = Inr Packet_default"
proof -
  let ?bs = "le_bytes 4 (pkt_size p) @ le_bytes 4 (pkt_type p)
      @ take (unat (pkt_size p)) (le_bytes 4 (pkt_id p) @ payload p)"
  have "legacy_bytes p = Inr ?bs" using legacy_bytes_eq [OF assms] by simp
  moreover have len: "length ?bs = 8 + unat (pkt_size p)" using length_payload [OF assms] by simp
  moreover have small: "length ?bs < sizeof_Packet" using len packet_wf_size [OF assms] by simp
  moreover have "(of_nat (length ?bs) :: size_t) \<noteq> of_nat sizeof_Packet" by (rule shorter_size [OF small])
  ultimately show ?thesis by (auto simp: extractPacket_def)
qed

theorem legacy_packet_bytes_witness:
  "\<exists>p bs. Packet_ctor3 (\<lambda>_. 0) (type_val AUDIO) 6 (Some [1, 2, 3, 4, 5, 6]) = Inr p \<and> legacy_bytes p = Inr bs
    \<and> bs = [6, 0, 0, 0, 4, 0, 0, 0, 0, 0, 0, 0, 1, 2]"
proof -
  obtain p where p: "Packet_ctor (\<lambda>_. 0) (type_val AUDIO) 6 0 (Some [1, 2, 3, 4, 5, 6]) = Inr p"
      "pkt_size p = 6" "pkt_type p = 4" "pkt_id p = 0" "payload p = [1, 2, 3, 4, 5, 6]"
    using Packet_ctor_ok [of 6 "[1, 2, 3, 4, 5, 6]" "\<lambda>_. 0" "type_val AUDIO" 0] by (simp add: payload_def)
  have "le_bytes 4 (6 :: cint) = [6, 0, 0, 0]" "le_bytes 4 (4 :: cint) = [4, 0, 0, 0]"
    "le_bytes 4 (0 :: cint) = [0, 0, 0, 0]" by code_simp+
  then show ?thesis using legacy_packet_bytes [OF Packet_ctor_wf [OF p(1)]] p
    by (auto simp: Packet_ctor3_def)
qed

text \<open>
  One pass of the receiving thread. It never touches a handler or the queue, and gives back the
  array it allocated: the manager afterwards is the manager before, except that it stops running
  exactly when the read failed, or when the peer closed and the value the function forgot to return
  happens to be zero. The only fault is the reading of an error message past its end.
\<close>

theorem recv_pass_outcome:
  assumes "heap_wf h"
  shows "case recv_pass junk junk_res answer this h of
      Inl f \<Rightarrow> f = OutOfBounds \<and> (\<exists>err. answer = RecvFailed err \<and> literal_error read_message err = OutOfBounds)
    | Inr (this', h') \<Rightarrow> heap_wf h' \<and> hp_cells h' = hp_cells h
        \<and> this' = (if (\<exists>err. answer = RecvFailed err) \<or> answer = Arrived [] \<and> junk_res = 0
                   then this\<lparr>cm_running := False\<rparr> else this)"
proof -
  have "recv_ends junk_res answer \<longleftrightarrow> (\<exists>err. answer = RecvFailed err) \<or> answer = Arrived [] \<and> junk_res = 0"
    by (auto simp: recv_ends_def split: recv_answer.splits)
  then show ?thesis
    using recv_pass_spec [OF assms, where junk = junk and junk_res = junk_res and answer = answer and this = this]
    by (simp only:)
qed

definition demo_socket :: Socket where
  "demo_socket = \<lparr> so_fd = 5, so_addr = [], so_wsabuf = None \<rparr>"

definition demo_legacy :: ClientManager where
  "demo_legacy = (ClientManager_new demo_socket)\<lparr>cm_running := True\<rparr>"

theorem recv_pass_outcome_witness:
  "\<exists>h1 h2. recv_pass (\<lambda>_. 0) 7 (Arrived []) demo_legacy heap_empty = Inr (demo_legacy, h1)
     \<and> recv_pass (\<lambda>_. 0) 7 (RecvFailed 3) demo_legacy heap_empty = Inr (demo_legacy\<lparr>cm_running := False\<rparr>, h2)"
proof -
  have "literal_error read_message 3 = RuntimeError" by code_simp
  then show ?thesis
    using recv_pass_outcome [OF heap_empty_wf, where junk = "\<lambda>_. 0" and junk_res = 7 and answer = "Arrived []" and this = demo_legacy]
      recv_pass_outcome [OF heap_empty_wf, where junk = "\<lambda>_. 0" and junk_res = 7 and answer = "RecvFailed 3" and this = demo_legacy]
    by (auto split: sum.splits)
qed



end
