(* ===== verification/Spec2Isabelle.thy ===== *)
theory Spec2Isabelle
  imports ServerBoot ServerFaults QueueSpec ClientManagers
begin

text \<open>
  A verification library for the audio server under \<^verbatim>\<open>src/Server\<close>: a Windows program that
  listens on a port, hands every accepted connection to an I/O completion port, decodes the messages
  of its clients and answers with the list of the songs in a folder or with the bytes of a WAV file.

  How the parts work together. \<^verbatim>\<open>main\<close> builds a listening socket (\<^verbatim>\<open>ServerSocket\<close>), a manager
  (\<^verbatim>\<open>ServerManager\<close>) with its thread pool (\<^verbatim>\<open>ThreadPool\<close>) and its send queue (\<^verbatim>\<open>ConcurrentQueue\<close>), and
  a factory (\<^verbatim>\<open>AudioClientHandlerFactory\<close>). One task of the pool accepts connections and makes a
  \<^verbatim>\<open>Client\<close> for each; the factory gives the client a handler of the bytes it receives, which decodes
  a \<^verbatim>\<open>Packet\<close> and calls the \<^verbatim>\<open>AudioServerHandler\<close> and the \<^verbatim>\<open>SettingsHandler\<close>. The audio handler reads
  the folder through \<^verbatim>\<open>FileList\<close> and \<^verbatim>\<open>SongFileConverter\<close> and the files through \<^verbatim>\<open>WavFilePackager\<close>,
  and pushes its answers to the send queue. A second task pops them and sends them one at a time; the
  other tasks take completions from the port and call the clients.

  The theories and the code they model:

  \<^item> \<^verbatim>\<open>Prelude\<close>: machine integers, faults as values, bounded memory access, C strings, the checked
    string functions of the C runtime, the locales of binary layouts, of invariants, of simulations and of
    systems that come to rest.
  \<^item> \<^verbatim>\<open>Packets\<close>: \<^verbatim>\<open>Packet.h\<close>, \<^verbatim>\<open>PacketExtracter.h\<close>. The packet and its memory image, \<^verbatim>\<open>Deserialize\<close>,
    what is sent of a packet, and the splitting of a received byte stream. Lemmas: decoding of full
    messages, round trips of requests and of the stream that is sent.
  \<^item> \<^verbatim>\<open>Buffers\<close>: \<^verbatim>\<open>Buffer.h\<close>, \<^verbatim>\<open>Buffer.cpp\<close> over an explicit free store. Lemmas: deep copies, no leak,
    no double release.
  \<^item> \<^verbatim>\<open>Songs\<close>: \<^verbatim>\<open>Song.h\<close>. Lemmas: copying, comparing and building songs on every branch.
  \<^item> \<^verbatim>\<open>WavFiles\<close>: \<^verbatim>\<open>WavFilePackager.h\<close>, \<^verbatim>\<open>WavFilePackager.cpp\<close>, \<^verbatim>\<open>FilePackager.h\<close>. Lemmas: the header
    round trip and the refinement of the chunk loop to the bytes of the file (locale \<^verbatim>\<open>file_packager\<close>).
  \<^item> \<^verbatim>\<open>FileLists\<close>: \<^verbatim>\<open>FileList.h\<close>, \<^verbatim>\<open>FileConverter.h\<close>, \<^verbatim>\<open>SongFileConverter.h\<close>. Lemmas: the search, what the
    list holds (locale \<^verbatim>\<open>list_element\<close>), the converter on every branch.
  \<^item> \<^verbatim>\<open>ConcQueue\<close>: \<^verbatim>\<open>ConcurrentQueue.h\<close>, as a queue (locale \<^verbatim>\<open>fifo_queue\<close>) and as a monitor with its
    mutex and condition variable. Lemmas: mutual exclusion, no lost item, no lost wake-up.
  \<^item> \<^verbatim>\<open>AudioHandler\<close> and \<^verbatim>\<open>AudioStream\<close>: \<^verbatim>\<open>AudioServerHandler.h\<close>, \<^verbatim>\<open>AudioServerHandler.cpp\<close>,
    \<^verbatim>\<open>InputHandler.h\<close>. Lemmas: the packets pushed for the list and for a song, and that streaming returns.
  \<^item> \<^verbatim>\<open>ClientSettings\<close>: \<^verbatim>\<open>Settings.h\<close>, \<^verbatim>\<open>SettingsHandler.h\<close>, \<^verbatim>\<open>SettingsHandler.cpp\<close>.
  \<^item> \<^verbatim>\<open>Dispatch\<close>: \<^verbatim>\<open>AudioClientHandlerFactory.cpp\<close> and the virtual calls of \<^verbatim>\<open>InputHandler.h\<close> (locale
    \<^verbatim>\<open>input_handlers\<close>). Lemmas: which messages are dropped, routed, answered, or end the process.
  \<^item> \<^verbatim>\<open>Clients\<close>: \<^verbatim>\<open>Client.h\<close>, \<^verbatim>\<open>Client.cpp\<close>. Lemmas: completions in each state of the client.
  \<^item> \<^verbatim>\<open>ThreadPools\<close>: \<^verbatim>\<open>ThreadPool.h\<close> as a step relation. Lemmas: order of the tasks, progress, joining,
    for both contents of the flag that has no initial value.
  \<^item> \<^verbatim>\<open>ServerSockets\<close>: \<^verbatim>\<open>ServerSocket.h\<close>, \<^verbatim>\<open>ServerSocket.cpp\<close>, with the Winsock calls they make in order.
  \<^item> \<^verbatim>\<open>ServerManagers\<close>: \<^verbatim>\<open>ServerManager.h\<close>, \<^verbatim>\<open>ServerManager.cpp\<close> but for \<^verbatim>\<open>sendTask\<close>, and \<^verbatim>\<open>main.cpp\<close>.
    Lemmas: the invariant of the connected clients, each kind of completion, the tasks queued.
  \<^item> \<^verbatim>\<open>SendTasks\<close>: \<^verbatim>\<open>ServerManager::sendTask\<close> interleaved with the workers and with the system.
  \<^item> \<^verbatim>\<open>QueueSpec\<close>: the abstract queue that \<^verbatim>\<open>ConcurrentQueue\<close> promises, and that its monitor refines it
    (locale \<^verbatim>\<open>simulation\<close>).
  \<^item> \<^verbatim>\<open>ServerRuns\<close>: the workers, the sending thread and the clients they share in one step relation. A
    pass of \<^verbatim>\<open>workerThread\<close> and an item of \<^verbatim>\<open>sendTask\<close> are cut where another thread can come between;
    a client lives as long as the map or a thread has a pointer to it. \<^verbatim>\<open>ServerSafety\<close>: its invariant and
    that no thread gets stuck. \<^verbatim>\<open>ServerPasses\<close>: the steps of a worker that nobody interferes with are the
    pass of \<^verbatim>\<open>ServerManagers\<close>. \<^verbatim>\<open>ServerHazards\<close>: the runs in which a disconnecting
    client ends the process, is released while a receive of it is outstanding, or leaves a completion
    that closes the next client at its address.
  \<^item> \<^verbatim>\<open>ServerTraffic\<close> and \<^verbatim>\<open>ServerDelivery\<close>: an observer of the steps of \<^verbatim>\<open>ServerRuns\<close> who writes down
    which packets are answered to which client and which bytes go to \<^verbatim>\<open>WSASend\<close> on which socket. Lemmas:
    what is sent is, for every client, a part of the answers to its own messages; and the runs in which a
    client connects, asks, and gets the whole answer.
  \<^item> \<^verbatim>\<open>ServerRest\<close>: the threads alone, as a relation that always comes to rest (locale \<^verbatim>\<open>settling\<close>), and
    where they wait then. \<^verbatim>\<open>ServerVisits\<close>: from any state with a waiting worker, scripts of clients that
    connect and ask; what was queued before is drained first. \<^verbatim>\<open>ServerFaults\<close>: the faults a run can end in,
    and the run in which one client's bytes make the server read an array released too early.
  \<^item> \<^verbatim>\<open>Startup\<close>: the tasks of \<^verbatim>\<open>ServerManager::listen\<close> on the threads of \<^verbatim>\<open>ThreadPool\<close>. Lemmas: a
    measure of the steps that are left, and that every task gets a thread of its own. \<^verbatim>\<open>ServerBoot\<close>: the
    workers this makes, and which machines can serve anybody.
  \<^item> \<^verbatim>\<open>Sockets\<close> and \<^verbatim>\<open>ClientManagers\<close>: \<^verbatim>\<open>Socket.h\<close>, \<^verbatim>\<open>Socket.cpp\<close>, \<^verbatim>\<open>ClientManager.h\<close>,
    \<^verbatim>\<open>ClientManager.cpp\<close>, the design with two threads for each client that the completion port replaced.
    Lemmas: the bytes sent, one pass of the receive loop, and that \<^verbatim>\<open>start\<close> comes back.

  How code becomes definitions. A class is a record with the members of the source, a 32-bit integer
  of the source a 32-bit word and \<^verbatim>\<open>size_t\<close> a 64-bit word. A C++ operation gives a fault or a value:
  standard exceptions, \<^verbatim>\<open>terminate\<close>, the invalid parameter handler of the C runtime, a division by
  zero, an access out of bounds and the use of released storage are different faults, and only the
  standard exceptions are caught where the code catches them. Storage of \<^verbatim>\<open>new[]\<close> is a block of an
  explicit store; what uninitialised storage holds is an argument of the definitions, so a theorem
  holds for all contents. Objects held by shared pointers are named by addresses.

  What is a parameter. The file system, the listing of a folder, the answers of Winsock and of the
  completion port, the number of hardware threads, and whether a weak pointer can still be locked are
  arguments; the theorems quantify over them. None of them is assumed to behave in a special way,
  except where a theorem says so in a hypothesis (for example that a read was started successfully).

  Bounds and fuel. No definition takes fuel. The one loop of the program that could run for ever, the
  streaming of a file, is a partial function into options, and \<^verbatim>\<open>request_file_returns\<close> shows that it
  always gives a value. Sizes of packets are bounded by 1024 data bytes, so the sums of lengths do
  not wrap; where they could, the theorem states the bound.

  What the source does not allow to compile together. \<^verbatim>\<open>Socket.h\<close> and \<^verbatim>\<open>Socket.cpp\<close> define four members
  twice, with different bodies: both are modelled, and the superseded manager uses those of \<^verbatim>\<open>Socket.cpp\<close>.
  \<^verbatim>\<open>AudioClientManagerFactory\<close> makes a handler by a constructor that is gone: its handler is an argument.

  Addresses. A client is named by the address of its object, by the map, the completions and the weak
  pointers of the queue alike. An address may be used again after its client is gone, but not while a weak
  pointer names it, since the object and its counts are one allocation of \<^verbatim>\<open>make_shared\<close>; the port and
  the map have no such protection.

  Runs and schedules. What a theorem says of every run holds for every schedule of the threads and for
  every answer of the system. A theorem that there is a run, such as the delivery of an answer, says what
  the program can do when the system does its part; that it need not do it under every schedule is the
  subject of \<^verbatim>\<open>SendTasks\<close> and \<^verbatim>\<open>ServerHazards\<close>. A wake-up without a notification, which the standard
  allows for a condition variable, is used to drain a queue whose notification was lost.

  What is not modelled. \<^verbatim>\<open>Event\<close> and \<^verbatim>\<open>EventHandler\<close> are commented out; \<^verbatim>\<open>ClosingServerHandler\<close> has only
  declarations. Two members of \<^verbatim>\<open>FileList\<close> and one of \<^verbatim>\<open>ConcurrentQueue\<close> cannot be instantiated.
  Output to the console is left out. The passes of the manager's threads are atomic steps in
  \<^verbatim>\<open>ServerManagers\<close>; interleavings inside a pass are modelled in \<^verbatim>\<open>ConcQueue\<close>, \<^verbatim>\<open>ThreadPools\<close>,
  \<^verbatim>\<open>SendTasks\<close> and \<^verbatim>\<open>ServerRuns\<close>. In the last a call on a client is one step: two threads inside the
  same call on one client, and the unsynchronised access to the map in \<^verbatim>\<open>mSockets.at\<close> while another
  thread changes it, are data races to which C++ gives no meaning.
\<close>

section \<open>From a request on the wire to the stream on the wire\<close>

text \<open>
  C1. A client asks for a song and gets the file. When a full TRACK message with a listed song arrives
  at the handlers of the factory, and the song's stored path names a WAV file, the packets pushed for
  this client can all be copied out for sending, and whoever splits the bytes sent by the wire format
  gets back items of type AUDIO with the id of the request and nothing left over: first the header
  of the file, then its data without the first 44 bytes, cut at the length the header gives; where the
  file is shorter, the rest is what the chunk arrays held before.
\<close>

theorem song_request_end_to_end:
  assumes fac: "factory_handlers a s" and wf: "heap_wf h" and song: "song_ok song"
    and n: "n < length (mFileMap (ah_files a))"
    and hit: "song_key (fst (mFileMap (ah_files a) ! n)) = song_key song"
    and first: "\<forall>j < n. song_key (fst (mFileMap (ah_files a) ! j)) \<noteq> song_key song"
    and on_disk: "re_fs env (snd (mFileMap (ah_files a) ! n)) = Some (header_image wh @ data)"
    and wh: "header_shape wh" "chunk_id wh = RIFF" "wh_format wh = WAVE"
    and alive: "\<forall>k. re_alive env k" and pad: "length pad = 892"
    and sz: "sz = unat (subchunk2_size wh) - 44"
  shows "\<exists>h' q' pks bss first_item items.
    received_handler env [AudioH a, SettingsH s]
        (request_image 132 i (type_val TRACK) (song_image song @ pad)) (of_nat sizeof_Packet) (h, q)
      = Some (Inr ([AudioH a, SettingsH s], (h', q')))
    \<and> mQueue q' = mQueue q @ map (Pair (ah_client a)) pks \<and> map wire_bytes pks = map Inr bss
    \<and> parse_stream (concat bss) = (first_item # items, [])
    \<and> (\<forall>it \<in> set (first_item # items). wi_type it = type_val AUDIO \<and> wi_id it = i)
    \<and> wi_data first_item = header_image wh
    \<and> concat (map wi_data items) = take sz (drop 44 data)
        @ map (\<lambda>j. re_junk env (1 + j div 1024) (j mod 1024)) [length data - 44..<sz]"
proof -
  let ?m = "request_image 132 i (type_val TRACK) (song_image song @ pad)"
  obtain h' q' p0 ps where r: "received_handler env [AudioH a, SettingsH s] ?m (of_nat sizeof_Packet) (h, q)
        = Some (Inr ([AudioH a, SettingsH s], (h', q')))" "mQueue q' = mQueue q @ map (Pair (ah_client a)) (p0 # ps)"
      "\<forall>x \<in> set (p0 # ps). packet_wf x \<and> pkt_type x = type_val AUDIO \<and> pkt_id x = i" "payload p0 = header_image wh"
      "concat (map payload ps) = take sz (drop 44 data)
        @ map (\<lambda>j. re_junk env (1 + j div 1024) (j mod 1024)) [length data - 44..<sz]"
    using song_request_handled [OF assms] by blast
  have "list_all packet_wf (p0 # ps)" using r(3) by (auto simp: list_all_iff)
  then obtain bss where bss: "map wire_bytes (p0 # ps) = map Inr bss"
      "list_all2 (\<lambda>p bs. packet_wf p \<and> wire_bytes p = Inr bs) (p0 # ps) bss"
    using wire_bytes_list by blast
  have "parse_stream (concat bss) = (wire_view p0 # map wire_view ps, [])"
    using parse_stream_wires [OF bss(2), of "[]"] by simp
  then show ?thesis
    using r bss(1)
    by (intro exI [of _ h'] exI [of _ q'] exI [of _ "p0 # ps"] exI [of _ bss] exI [of _ "wire_view p0"]
        exI [of _ "map wire_view ps"]) (simp add: wire_view_simps comp_def)
qed

theorem song_request_end_to_end_witness:
  "\<exists>h' q' pks bss first_item items.
    received_handler demo_env [AudioH demo_handler, SettingsH (SettingsHandler_new Settings_default)]
        (request_image 132 5 (type_val TRACK) (song_image song_a @ replicate 892 0)) (of_nat sizeof_Packet)
        (heap_empty, \<lparr> mQueue = [] \<rparr>)
      = Some (Inr ([AudioH demo_handler, SettingsH (SettingsHandler_new Settings_default)], (h', q')))
    \<and> map wire_bytes pks = map Inr bss \<and> mQueue q' = map (Pair 3) pks
    \<and> parse_stream (concat bss) = (first_item # items, [])
    \<and> wi_data first_item = header_image demo_header \<and> concat (map wi_data items) = replicate 56 9"
proof -
  have f: "mFileMap (ah_files demo_handler) = [(song_a, [77])]" "ah_client demo_handler = 3"
    using demo_list_simps by (simp_all add: demo_handler_def)
  have e: "re_fs demo_env [77] = Some (header_image demo_header @ replicate 100 9)" "\<forall>k. re_alive demo_env k"
    by (simp_all add: demo_env_def demo_file_def)
  obtain h' q' pks bss first_item items where run:
    "received_handler demo_env [AudioH demo_handler, SettingsH (SettingsHandler_new Settings_default)]
        (request_image 132 5 (type_val TRACK) (song_image song_a @ replicate 892 0)) (of_nat sizeof_Packet)
        (heap_empty, \<lparr> mQueue = [] \<rparr>)
      = Some (Inr ([AudioH demo_handler, SettingsH (SettingsHandler_new Settings_default)], (h', q')))"
    "map wire_bytes pks = map Inr bss" "mQueue q' = map (Pair 3) pks"
    "parse_stream (concat bss) = (first_item # items, [])"
    "wi_data first_item = header_image demo_header" "concat (map wi_data items) = replicate 56 9"
    using song_request_end_to_end [OF demo_factory heap_empty_wf sample_songs(1), of 0 demo_env demo_header
        "replicate 100 9" "replicate 892 0" 56 5 "\<lparr> mQueue = [] \<rparr>"] f e demo_header_simps
    by auto
  show ?thesis by (intro exI conjI) (rule run)+
qed

end
